(* ===== verification/WPrelude.thy ===== *)
theory WPrelude
  imports Main "HOL-Library.Word"
begin

text \<open>
  Shared ground of the development: names of the machine types, the result type of an
  operation that may leave the defined behaviour of C or stop the kernel, and generic lemmas on
  lists and words that several components use.
\<close>

section \<open>Machine types\<close>

type_synonym u8 = "8 word"
type_synonym u32 = "32 word"
type_synonym u64 = "64 word"

text \<open>
  A C \<open>long\<close> is kept as the 64-bit word it is and read with \<open>sint\<close>; a C \<open>int\<close> whose value the
  code never lets overflow is an \<open>int\<close> or a \<open>nat\<close>.
\<close>

section \<open>Operations that can go wrong\<close>

text \<open>
  \<open>OutOfBounds\<close> is an access outside an array (undefined in C), \<open>NullDeref\<close> the use of a null
  pointer, \<open>BugOn\<close> the kernel's deliberate stop. An operation of the code that returns a
  negative error number has returned: that number is an ordinary result.
\<close>

datatype fault = OutOfBounds | NullDeref | BugOn

type_synonym 'a res = "fault + 'a"

definition res_bind :: "'e + 'a \<Rightarrow> ('a \<Rightarrow> 'e + 'b) \<Rightarrow> 'e + 'b" where
  "res_bind m f = (case m of Inl e \<Rightarrow> Inl e | Inr x \<Rightarrow> f x)"

lemma res_bind_simps [simp]:
  "res_bind (Inl e) f = Inl e"
  "res_bind (Inr x) f = f x"
  by (simp_all add: res_bind_def)

lemma res_bind_Inr_iff: "res_bind m f = Inr y \<longleftrightarrow> (\<exists>x. m = Inr x \<and> f x = Inr y)"
  by (cases m) auto

lemma res_bind_assoc: "res_bind (res_bind m f) g = res_bind m (\<lambda>x. res_bind (f x) g)"
  by (cases m) auto

lemma res_bind_Inr [simp]: "res_bind m Inr = m"
  by (cases m) auto

definition ok :: "'e + 'a \<Rightarrow> bool" where
  "ok r \<longleftrightarrow> (\<exists>x. r = Inr x)"

lemma ok_simps [simp]: "ok (Inr x)" "\<not> ok (Inl e)"
  by (simp_all add: ok_def)

section \<open>Collections of facts\<close>

named_theorems frame_simps \<open>fields an operation leaves alone\<close>
named_theorems inv_intros \<open>operations keep an invariant\<close>

section \<open>Lists\<close>

text \<open>Overwriting a stretch of a list, the effect of a block copy into an array.\<close>

definition overwrite :: "'a list \<Rightarrow> nat \<Rightarrow> 'a list \<Rightarrow> 'a list" where
  "overwrite xs off ys = take off xs @ ys @ drop (off + length ys) xs"

lemma length_overwrite [simp]:
  "off + length ys \<le> length xs \<Longrightarrow> length (overwrite xs off ys) = length xs"
  by (simp add: overwrite_def)

lemma take_overwrite:
  "off + length ys \<le> length xs \<Longrightarrow>
   take (off + length ys) (overwrite xs off ys) = take off xs @ ys"
  by (simp add: overwrite_def)

lemma nth_replicate_drop:
  "i < length xs \<Longrightarrow> n \<le> length xs \<Longrightarrow>
   (replicate n a @ drop n xs) ! i = (if i < n then a else xs ! i)"
  by (simp add: nth_append)

lemma takeWhile_neq [simp]: "d \<notin> set s \<Longrightarrow> takeWhile (\<lambda>c. c \<noteq> d) s = s"
  by (induction s) auto

lemma dropWhile_neq [simp]: "d \<notin> set s \<Longrightarrow> dropWhile (\<lambda>c. c \<noteq> d) s = []"
  by (induction s) auto

lemma takeWhile_neq_stop [simp]: "d \<notin> set s \<Longrightarrow> takeWhile (\<lambda>c. c \<noteq> d) (s @ d # t) = s"
  by (induction s) auto

lemma dropWhile_neq_stop [simp]:
  "d \<notin> set s \<Longrightarrow> dropWhile (\<lambda>c. c \<noteq> d) (s @ d # t) = d # t"
  by (induction s) auto

lemma butlast_list_update_last:
  "xs \<noteq> [] \<Longrightarrow> xs[length xs - 1 := y] = butlast xs @ [y]"
  by (induction xs) (auto split: nat.split simp: neq_Nil_conv)

lemma sorted_last: "sorted (map f xs) \<Longrightarrow> \<forall>x \<in> set xs. f x \<le> f (last xs)"
  by (induction xs rule: rev_induct) (auto simp: sorted_append)

section \<open>Words\<close>

lemma unat_word_of_nat_small:
  "n < 2 ^ LENGTH('a::len) \<Longrightarrow> unat (word_of_nat n :: 'a word) = n"
  by (simp add: unat_of_nat take_bit_nat_eq_self)

lemma unat_add_small:
  "unat (a :: 'a::len word) + unat b < 2 ^ LENGTH('a) \<Longrightarrow> unat (a + b) = unat a + unat b"
  by (simp add: unat_word_ariths)

text \<open>Below another word an increment does not wrap.\<close>

lemma inc_le_iff: "(s :: 'a::len word) < t \<Longrightarrow> s + 1 \<le> k \<longleftrightarrow> s < k"
proof -
  assume "s < t"
  then have "unat s < unat t" by (simp add: word_less_nat_alt)
  then have "unat s + 1 < 2 ^ LENGTH('a)" using unsigned_less [of t] by (metis (no_types, lifting) Suc_eq_plus1 Suc_leI le_less_trans)
  then have "unat (s + 1) = unat s + 1" by (simp add: unat_word_ariths)
  then show ?thesis by (simp add: word_less_nat_alt word_le_nat_alt Suc_le_eq)
qed

end
