(* ===== verification/CLib.thy ===== *)
theory CLib
  imports WPrelude
begin

text \<open>
  The functions of the C standard library the program uses, on strings as lists of characters.
  A C string in an array is the characters up to the first NUL; a string that is passed around
  as such is the list of its characters without the NUL. Reading past the end of such a list
  yields the NUL.
\<close>

section \<open>Strings in arrays\<close>

abbreviation NUL :: char where
  "NUL \<equiv> CHR 0x00"

abbreviation NL :: char where
  "NL \<equiv> CHR 0x0A"

definition cstr :: "string \<Rightarrow> string" where
  "cstr b = takeWhile (\<lambda>c. c \<noteq> NUL) b"

definition nul_free :: "string \<Rightarrow> bool" where
  "nul_free s \<longleftrightarrow> NUL \<notin> set s"

definition strlen :: "string \<Rightarrow> nat" where
  "strlen b = length (cstr b)"

lemma cstr_nul_free: "nul_free (cstr b)"
  by (auto simp: cstr_def nul_free_def dest: set_takeWhileD)

lemma cstr_of_nul_free [simp]: "nul_free s \<Longrightarrow> cstr s = s"
  by (simp add: cstr_def nul_free_def)

lemma cstr_append_NUL [simp]: "nul_free s \<Longrightarrow> cstr (s @ NUL # t) = s"
  by (simp add: cstr_def nul_free_def)

lemma cstr_append: "NUL \<in> set b \<Longrightarrow> cstr (b @ t) = cstr b"
  by (auto simp: cstr_def)

lemma length_cstr: "length (cstr b) \<le> length b"
  by (simp add: cstr_def length_takeWhile_le)

lemma length_cstr_less: "NUL \<in> set b \<Longrightarrow> length (cstr b) < length b"
  by (induction b) (auto simp: cstr_def)

lemma strlen_nul_free [simp]: "nul_free s \<Longrightarrow> strlen s = length s"
  by (simp add: strlen_def)

text \<open>\<open>strncpy dst src n\<close>: exactly \<open>n\<close> characters are written, padded with NULs.\<close>

definition strncpy :: "string \<Rightarrow> string \<Rightarrow> nat \<Rightarrow> string" where
  "strncpy dst src n = overwrite dst 0 (take n (cstr src @ replicate n NUL))"

lemma length_strncpy [simp]: "n \<le> length dst \<Longrightarrow> length (strncpy dst src n) = length dst"
  by (simp add: strncpy_def)

lemma strncpy_whole:
  assumes "nul_free s" and "length s < length dst"
  shows "strncpy dst s (Suc (length s)) = s @ NUL # drop (Suc (length s)) dst"
  using assms by (simp add: strncpy_def overwrite_def)

text \<open>
  \<open>strncmp a b n\<close>: the difference of the first pair of unequal characters among the first
  \<open>n\<close>, stopping at a NUL.
\<close>

definition c_head :: "string \<Rightarrow> char" where
  "c_head s = (case s of [] \<Rightarrow> NUL | c # _ \<Rightarrow> c)"

lemma c_head_simps [simp]: "c_head [] = NUL" "c_head (c # s) = c"
  by (simp_all add: c_head_def)

fun strncmp :: "string \<Rightarrow> string \<Rightarrow> nat \<Rightarrow> int" where
  "strncmp a b 0 = 0"
| "strncmp a b (Suc n) =
     (if c_head a \<noteq> c_head b then of_char (c_head a) - of_char (c_head b)
      else if c_head a = NUL then 0
      else strncmp (tl a) (tl b) n)"

text \<open>The comparison is equality of the two strings cut to \<open>n\<close> characters.\<close>

lemma strncmp_eq_0_iff: "strncmp a b n = 0 \<longleftrightarrow> take n (cstr a) = take n (cstr b)"
proof (induction n arbitrary: a b)
  case 0
  then show ?case by simp
next
  case (Suc n)
  have inj: "(of_char x :: int) = of_char y \<longleftrightarrow> x = y" for x y
    by (simp add: of_char_eq_iff)
  have nul: "(of_char x :: int) = 0 \<longleftrightarrow> x = NUL" for x
    using inj [of x NUL] by simp
  show ?case
    using Suc.IH [of "tl a" "tl b"]
    by (cases a; cases b) (auto simp: cstr_def inj nul)
qed

section \<open>Cutting a string at separators\<close>

text \<open>
  \<open>strsep\<close> takes the string still to be cut (a null pointer once it is used up), returns the
  part before the next separator and leaves the part behind it.
\<close>

definition strsep :: "char \<Rightarrow> string option \<Rightarrow> string option \<times> string option" where
  "strsep d r = (case r of None \<Rightarrow> (None, None)
     | Some s \<Rightarrow> (Some (takeWhile (\<lambda>c. c \<noteq> d) s),
         (case dropWhile (\<lambda>c. c \<noteq> d) s of [] \<Rightarrow> None | _ # t \<Rightarrow> Some t)))"

definition rest_size :: "string option \<Rightarrow> nat" where
  "rest_size r = (case r of None \<Rightarrow> 0 | Some s \<Rightarrow> Suc (length s))"

lemma strsep_decreases [intro, simp]:
  "strsep d r = (Some tok, r') \<Longrightarrow> rest_size r' < rest_size r"
proof (cases r)
  case None
  then show "strsep d r = (Some tok, r') \<Longrightarrow> ?thesis" by (simp add: strsep_def)
next
  case (Some s)
  assume "strsep d r = (Some tok, r')"
  with Some show ?thesis
    using length_dropWhile_le [of "\<lambda>c. c \<noteq> d" s]
    by (auto simp: strsep_def rest_size_def split: list.splits)
qed

lemma strsep_None [simp]: "strsep d None = (None, None)"
  by (simp add: strsep_def)

text \<open>The tokens a loop over \<open>strsep\<close> sees, empty ones included.\<close>

function tokens :: "char \<Rightarrow> string option \<Rightarrow> string list" where
  "tokens d r = (case strsep d r of (None, _) \<Rightarrow> [] | (Some tok, r') \<Rightarrow> tok # tokens d r')"
  by pat_completeness auto
termination
  by (relation "measure (\<lambda>(d, r). rest_size r)") (auto dest: strsep_decreases [OF sym])

declare tokens.simps [simp del]

lemma tokens_None [simp]: "tokens d None = []"
  by (simp add: tokens.simps)

lemma tokens_last: "d \<notin> set s \<Longrightarrow> tokens d (Some s) = [s]"
  by (subst tokens.simps) (simp add: strsep_def)

lemma tokens_cons: "d \<notin> set s \<Longrightarrow> tokens d (Some (s @ d # t)) = s # tokens d (Some t)"
  by (subst tokens.simps) (simp add: strsep_def)

lemma set_tokens: "t \<in> set (tokens d r) \<Longrightarrow> r = Some s \<Longrightarrow> set t \<subseteq> set s"
proof (induction d r arbitrary: s rule: tokens.induct)
  case (1 d r)
  let ?rest = "dropWhile (\<lambda>c. c \<noteq> d) s"
  from "1.prems" have cases: "t = takeWhile (\<lambda>c. c \<noteq> d) s \<or> (\<exists>u. ?rest = d # u \<and> t \<in> set (tokens d (Some u)))"
    by (subst (asm) tokens.simps) (auto simp: strsep_def split: list.splits dest: dropWhile_eq_Cons_conv [THEN iffD1])
  show ?case
  proof (cases "t = takeWhile (\<lambda>c. c \<noteq> d) s")
    case True
    then show ?thesis by (auto dest: set_takeWhileD)
  next
    case False
    with cases obtain u where u: "?rest = d # u" "t \<in> set (tokens d (Some u))" by auto
    with "1.IH" "1.prems"(2) have "set t \<subseteq> set u" by (auto simp: strsep_def)
    moreover have "set u \<subseteq> set s" using u(1) set_dropWhileD [of _ "\<lambda>c. c \<noteq> d" s] by auto
    ultimately show ?thesis by auto
  qed
qed

text \<open>Joining with a separator, and cutting what was joined.\<close>

fun join :: "char \<Rightarrow> string list \<Rightarrow> string" where
  "join d [] = []"
| "join d [s] = s"
| "join d (s # t # ss) = s @ d # join d (t # ss)"

lemma tokens_join:
  "ss \<noteq> [] \<Longrightarrow> \<forall>s \<in> set ss. d \<notin> set s \<Longrightarrow> tokens d (Some (join d ss)) = ss"
  by (induction d ss rule: join.induct) (auto simp: tokens_last tokens_cons)

lemma join_append_one: "ss \<noteq> [] \<Longrightarrow> join d (ss @ [s]) = join d ss @ d # s"
  by (induction d ss rule: join.induct) auto

lemma concat_map_sep: "ss \<noteq> [] \<Longrightarrow> concat (map (\<lambda>s. s @ [d]) ss) = join d ss @ [d]"
  by (induction d ss rule: join.induct) auto

text \<open>The pieces a loop prints for a list: all but the last with the separator, then the last.\<close>

definition pieces :: "char \<Rightarrow> string \<Rightarrow> string list \<Rightarrow> string list" where
  "pieces d e ss = map (\<lambda>s. s @ [d]) (butlast ss) @ [last ss @ e]"

lemma concat_pieces: "ss \<noteq> [] \<Longrightarrow> concat (pieces d e ss) = join d ss @ e"
  by (induction d ss rule: join.induct) (auto simp: pieces_def)

lemma set_join: "set (join d ss) \<subseteq> insert d (\<Union> (set ` set ss))"
  by (induction d ss rule: join.induct) auto

section \<open>Decimal numbers\<close>

definition digit :: "nat \<Rightarrow> char" where
  "digit k = char_of (48 + k)"

definition digit_val :: "char \<Rightarrow> nat" where
  "digit_val c = of_char c - 48"

definition is_digit :: "char \<Rightarrow> bool" where
  "is_digit c \<longleftrightarrow> 48 \<le> (of_char c :: nat) \<and> (of_char c :: nat) \<le> 57"

fun show_nat :: "nat \<Rightarrow> string" where
  "show_nat n = (if n < 10 then [digit n] else show_nat (n div 10) @ [digit (n mod 10)])"

declare show_nat.simps [simp del]

definition show_int :: "int \<Rightarrow> string" where
  "show_int i = (if i < 0 then CHR ''-'' # show_nat (nat (- i)) else show_nat (nat i))"

text \<open>\<open>%d\<close> and \<open>%ld\<close> of a signed value, \<open>%llu\<close> of an unsigned one.\<close>

definition fmt_ld :: "u64 \<Rightarrow> string" where
  "fmt_ld w = show_int (sint w)"

definition fmt_llu :: "u64 \<Rightarrow> string" where
  "fmt_llu w = show_nat (unat w)"

definition read_nat :: "string \<Rightarrow> nat" where
  "read_nat s = foldl (\<lambda>a c. 10 * a + digit_val c) 0 s"

lemma digit_val_digit [simp]: "k < 10 \<Longrightarrow> digit_val (digit k) = k"
  by (simp add: digit_val_def digit_def)

lemma is_digit_digit [simp]: "k < 10 \<Longrightarrow> is_digit (digit k)"
  by (simp add: is_digit_def digit_def)

lemma show_nat_digits: "c \<in> set (show_nat n) \<Longrightarrow> is_digit c"
proof (induction n rule: show_nat.induct)
  case (1 n)
  show ?case
  proof (cases "n < 10")
    case True
    with "1.prems" show ?thesis by (simp add: show_nat.simps [of n])
  next
    case False
    with "1.prems" "1.IH" show ?thesis by (auto simp: show_nat.simps [of n])
  qed
qed

lemma show_nat_not_Nil [simp]: "show_nat n \<noteq> []"
  by (subst show_nat.simps) simp

lemma read_show_nat [simp]: "read_nat (show_nat n) = n"
proof (induction n rule: show_nat.induct)
  case (1 n)
  show ?case
  proof (cases "n < 10")
    case True
    then show ?thesis by (simp add: read_nat_def show_nat.simps [of n])
  next
    case False
    with "1.IH" have "read_nat (show_nat (n div 10)) = n div 10" by simp
    with False show ?thesis by (simp add: read_nat_def show_nat.simps [of n])
  qed
qed

lemma show_nat_inj: "show_nat m = show_nat n \<longleftrightarrow> m = n"
  by (metis read_show_nat)

lemma not_digit [simp]:
  "\<not> is_digit NUL" "\<not> is_digit CHR '',''" "\<not> is_digit CHR ''-''" "\<not> is_digit NL"
  "\<not> is_digit CHR '' ''" "\<not> is_digit CHR ''=''"
  by (simp_all add: is_digit_def)

lemma show_nat_notin: "\<not> is_digit c \<Longrightarrow> c \<notin> set (show_nat n)"
  using show_nat_digits by blast

lemma show_int_notin: "\<not> is_digit c \<Longrightarrow> c \<noteq> CHR ''-'' \<Longrightarrow> c \<notin> set (show_int i)"
  by (simp add: show_int_def show_nat_notin)

lemma show_nat_no_comma [simp]: "CHR '','' \<notin> set (show_nat n)"
  using show_nat_digits not_digit by blast

lemma show_nat_nul_free [simp]: "nul_free (show_nat n)"
  using show_nat_digits not_digit unfolding nul_free_def by blast

lemma length_show_nat: "n < 10 ^ Suc k \<Longrightarrow> length (show_nat n) \<le> Suc k"
proof (induction k arbitrary: n)
  case 0
  then show ?case by (simp add: show_nat.simps [of n])
next
  case (Suc k)
  show ?case
  proof (cases "n < 10")
    case True
    then show ?thesis by (simp add: show_nat.simps [of n])
  next
    case False
    have "n div 10 < 10 ^ Suc k" using Suc.prems by (simp add: less_mult_imp_div_less)
    with Suc.IH False show ?thesis by (simp add: show_nat.simps [of n])
  qed
qed

lemma show_int_nul_free [simp]: "nul_free (show_int i)"
  using show_nat_nul_free by (auto simp: show_int_def nul_free_def)

lemma fmt_nul_free [simp]: "nul_free (fmt_ld w)" "nul_free (fmt_llu w)"
  by (simp_all add: fmt_ld_def fmt_llu_def)

lemma length_fmt_ld: "length (fmt_ld w) \<le> 21"
proof -
  have "- (2 ^ 63) \<le> sint w" "sint w < 2 ^ 63"
    using sint_greater_eq [of w] sint_less [of w] by simp_all
  then have "nat (sint w) < 10 ^ Suc 19" "nat (- sint w) < 10 ^ Suc 19" by simp_all
  then show ?thesis
    using length_show_nat [of "nat (sint w)" 19] length_show_nat [of "nat (- sint w)" 19]
    by (auto simp: fmt_ld_def show_int_def)
qed

lemma nul_free_append [simp]: "nul_free (a @ b) \<longleftrightarrow> nul_free a \<and> nul_free b"
  by (auto simp: nul_free_def)

lemma nul_free_Cons [simp]: "nul_free (c # b) \<longleftrightarrow> c \<noteq> NUL \<and> nul_free b"
  by (auto simp: nul_free_def)

lemma nul_free_replicate [simp]: "nul_free (replicate n c) \<longleftrightarrow> n = 0 \<or> c \<noteq> NUL"
  by (auto simp: nul_free_def)

lemma nul_free_Nil [simp]: "nul_free []"
  by (simp add: nul_free_def)

end
