(* ===== verification/TraceSeq.thy ===== *)
theory TraceSeq
  imports CLib "HOL-Library.Sublist"
begin

text \<open>
  The kernel's \<open>struct trace_seq\<close> as the module sees it (a page of bytes, the number used, a
  flag for "something did not fit"), the module's own \<open>trace_seq_puts\<close> and \<open>trace_seq_nl\<close>
  (module/trace_wperf_events.c), and the contract every writer to such a sequence keeps.
  \<open>trace_seq_printf\<close> belongs to the kernel: it is a parameter that the same contract describes.
\<close>

section \<open>The structure and the two operations of the module\<close>

record trace_seq =
  seq_buffer :: string
  seq_len :: u32
  seq_full :: bool

text \<open>\<open>memcpy\<close> into an array at an offset.\<close>

definition mem_write :: "string \<Rightarrow> nat \<Rightarrow> string \<Rightarrow> string res" where
  "mem_write buf off src =
     (if off + length src \<le> length buf then Inr (overwrite buf off src) else Inl OutOfBounds)"

text \<open>
  \<open>len\<close> is an \<open>int\<close>; in the comparison it is converted to \<open>unsigned long\<close>, and so is the
  32-bit \<open>s->len\<close>.
\<close>

definition trace_seq_puts :: "nat \<Rightarrow> trace_seq \<Rightarrow> string \<Rightarrow> (int \<times> trace_seq) res" where
  "trace_seq_puts psize s str =
     (let len = (word_of_nat (strlen str) :: u32) in
      if seq_full s then Inr (0, s)
      else if (scast len :: u64) > (word_of_nat psize - 1) - ucast (seq_len s)
           then Inr (0, s\<lparr>seq_full := True\<rparr>)
      else res_bind (mem_write (seq_buffer s) (unat (seq_len s)) (take (unat len) (cstr str)))
             (\<lambda>b. Inr (sint len, s\<lparr>seq_buffer := b, seq_len := seq_len s + len\<rparr>)))"

text \<open>
  \<open>BUG_ON(s->len - 1 <= 0)\<close> is an unsigned comparison: it stops the kernel when \<open>len\<close> is 1 and
  lets \<open>len = 0\<close> pass, where the index wraps around.
\<close>

definition trace_seq_nl :: "trace_seq \<Rightarrow> trace_seq res" where
  "trace_seq_nl s =
     (if seq_len s - 1 \<le> 0 then Inl BugOn
      else if unat (seq_len s - 1) < length (seq_buffer s)
           then Inr (s\<lparr>seq_buffer := (seq_buffer s)[unat (seq_len s - 1) := NL]\<rparr>)
           else Inl OutOfBounds)"

section \<open>What a sequence holds\<close>

definition seq_text :: "trace_seq \<Rightarrow> string" where
  "seq_text s = take (unat (seq_len s)) (seq_buffer s)"

definition seq_wf :: "nat \<Rightarrow> trace_seq \<Rightarrow> bool" where
  "seq_wf psize s \<longleftrightarrow>
     length (seq_buffer s) = psize \<and> unat (seq_len s) < psize \<and> psize < 2 ^ 31"

definition seq_space :: "nat \<Rightarrow> trace_seq \<Rightarrow> nat" where
  "seq_space psize s = psize - 1 - unat (seq_len s)"

definition seq_stuck :: "nat \<Rightarrow> trace_seq \<Rightarrow> bool" where
  "seq_stuck psize s \<longleftrightarrow> seq_full s \<or> seq_space psize s = 0"

lemma length_seq_text: "seq_wf psize s \<Longrightarrow> length (seq_text s) = unat (seq_len s)"
  by (simp add: seq_wf_def seq_text_def)

lemma seq_space_text: "seq_wf psize s \<Longrightarrow> seq_space psize s = psize - 1 - length (seq_text s)"
  by (simp add: length_seq_text seq_space_def)

section \<open>The contract of a writer\<close>

text \<open>
  A string is appended whole or not at all; what does not fit leaves the sequence stuck, and a
  stuck sequence stays as it is. A string shorter than the space left is always appended.
\<close>

locale seq_writer =
  fixes psize :: nat
    and put :: "trace_seq \<Rightarrow> string \<Rightarrow> trace_seq res"
  assumes put_returns: "seq_wf psize s \<Longrightarrow> nul_free t \<Longrightarrow> length t < 2 ^ 31 \<Longrightarrow>
      \<exists>s'. put s t = Inr s' \<and> seq_wf psize s' \<and>
        (seq_text s' = seq_text s @ t \<or> seq_text s' = seq_text s \<and> seq_stuck psize s')"
    and put_stuck: "seq_wf psize s \<Longrightarrow> nul_free t \<Longrightarrow> length t < 2 ^ 31 \<Longrightarrow> seq_stuck psize s \<Longrightarrow>
      put s t = Inr s' \<Longrightarrow> seq_text s' = seq_text s \<and> seq_stuck psize s'"
    and put_fits: "seq_wf psize s \<Longrightarrow> nul_free t \<Longrightarrow> length t < 2 ^ 31 \<Longrightarrow> \<not> seq_full s \<Longrightarrow>
      length t < seq_space psize s \<Longrightarrow> put s t = Inr s' \<Longrightarrow>
      seq_text s' = seq_text s @ t \<and> \<not> seq_full s'"

text \<open>Writing a list of strings one after the other.\<close>

fun write_all :: "('s \<Rightarrow> string \<Rightarrow> 's res) \<Rightarrow> 's \<Rightarrow> string list \<Rightarrow> 's res" where
  "write_all put s [] = Inr s"
| "write_all put s (t # ts) = res_bind (put s t) (\<lambda>s'. write_all put s' ts)"

lemma write_all_append:
  "write_all put s (ts @ us) = res_bind (write_all put s ts) (\<lambda>s'. write_all put s' us)"
  by (induction ts arbitrary: s) (auto simp: res_bind_assoc)

text \<open>A loop that formats one item after the other and writes it.\<close>

fun print_each :: "('s \<Rightarrow> string \<Rightarrow> 's res) \<Rightarrow> ('i \<Rightarrow> string res) \<Rightarrow> 'i list \<Rightarrow> 's \<Rightarrow> 's res" where
  "print_each put f [] q = Inr q"
| "print_each put f (i # is) q =
     res_bind (f i) (\<lambda>t. res_bind (put q t) (\<lambda>q'. print_each put f is q'))"

lemma print_each_write_all:
  "\<forall>i \<in> set is. f i = Inr (g i) \<Longrightarrow> print_each put f is q = write_all put q (map g is)"
  by (induction "is" arbitrary: q) (auto simp: res_bind_def split: sum.splits)

definition small_strings :: "string list \<Rightarrow> bool" where
  "small_strings ts \<longleftrightarrow> (\<forall>t \<in> set ts. nul_free t \<and> length t < 2 ^ 31)"

lemma small_strings_simps [simp]:
  "small_strings []"
  "small_strings (t # ts) \<longleftrightarrow> nul_free t \<and> length t < 2 ^ 31 \<and> small_strings ts"
  by (auto simp: small_strings_def)

context seq_writer begin

lemma write_all_stuck:
  "seq_wf psize s \<Longrightarrow> small_strings ts \<Longrightarrow> seq_stuck psize s \<Longrightarrow>
   \<exists>s'. write_all put s ts = Inr s' \<and> seq_wf psize s' \<and> seq_text s' = seq_text s"
proof (induction ts arbitrary: s)
  case Nil
  then show ?case by simp
next
  case (Cons t ts)
  from Cons.prems obtain s' where s': "put s t = Inr s'" "seq_wf psize s'"
    using put_returns [of s t] by auto
  with Cons.prems have "seq_text s' = seq_text s \<and> seq_stuck psize s'"
    using put_stuck [of s t s'] by auto
  with s' Cons show ?case by fastforce
qed

text \<open>Whatever is written, the text is extended by the first few of the strings.\<close>

lemma write_all_prefix:
  "seq_wf psize s \<Longrightarrow> small_strings ts \<Longrightarrow>
   \<exists>s' us. write_all put s ts = Inr s' \<and> seq_wf psize s' \<and> prefix us ts \<and>
     seq_text s' = seq_text s @ concat us"
proof (induction ts arbitrary: s)
  case Nil
  then show ?case by auto
next
  case (Cons t ts)
  from Cons.prems obtain s' where s': "put s t = Inr s'" "seq_wf psize s'"
    and *: "seq_text s' = seq_text s @ t \<or> seq_text s' = seq_text s \<and> seq_stuck psize s'"
    using put_returns [of s t] by auto
  from * show ?case
  proof
    assume t: "seq_text s' = seq_text s @ t"
    from Cons.IH [OF s'(2)] Cons.prems obtain s'' us where
      "write_all put s' ts = Inr s''" "seq_wf psize s''" "prefix us ts"
      "seq_text s'' = seq_text s' @ concat us" by auto
    with s' t show ?thesis
      by (intro exI [of _ s''] exI [of _ "t # us"]) auto
  next
    assume "seq_text s' = seq_text s \<and> seq_stuck psize s'"
    with write_all_stuck [OF s'(2)] Cons.prems obtain s'' where
      "write_all put s' ts = Inr s''" "seq_wf psize s''" "seq_text s'' = seq_text s" by auto
    with s' show ?thesis by (intro exI [of _ s''] exI [of _ "[]"]) auto
  qed
qed

text \<open>When everything fits, everything is written.\<close>

lemma write_all_fits:
  "seq_wf psize s \<Longrightarrow> small_strings ts \<Longrightarrow> \<not> seq_full s \<Longrightarrow>
   length (concat ts) < seq_space psize s \<Longrightarrow>
   \<exists>s'. write_all put s ts = Inr s' \<and> seq_wf psize s' \<and> \<not> seq_full s' \<and>
     seq_text s' = seq_text s @ concat ts"
proof (induction ts arbitrary: s)
  case Nil
  then show ?case by simp
next
  case (Cons t ts)
  from Cons.prems obtain s' where s': "put s t = Inr s'" "seq_wf psize s'"
    using put_returns [of s t] by auto
  with Cons.prems have t: "seq_text s' = seq_text s @ t" "\<not> seq_full s'"
    using put_fits [of s t s'] by auto
  with Cons.prems s'(2) have "length (concat ts) < seq_space psize s'"
    by (simp add: seq_space_text)
  with Cons.IH [OF s'(2)] Cons.prems t s' show ?case by auto
qed

text \<open>
  Whatever is written, whole strings from the front of the list are kept; all of them when they
  fit, and the first one when it does.
\<close>

lemma write_all_any:
  assumes "seq_wf psize s" and "small_strings ts"
  shows "\<exists>s' us. write_all put s ts = Inr s' \<and> seq_wf psize s' \<and> prefix us ts \<and>
    seq_text s' = seq_text s @ concat us \<and>
    (\<not> seq_full s \<and> length (concat ts) < seq_space psize s \<longrightarrow> us = ts) \<and>
    (\<not> seq_full s \<and> ts \<noteq> [] \<and> length (hd ts) < seq_space psize s \<longrightarrow> us \<noteq> [])"
proof (cases "\<not> seq_full s \<and> length (concat ts) < seq_space psize s")
  case True
  with write_all_fits [OF assms] show ?thesis by blast
next
  case nofit: False
  show ?thesis
  proof (cases "\<not> seq_full s \<and> ts \<noteq> [] \<and> length (hd ts) < seq_space psize s")
    case True
    then obtain t ts' where ts: "ts = t # ts'" by (cases ts) auto
    with True assms obtain s1 where s1: "put s t = Inr s1" "seq_wf psize s1" "seq_text s1 = seq_text s @ t"
      using put_returns [of s t] put_fits [of s t] by auto
    from write_all_prefix [OF s1(2), of ts'] assms(2) ts obtain s' us where
      "write_all put s1 ts' = Inr s'" "seq_wf psize s'" "prefix us ts'"
      "seq_text s' = seq_text s1 @ concat us" by auto
    with s1 ts nofit show ?thesis by (intro exI [of _ s'] exI [of _ "t # us"]) auto
  next
    case False
    with nofit write_all_prefix [OF assms] show ?thesis by blast
  qed
qed

end

section \<open>The module's writer keeps the contract\<close>

lemma scast_small:
  assumes "n < 2 ^ 31"
  shows "scast (word_of_nat n :: u32) = (word_of_nat n :: u64)"
proof -
  have "sint (word_of_nat n :: u32) = int n"
    using assms by (simp add: signed_of_nat signed_take_bit_int_eq_self)
  then show ?thesis by (simp add: scast_eq)
qed

lemma puts_compare:
  assumes "unat (l :: u32) < psize" and "psize < 2 ^ 31" and "n < 2 ^ 31"
  shows "(word_of_nat n :: u64) > (word_of_nat psize - 1) - ucast l \<longleftrightarrow> psize - 1 - unat l < n"
proof -
  have "(word_of_nat (psize - 1 - unat l) :: u64) = word_of_nat psize - 1 - word_of_nat (unat l)"
    using assms by (simp add: of_nat_diff)
  then have eq: "(word_of_nat psize - 1) - ucast l = (word_of_nat (psize - 1 - unat l) :: u64)"
    by simp
  have "unat ((word_of_nat psize - 1) - ucast l :: u64) = psize - 1 - unat l"
    unfolding eq by (rule unat_word_of_nat_small) (use assms in simp)
  with assms show ?thesis
    by (simp add: word_less_nat_alt unat_word_of_nat_small)
qed

text \<open>What the three branches of \<open>trace_seq_puts\<close> leave behind.\<close>

lemma trace_seq_puts_full: "seq_full s \<Longrightarrow> trace_seq_puts psize s t = Inr (0, s)"
  by (simp add: trace_seq_puts_def)

lemma trace_seq_puts_long:
  assumes "seq_wf psize s" and "nul_free t" and "length t < 2 ^ 31"
    and "\<not> seq_full s" and "seq_space psize s < length t"
  shows "trace_seq_puts psize s t = Inr (0, s\<lparr>seq_full := True\<rparr>)"
  using assms
  by (simp add: trace_seq_puts_def seq_wf_def seq_space_def scast_small puts_compare)

lemma trace_seq_puts_short:
  assumes "seq_wf psize s" and "nul_free t" and "length t < 2 ^ 31"
    and "\<not> seq_full s" and "length t \<le> seq_space psize s"
  shows "trace_seq_puts psize s t =
    Inr (int (length t), s\<lparr>seq_buffer := overwrite (seq_buffer s) (unat (seq_len s)) t,
                         seq_len := seq_len s + word_of_nat (length t)\<rparr>)"
proof -
  have "sint (word_of_nat (length t) :: u32) = int (length t)"
    using assms(3) by (simp add: signed_of_nat signed_take_bit_int_eq_self)
  with assms show ?thesis
    by (auto simp: trace_seq_puts_def seq_wf_def seq_space_def scast_small puts_compare
        mem_write_def unat_word_of_nat_small Let_def)
qed

lemma seq_append:
  assumes "seq_wf psize s" and "length t \<le> seq_space psize s"
  defines "s' \<equiv> s\<lparr>seq_buffer := overwrite (seq_buffer s) (unat (seq_len s)) t,
                  seq_len := seq_len s + word_of_nat (length t)\<rparr>"
  shows "seq_wf psize s'" and "seq_text s' = seq_text s @ t"
proof -
  have len: "unat (seq_len s + word_of_nat (length t)) = unat (seq_len s) + length t"
    using assms(1,2)
    by (subst unat_add_small) (auto simp: seq_wf_def seq_space_def unat_word_of_nat_small)
  show "seq_wf psize s'" "seq_text s' = seq_text s @ t"
    using assms(1,2) len
    by (auto simp: s'_def seq_wf_def seq_space_def seq_text_def take_overwrite)
qed

definition puts_seq :: "nat \<Rightarrow> trace_seq \<Rightarrow> string \<Rightarrow> trace_seq res" where
  "puts_seq psize s t = res_bind (trace_seq_puts psize s t) (\<lambda>(r, s'). Inr s')"

lemma puts_seq_cases:
  assumes "seq_wf psize s" and "nul_free t" and "length t < 2 ^ 31"
  obtains (stuck) "seq_full s" "puts_seq psize s t = Inr s"
  | (long) "\<not> seq_full s" "seq_space psize s < length t"
      "puts_seq psize s t = Inr (s\<lparr>seq_full := True\<rparr>)"
  | (short) s' where "\<not> seq_full s" "length t \<le> seq_space psize s"
      "puts_seq psize s t = Inr s'" "seq_wf psize s'" "seq_text s' = seq_text s @ t"
      "\<not> seq_full s'"
proof (cases "seq_full s")
  case True
  then show ?thesis using stuck by (simp add: puts_seq_def trace_seq_puts_full)
next
  case False
  show ?thesis
  proof (cases "length t \<le> seq_space psize s")
    case True
    from False True assms have
      "puts_seq psize s t = Inr (s\<lparr>seq_buffer := overwrite (seq_buffer s) (unat (seq_len s)) t,
         seq_len := seq_len s + word_of_nat (length t)\<rparr>)"
      by (simp add: puts_seq_def trace_seq_puts_short)
    from short [OF False True this] seq_append [OF assms(1) True] False show ?thesis by simp
  next
    case l: False
    with False assms show ?thesis
      by (intro long) (auto simp: puts_seq_def trace_seq_puts_long)
  qed
qed

lemma seq_full_update [simp]:
  "seq_wf psize (s\<lparr>seq_full := b\<rparr>) = seq_wf psize s"
  "seq_text (s\<lparr>seq_full := b\<rparr>) = seq_text s"
  "seq_space psize (s\<lparr>seq_full := b\<rparr>) = seq_space psize s"
  by (simp_all add: seq_wf_def seq_text_def seq_space_def)

interpretation puts: seq_writer psize "puts_seq psize" for psize
proof
  fix s t
  assume a: "seq_wf psize s" "nul_free t" "length t < 2 ^ 31"
  show "\<exists>s'. puts_seq psize s t = Inr s' \<and> seq_wf psize s' \<and>
      (seq_text s' = seq_text s @ t \<or> seq_text s' = seq_text s \<and> seq_stuck psize s')"
    using a by (rule puts_seq_cases) (auto simp: seq_stuck_def a)
next
  fix s t s'
  assume a: "seq_wf psize s" "nul_free t" "length t < 2 ^ 31"
    and st: "seq_stuck psize s" and r: "puts_seq psize s t = Inr s'"
  show "seq_text s' = seq_text s \<and> seq_stuck psize s'"
    using a by (rule puts_seq_cases) (use a st r in \<open>auto simp: seq_stuck_def seq_space_text\<close>)
next
  fix s t s'
  assume a: "seq_wf psize s" "nul_free t" "length t < 2 ^ 31"
    and f: "\<not> seq_full s" "length t < seq_space psize s" and r: "puts_seq psize s t = Inr s'"
  show "seq_text s' = seq_text s @ t \<and> \<not> seq_full s'"
    using a by (rule puts_seq_cases) (use f r in auto)
qed

section \<open>Ending the last line\<close>

text \<open>
  \<open>trace_seq_nl\<close> replaces the last byte; with two or more bytes written it neither stops the
  kernel nor leaves the buffer.
\<close>

lemma trace_seq_nl_text:
  assumes "seq_wf psize s" and "2 \<le> length (seq_text s)"
  shows "\<exists>s'. trace_seq_nl s = Inr s' \<and> seq_wf psize s' \<and>
    seq_text s' = butlast (seq_text s) @ [NL]"
proof -
  have l: "2 \<le> unat (seq_len s)"
    using assms by (simp add: length_seq_text)
  then have u: "unat (seq_len s - 1) = unat (seq_len s) - 1"
    by (intro unat_minus_one) auto
  with l have "\<not> seq_len s - 1 \<le> 0"
    by (simp add: word_le_nat_alt)
  moreover have "(seq_text s)[unat (seq_len s) - 1 := NL] = butlast (seq_text s) @ [NL]"
    using butlast_list_update_last [of "seq_text s" NL] length_seq_text [OF assms(1)] assms(2)
    by fastforce
  ultimately show ?thesis
    using assms(1) l u by (auto simp: trace_seq_nl_def seq_wf_def seq_text_def take_update_swap)
qed

end
