(* ===== verification/Kernel.thy ===== *)
theory Kernel
  imports TraceSeq
begin

text \<open>
  The ground the kernel module stands on: its constants and enumerations, the probes it places,
  the kernel functions it calls as parameters (\<open>kapi\<close>), the execution context a probe handler
  runs in, the module's static data as one record, and the switching of probes, with the
  interface of that switching as a locale.
\<close>

section \<open>Enumerations of module/trace_wperf_events.c\<close>

definition WAIT :: int where "WAIT = 0"

definition WAKEUP :: int where "WAKEUP = WAIT + 1"

definition CREATE :: int where "CREATE = WAKEUP + 1"

definition EXIT :: int where "EXIT = CREATE + 1"

lemmas event_type_defs = WAIT_def WAKEUP_def CREATE_def EXIT_def

text \<open>
  The softirqs the module probes; \<open>HRTIMER_SOFTIRQ\<close> (8) is unused. Their numbers are those of
  the comments above each declaration, and of the analyzer's copy of the enumeration.
\<close>

datatype softirq = Hi | Timer | Net_tx | Net_rx | Block | Irq_poll | Tasklet | Sched | Rcu

fun softirq_nr :: "softirq \<Rightarrow> int" where
  "softirq_nr Hi = 0"
| "softirq_nr Timer = 1"
| "softirq_nr Net_tx = 2"
| "softirq_nr Net_rx = 3"
| "softirq_nr Block = 4"
| "softirq_nr Irq_poll = 5"
| "softirq_nr Tasklet = 6"
| "softirq_nr Sched = 7"
| "softirq_nr Rcu = 9"

definition NR_SOFTIRQS :: int where "NR_SOFTIRQS = 10"

definition HARDIRQ :: int where "HARDIRQ = NR_SOFTIRQS + 1"

definition PROCESS :: int where "PROCESS = HARDIRQ + 1"

lemmas ctx_defs = NR_SOFTIRQS_def HARDIRQ_def PROCESS_def

lemma softirq_nr_inj: "softirq_nr a = softirq_nr b \<longleftrightarrow> a = b"
  by (cases a; cases b) simp_all

lemma softirq_nr_bounds: "0 \<le> softirq_nr q" "softirq_nr q < NR_SOFTIRQS"
  by (cases q; simp add: NR_SOFTIRQS_def)+

text \<open>Softirqs are ordered by their numbers, the order in which the kernel serves them.\<close>

instantiation softirq :: linorder
begin

definition less_eq_softirq :: "softirq \<Rightarrow> softirq \<Rightarrow> bool" where
  "less_eq_softirq a b \<longleftrightarrow> softirq_nr a \<le> softirq_nr b"

definition less_softirq :: "softirq \<Rightarrow> softirq \<Rightarrow> bool" where
  "less_softirq a b \<longleftrightarrow> softirq_nr a < softirq_nr b"

instance
  by standard (auto simp: less_eq_softirq_def less_softirq_def simp flip: softirq_nr_inj)

end

definition MAX_DISK_NUM :: nat where "MAX_DISK_NUM = 20"

definition MAX_DNAME_SIZE :: nat where "MAX_DNAME_SIZE = 20"

text \<open>Error numbers of C, negated where an operation returns them.\<close>

definition EPERM :: int where "EPERM = 1"

definition ENOMEM :: int where "ENOMEM = 12"

definition EFAULT :: int where "EFAULT = 14"

definition ENODEV :: int where "ENODEV = 19"

definition EINVAL :: int where "EINVAL = 22"

lemmas errno_defs = EPERM_def ENOMEM_def EFAULT_def ENODEV_def EINVAL_def

section \<open>Probes\<close>

datatype jprobe = Switch_to_jp | Try_to_wake_up_jp | Part_round_stats_jp
  | Futex_wait_queue_me_jp | Do_futex_jp | Journal_end_buffer_io_sync_jp
  | Wake_up_new_task_jp | Do_exit_jp | Tcp_sendmsg_jp | Udp_sendmsg_jp | Tcp_sendpage_jp
  | Udp_sendpage_jp | Sock_sendmsg_jp | Lock_sock_jp

datatype kretprobe = Softirq_krp softirq | Do_softirq_krp

definition wperf_jps :: "jprobe list" where
  "wperf_jps = [Switch_to_jp, Try_to_wake_up_jp, Part_round_stats_jp, Futex_wait_queue_me_jp,
     Do_futex_jp, Journal_end_buffer_io_sync_jp, Wake_up_new_task_jp, Do_exit_jp,
     Tcp_sendmsg_jp, Udp_sendmsg_jp, Tcp_sendpage_jp, Udp_sendpage_jp, Sock_sendmsg_jp,
     Lock_sock_jp]"

definition wperf_krps :: "kretprobe list" where
  "wperf_krps = map Softirq_krp [Hi, Timer, Net_tx, Net_rx, Block, Irq_poll, Tasklet, Sched, Rcu]
     @ [Do_softirq_krp]"

lemma wperf_jps_complete: "set wperf_jps = UNIV"
proof -
  have "j \<in> set wperf_jps" for j by (cases j) (simp_all add: wperf_jps_def)
  then show ?thesis by auto
qed

lemma wperf_krps_complete: "set wperf_krps = UNIV"
proof -
  have "q \<in> set [Hi, Timer, Net_tx, Net_rx, Block, Irq_poll, Tasklet, Sched, Rcu]" for q
    by (cases q) simp_all
  then have "k \<in> set wperf_krps" for k
    by (cases k) (auto simp: wperf_krps_def image_iff)
  then show ?thesis by auto
qed

text \<open>What the module asks of the kernel's probe subsystem, as a log with the newest call first.\<close>

datatype probe_call = Register_jprobes | Unregister_jprobes
  | Register_kretprobes | Unregister_kretprobes
  | Enable_jprobe jprobe | Disable_jprobe jprobe

text \<open>
  The documented effect of these calls: a registered probe is armed until it is disabled, and a
  disabled one stays registered and can be enabled again.
\<close>

fun jps_registered :: "probe_call list \<Rightarrow> bool" where
  "jps_registered [] = False"
| "jps_registered (Register_jprobes # l) = True"
| "jps_registered (Unregister_jprobes # l) = False"
| "jps_registered (_ # l) = jps_registered l"

fun krps_registered :: "probe_call list \<Rightarrow> bool" where
  "krps_registered [] = False"
| "krps_registered (Register_kretprobes # l) = True"
| "krps_registered (Unregister_kretprobes # l) = False"
| "krps_registered (_ # l) = krps_registered l"

fun armed_in :: "probe_call list \<Rightarrow> jprobe \<Rightarrow> bool" where
  "armed_in [] j = False"
| "armed_in (Register_jprobes # l) j = True"
| "armed_in (Unregister_jprobes # l) j = False"
| "armed_in (Enable_jprobe k # l) j = (if j = k then jps_registered l else armed_in l j)"
| "armed_in (Disable_jprobe k # l) j = (j \<noteq> k \<and> armed_in l j)"
| "armed_in (_ # l) j = armed_in l j"

lemma armed_in_registered: "armed_in l j \<Longrightarrow> jps_registered l"
  by (induction l j rule: armed_in.induct) (auto split: if_splits)

section \<open>The execution context of a handler\<close>

record task =
  t_comm :: string
  t_pid :: int
  t_state :: u64

text \<open>The record that four of the tracepoints write into a slot of the ring buffer.\<close>

record sched_entry =
  e_type :: int
  e_tsc :: u64
  e_prev_comm :: string
  e_next_comm :: string
  e_prev_pid :: int
  e_next_pid :: int
  e_prev_state :: u64
  e_next_state :: u64
  e_ctx :: int

text \<open>
  What a handler reads from the machine: \<open>current\<close>, the answers of \<open>in_irq\<close> and
  \<open>in_serving_softirq\<close>, the CPU it runs on, \<open>rdtsc_ordered\<close>, what the reserved slot of the
  ring buffer held before, and the bytes that follow the string literal of \<open>do_exit\<close>.
\<close>

record kctx =
  cur :: task
  in_irq :: bool
  serving_softirq :: bool
  cpu_id :: nat
  rdtsc :: u64
  stale :: sched_entry
  rodata_tail :: string

datatype trace_rec =
    Switch_to sched_entry
  | Try_to_wake_up sched_entry
  | Wake_up_new_task sched_entry
  | Do_exit sched_entry
  | Do_softirq_ret string u64 u64
  | Futex_wait_queue_me int u64
  | Do_futex int u64
  | Journal_end_buffer_io_sync bool
  | Lock_sock int u64

section \<open>The module's static data\<close>

record wperf_data =
  softirqs_nr :: int
  softirq_btime :: u64

datatype ev_dir = Disk_utils | Tx_stat

datatype ev_name = Enable | Filter | Output

text \<open>
  \<open>probes\<close> logs the calls to the probe subsystem, \<open>kbufs\<close> counts the \<open>kstrdup\<close> copies not
  yet freed, \<open>ring\<close> the records given to the tracepoints on each CPU, \<open>files\<close> the debugfs files made,
  \<open>ev_pos\<close> how far \<open>event->ev_file\<close> has been advanced; dentries are numbers.
\<close>

record wperf =
  dnames :: "string list"
  dutils :: "u64 list"
  didx :: nat
  denabled :: bool
  cpu_data :: "nat \<Rightarrow> wperf_data"
  pid_filter :: "bool list"
  tx_stats :: "u64 list"
  tx_enabled :: bool
  probes :: "probe_call list"
  kbufs :: nat
  ring :: "nat \<Rightarrow> trace_rec list"
  files :: "(ev_dir \<times> ev_name) list"
  ev_pos :: "ev_dir \<Rightarrow> nat"
  wperf_root :: "nat option"

section \<open>The kernel's functions as parameters\<close>

text \<open>
  \<open>kstrtoul\<close> and \<open>kstrtoul_from_user\<close> (base 10) give an error number or the value;
  \<open>bitmap_start\<close> is the conversion of an \<open>unsigned long\<close> to the type of \<open>bitmap_set\<close>'s
  second parameter; \<open>simple_read_from_buffer\<close> takes the count, the file position and the
  bytes, and gives its result, what reached the user and the new position.
\<close>

record kapi =
  page_size :: nat
  pid_max_limit :: nat
  task_comm_len :: nat
  trace_seq_init :: "trace_seq \<Rightarrow> trace_seq"
  trace_seq_printf :: "trace_seq \<Rightarrow> string \<Rightarrow> trace_seq res"
  strstrip :: "string \<Rightarrow> string"
  kstrtoul :: "string \<Rightarrow> int + u64"
  kstrtoul_from_user :: "string \<Rightarrow> int + u64"
  bitmap_start :: "u64 \<Rightarrow> nat"
  time_after :: "u64 \<Rightarrow> u64 \<Rightarrow> bool"
  simple_read_from_buffer :: "nat \<Rightarrow> int \<Rightarrow> string \<Rightarrow> int \<times> string \<times> int"

text \<open>The documented behaviour the properties rely on, one predicate per function.\<close>

definition seq_init_ok :: "kapi \<Rightarrow> bool" where
  "seq_init_ok K \<longleftrightarrow> (\<forall>s. length (seq_buffer s) = page_size K \<longrightarrow>
     seq_wf (page_size K) (trace_seq_init K s) \<and> seq_text (trace_seq_init K s) = [] \<and>
     \<not> seq_full (trace_seq_init K s))"

definition printf_ok :: "kapi \<Rightarrow> bool" where
  "printf_ok K \<longleftrightarrow> seq_writer (page_size K) (trace_seq_printf K)"

text \<open>\<open>strstrip\<close> cuts white space off both ends and nothing else.\<close>

definition is_space :: "char \<Rightarrow> bool" where
  "is_space c \<longleftrightarrow> c \<in> set [CHR '' '', CHR 0x09, CHR 0x0A, CHR 0x0B, CHR 0x0C, CHR 0x0D]"

definition strip_ok :: "kapi \<Rightarrow> bool" where
  "strip_ok K \<longleftrightarrow> (\<forall>s. strstrip K s =
     rev (dropWhile is_space (rev (dropWhile is_space s))))"

text \<open>A decimal number that fits is read as its value, one that is not a number is refused.\<close>

definition strtoul_ok :: "kapi \<Rightarrow> bool" where
  "strtoul_ok K \<longleftrightarrow>
     (\<forall>n < 2 ^ 64. kstrtoul K (show_nat n) = Inr (word_of_nat n)) \<and>
     (\<forall>t e. kstrtoul K t = Inl e \<longrightarrow> e < 0)"

definition bitmap_start_ok :: "kapi \<Rightarrow> bool" where
  "bitmap_start_ok K \<longleftrightarrow> (\<forall>w. unat w < 2 ^ 31 \<longrightarrow> bitmap_start K w = unat w)"

definition time_after_ok :: "kapi \<Rightarrow> bool" where
  "time_after_ok K \<longleftrightarrow> (\<forall>a b. time_after K a b \<longleftrightarrow> sint (b - a) < 0)"

definition simple_read_ok :: "kapi \<Rightarrow> bool" where
  "simple_read_ok K \<longleftrightarrow> (\<forall>cnt pos buf. 0 \<le> pos \<longrightarrow>
     simple_read_from_buffer K cnt pos buf =
       (let out = take cnt (drop (nat pos) buf)
        in (int (length out), out, pos + int (length out))))"

section \<open>The data when the module is loaded\<close>

text \<open>Static data without an initialiser is zero; nothing is registered yet.\<close>

definition static_data :: "kapi \<Rightarrow> wperf" where
  "static_data K =
     \<lparr>dnames = replicate MAX_DISK_NUM (replicate MAX_DNAME_SIZE NUL),
      dutils = replicate MAX_DISK_NUM 0,
      didx = 0,
      denabled = False,
      cpu_data = (\<lambda>_. \<lparr>softirqs_nr = 0, softirq_btime = 0\<rparr>),
      pid_filter = replicate (pid_max_limit K) False,
      tx_stats = replicate (pid_max_limit K) 0,
      tx_enabled = False,
      probes = [],
      kbufs = 0,
      ring = (\<lambda>_. []),
      files = [],
      ev_pos = (\<lambda>_. 0),
      wperf_root = None\<rparr>"

section \<open>Switching probes\<close>

locale probe_switch =
  fixes enable disable :: "'p \<Rightarrow> 's \<Rightarrow> 's"
    and on :: "'s \<Rightarrow> 'p \<Rightarrow> bool"
    and present :: "'s \<Rightarrow> bool"
  assumes on_enable: "on (enable p s) q \<longleftrightarrow> (if q = p then present s else on s q)"
    and on_disable: "on (disable p s) q \<longleftrightarrow> q \<noteq> p \<and> on s q"
    and present_enable: "present (enable p s) = present s"
    and present_disable: "present (disable p s) = present s"
begin

lemma present_folds:
  "present (fold enable ps s) = present s"
  "present (fold disable ps s) = present s"
  by (induction ps arbitrary: s) (simp_all add: present_enable present_disable)

lemma on_fold_enable:
  "present s \<Longrightarrow> on (fold enable ps s) q \<longleftrightarrow> q \<in> set ps \<or> on s q"
  by (induction ps arbitrary: s) (auto simp: on_enable present_enable)

lemma on_fold_disable: "on (fold disable ps s) q \<longleftrightarrow> q \<notin> set ps \<and> on s q"
  by (induction ps arbitrary: s) (auto simp: on_disable)

end

definition enable_jprobe :: "jprobe \<Rightarrow> wperf \<Rightarrow> wperf" where
  "enable_jprobe j s = s\<lparr>probes := Enable_jprobe j # probes s\<rparr>"

definition disable_jprobe :: "jprobe \<Rightarrow> wperf \<Rightarrow> wperf" where
  "disable_jprobe j s = s\<lparr>probes := Disable_jprobe j # probes s\<rparr>"

definition armed :: "wperf \<Rightarrow> jprobe \<Rightarrow> bool" where
  "armed s j = armed_in (probes s) j"

definition registered :: "wperf \<Rightarrow> bool" where
  "registered s = jps_registered (probes s)"

interpretation jp: probe_switch enable_jprobe disable_jprobe armed registered
  by unfold_locales
    (auto simp: armed_def registered_def enable_jprobe_def disable_jprobe_def)

text \<open>Switching a probe changes the log and nothing else.\<close>

lemma switch_frame [simp]:
  "(enable_jprobe j s)\<lparr>probes := p\<rparr> = s\<lparr>probes := p\<rparr>"
  "(disable_jprobe j s)\<lparr>probes := p\<rparr> = s\<lparr>probes := p\<rparr>"
  by (simp_all add: enable_jprobe_def disable_jprobe_def)

end
