(* ===== verification/KernelRef.thy ===== *)
theory KernelRef
  imports Kernel
begin

text \<open>
  One executable choice of the kernel parameters, and a sample context. The properties hold for
  every choice that satisfies their hypotheses; this one shows that the hypotheses hold together,
  and is the input of the witnesses.
\<close>

definition ref_strip :: "string \<Rightarrow> string" where
  "ref_strip s = rev (dropWhile is_space (rev (dropWhile is_space s)))"

definition ref_strtoul :: "string \<Rightarrow> int + u64" where
  "ref_strtoul t =
     (if t \<noteq> [] \<and> list_all is_digit t \<and> read_nat t < 2 ^ 64 then Inr (word_of_nat (read_nat t))
      else Inl (- EINVAL))"

definition ref_read :: "nat \<Rightarrow> int \<Rightarrow> string \<Rightarrow> int \<times> string \<times> int" where
  "ref_read cnt pos buf =
     (let out = take cnt (drop (nat pos) buf) in (int (length out), out, pos + int (length out)))"

definition ref_kapi :: "nat \<Rightarrow> nat \<Rightarrow> kapi" where
  "ref_kapi psize plimit =
     \<lparr>page_size = psize,
      pid_max_limit = plimit,
      task_comm_len = 16,
      trace_seq_init = (\<lambda>s. s\<lparr>seq_len := 0, seq_full := False\<rparr>),
      trace_seq_printf = puts_seq psize,
      strstrip = ref_strip,
      kstrtoul = ref_strtoul,
      kstrtoul_from_user = ref_strtoul,
      bitmap_start = unat,
      time_after = (\<lambda>a b. sint (b - a) < 0),
      simple_read_from_buffer = ref_read\<rparr>"

lemma ref_kapi_sel [simp]:
  "page_size (ref_kapi p l) = p" "pid_max_limit (ref_kapi p l) = l"
  "task_comm_len (ref_kapi p l) = 16"
  "trace_seq_init (ref_kapi p l) = (\<lambda>s. s\<lparr>seq_len := 0, seq_full := False\<rparr>)"
  "trace_seq_printf (ref_kapi p l) = puts_seq p"
  "strstrip (ref_kapi p l) = ref_strip" "kstrtoul (ref_kapi p l) = ref_strtoul"
  "kstrtoul_from_user (ref_kapi p l) = ref_strtoul" "bitmap_start (ref_kapi p l) = unat"
  "time_after (ref_kapi p l) = (\<lambda>a b. sint (b - a) < 0)"
  "simple_read_from_buffer (ref_kapi p l) = ref_read"
  by (simp_all add: ref_kapi_def)

lemma ref_printf_ok: "printf_ok (ref_kapi p l)"
  using puts.seq_writer_axioms by (simp add: printf_ok_def)

lemma ref_init_ok: "0 < p \<Longrightarrow> p < 2 ^ 31 \<Longrightarrow> seq_init_ok (ref_kapi p l)"
  by (simp add: seq_init_ok_def seq_wf_def seq_text_def)

lemma ref_strip_ok: "strip_ok (ref_kapi p l)"
  by (simp add: strip_ok_def ref_strip_def)

lemma ref_strtoul_ok: "strtoul_ok (ref_kapi p l)"
  by (auto simp: strtoul_ok_def ref_strtoul_def list_all_iff EINVAL_def
      dest: show_nat_digits)

lemma ref_bitmap_start_ok: "bitmap_start_ok (ref_kapi p l)"
  by (simp add: bitmap_start_ok_def)

lemma ref_time_after_ok: "time_after_ok (ref_kapi p l)"
  by (simp add: time_after_ok_def)

lemma ref_simple_read_ok: "simple_read_ok (ref_kapi p l)"
  by (simp add: simple_read_ok_def ref_read_def)

lemmas ref_kapi_ok = ref_printf_ok ref_init_ok ref_strip_ok ref_strtoul_ok ref_bitmap_start_ok
  ref_time_after_ok ref_simple_read_ok

section \<open>A sample context\<close>

definition ref_task :: "string \<Rightarrow> int \<Rightarrow> u64 \<Rightarrow> task" where
  "ref_task name i st =
     \<lparr>t_comm = name @ replicate (16 - length name) NUL, t_pid = i, t_state = st\<rparr>"

definition ref_slot :: sched_entry where
  "ref_slot = \<lparr>e_type = 0, e_tsc = 77, e_prev_comm = [], e_next_comm = [], e_prev_pid = 0,
     e_next_pid = 0, e_prev_state = 0, e_next_state = 0, e_ctx = 0\<rparr>"

text \<open>A context on a CPU at a time, with a given pid as \<open>current\<close>.\<close>

definition ref_ctx :: "nat \<Rightarrow> int \<Rightarrow> u64 \<Rightarrow> kctx" where
  "ref_ctx n i t = \<lparr>cur = ref_task ''worker'' i 0, in_irq = False, serving_softirq = True,
     cpu_id = n, rdtsc = t, stale = ref_slot, rodata_tail = ''type=%d''\<rparr>"

lemma ref_ctx_sel [simp]:
  "cur (ref_ctx n i t) = ref_task ''worker'' i 0" "\<not> in_irq (ref_ctx n i t)"
  "serving_softirq (ref_ctx n i t)" "cpu_id (ref_ctx n i t) = n" "rdtsc (ref_ctx n i t) = t"
  "stale (ref_ctx n i t) = ref_slot"
  by (simp_all add: ref_ctx_def)

lemma ref_task_sel [simp]: "t_pid (ref_task nm i st) = i" "t_state (ref_task nm i st) = st"
  by (simp_all add: ref_task_def)

end
