(* ===== verification/DiskUtils.thy ===== *)
theory DiskUtils
  imports KernelRef
begin

text \<open>
  The disk utilisation counters of module/trace_wperf_events.c: a table of at most twenty device
  names with a counter each, the probe on \<open>part_round_stats\<close> that feeds them, and the three
  control files \<open>enable\<close>, \<open>filter\<close> and \<open>output\<close> of \<open>disk_utils\<close>.
\<close>

section \<open>Finding a device\<close>

function dev_idx_from :: "string \<Rightarrow> wperf \<Rightarrow> nat \<Rightarrow> int res" where
  "dev_idx_from dname s i =
     (if i < didx s
      then if i < length (dnames s)
           then if strncmp dname (dnames s ! i) MAX_DNAME_SIZE = 0 then Inr (int i)
                else dev_idx_from dname s (Suc i)
           else Inl OutOfBounds
      else Inr (- 1))"
  by pat_completeness auto
termination
  by (relation "measure (\<lambda>(d, s, i). didx s - i)") auto

declare dev_idx_from.simps [simp del]

definition dev_idx :: "string \<Rightarrow> wperf \<Rightarrow> int res" where
  "dev_idx dname s = dev_idx_from dname s 0"

section \<open>The probe on part_round_stats\<close>

text \<open>The fields of \<open>struct hd_struct\<close> the handler uses, and its device's name.\<close>

record hd_struct =
  partno :: int
  stamp :: u64
  dev_name :: string
  part_in_flight :: bool

text \<open>\<open>part0\<close> is the whole disk that \<open>part_to_disk(part)\<close> leads to.\<close>

definition on_part_round_stats_ent ::
    "kapi \<Rightarrow> u64 \<Rightarrow> hd_struct \<Rightarrow> hd_struct \<Rightarrow> wperf \<Rightarrow> wperf res" where
  "on_part_round_stats_ent K now part part0 s =
     (let p = (if partno part \<noteq> 0 then part0 else part) in
      res_bind (dev_idx (dev_name p) s) (\<lambda>idx.
        if idx < 0 then Inr s
        else if time_after K now (stamp p) \<and> part_in_flight p
             then if nat idx < length (dutils s)
                  then Inr (s\<lparr>dutils := (dutils s)[nat idx := dutils s ! nat idx + (now - stamp p)]\<rparr>)
                  else Inl OutOfBounds
             else Inr s))"

section \<open>The enable file\<close>

definition dutils_enable_read :: "wperf \<Rightarrow> int" where
  "dutils_enable_read s = (if denabled s then 1 else 0)"

text \<open>The loop that clears the first \<open>n\<close> counters.\<close>

fun clear_dutils :: "nat \<Rightarrow> u64 list \<Rightarrow> u64 list res" where
  "clear_dutils 0 xs = Inr xs"
| "clear_dutils (Suc n) xs = res_bind (clear_dutils n xs)
     (\<lambda>ys. if n < length ys then Inr (ys[n := 0]) else Inl OutOfBounds)"

text \<open>
  \<open>*(bool*)data\<close> reads the lowest byte of the \<open>unsigned long\<close> it points to (x86 stores that
  byte first).
\<close>

definition bool_at :: "u64 \<Rightarrow> bool" where
  "bool_at val \<longleftrightarrow> take_bit 8 val \<noteq> 0"

definition dutils_enable_write :: "u64 \<Rightarrow> wperf \<Rightarrow> (int \<times> wperf) res" where
  "dutils_enable_write val s =
     (let s1 = s\<lparr>denabled := bool_at val\<rparr> in
      if \<not> denabled s1
      then let s2 = disable_jprobe Part_round_stats_jp s1 in
           res_bind (clear_dutils (didx s2) (dutils s2))
             (\<lambda>us. Inr (0, s2\<lparr>dutils := us, didx := 0\<rparr>))
      else Inr (0, enable_jprobe Part_round_stats_jp s1))"

section \<open>The filter file\<close>

text \<open>\<open>%s\<close> of a row reads on into the following rows until it meets a NUL.\<close>

definition row_str :: "wperf \<Rightarrow> nat \<Rightarrow> string res" where
  "row_str s i =
     (if i < length (dnames s) then Inr (cstr (concat (drop i (dnames s)))) else Inl OutOfBounds)"

definition dutils_filter_read :: "kapi \<Rightarrow> trace_seq \<Rightarrow> wperf \<Rightarrow> (int \<times> trace_seq) res" where
  "dutils_filter_read K q s =
     (if didx s = 0 then res_bind (puts_seq (page_size K) q (''none'' @ [NL])) (\<lambda>q'. Inr (0, q'))
      else res_bind (print_each (trace_seq_printf K)
               (\<lambda>i. res_bind (row_str s i) (\<lambda>n. Inr (n @ '',''))) [0..<didx s - 1] q)
             (\<lambda>q1. res_bind (row_str s (didx s - 1))
               (\<lambda>n. res_bind (trace_seq_printf K q1 (n @ [NL])) (\<lambda>q2. Inr (0, q2)))))"

text \<open>\<open>strncpy(dnames[didx++], token, len)\<close>.\<close>

definition store_name :: "string \<Rightarrow> wperf \<Rightarrow> wperf res" where
  "store_name token s =
     (if didx s < length (dnames s)
      then Inr (s\<lparr>dnames := (dnames s)[didx s := strncpy (dnames s ! didx s) token (Suc (strlen token))],
                 didx := Suc (didx s)\<rparr>)
      else Inl OutOfBounds)"

text \<open>The loop over the tokens; \<open>False\<close> is the early \<open>return -EINVAL\<close>.\<close>

function dutils_filter_loop :: "string option \<Rightarrow> wperf \<Rightarrow> (bool \<times> wperf) res" where
  "dutils_filter_loop r s =
     (case strsep CHR '','' r of
        (None, _) \<Rightarrow> Inr (True, s)
      | (Some token, r') \<Rightarrow>
          if token = [] then dutils_filter_loop r' s
          else if strlen token + 1 > MAX_DNAME_SIZE then Inr (False, s)
          else (case store_name token s of
                  Inl e \<Rightarrow> Inl e
                | Inr s' \<Rightarrow> dutils_filter_loop r' s'))"
  by pat_completeness auto
termination
  by (relation "measure (\<lambda>(r, s). rest_size r)") (auto dest: strsep_decreases [OF sym])

declare dutils_filter_loop.simps [simp del]

text \<open>
  \<open>kmem\<close> tells whether \<open>kstrdup\<close> got its memory. The early return leaves the copy allocated and
  the probe disabled.
\<close>

definition dutils_filter_write :: "kapi \<Rightarrow> bool \<Rightarrow> string \<Rightarrow> wperf \<Rightarrow> (int \<times> wperf) res" where
  "dutils_filter_write K kmem data s =
     (if \<not> kmem then Inr (- ENOMEM, s)
      else let s1 = disable_jprobe Part_round_stats_jp (s\<lparr>kbufs := Suc (kbufs s), didx := 0\<rparr>) in
           res_bind (dutils_filter_loop (Some (strstrip K (cstr data))) s1) (\<lambda>(fine, s2).
             if fine
             then let s3 = (if denabled s2 then enable_jprobe Part_round_stats_jp s2 else s2)
                  in Inr (0, s3\<lparr>kbufs := kbufs s3 - 1\<rparr>)
             else Inr (- EINVAL, s2)))"

section \<open>The output file\<close>

definition row_util :: "wperf \<Rightarrow> nat \<Rightarrow> string res" where
  "row_util s i = res_bind (row_str s i) (\<lambda>n.
     if i < length (dutils s) then Inr (n @ ''='' @ fmt_ld (dutils s ! i)) else Inl OutOfBounds)"

definition dutils_output_read :: "kapi \<Rightarrow> trace_seq \<Rightarrow> wperf \<Rightarrow> (int \<times> trace_seq \<times> wperf) res" where
  "dutils_output_read K q s =
     (let s1 = disable_jprobe Part_round_stats_jp s;
          s2 = (if denabled s1 then enable_jprobe Part_round_stats_jp s1 else s1)
      in if didx s1 = 0
         then res_bind (puts_seq (page_size K) q (''none'' @ [NL])) (\<lambda>q'. Inr (0, q', s2))
         else res_bind (print_each (trace_seq_printf K)
                (\<lambda>i. res_bind (row_util s1 i) (\<lambda>t. Inr (t @ '',''))) [0..<didx s1 - 1] q)
              (\<lambda>q1. res_bind (row_util s1 (didx s1 - 1))
                (\<lambda>t. res_bind (trace_seq_printf K q1 (t @ [NL])) (\<lambda>q2. Inr (0, q2, s2)))))"

definition dutils_output_write :: "string \<Rightarrow> wperf \<Rightarrow> int \<times> wperf" where
  "dutils_output_write data s = (- EPERM, s)"

section \<open>The table and its invariant\<close>

definition row_wf :: "string \<Rightarrow> bool" where
  "row_wf r \<longleftrightarrow> length r = MAX_DNAME_SIZE \<and> NUL \<in> set r"

definition disk_wf :: "wperf \<Rightarrow> bool" where
  "disk_wf s \<longleftrightarrow> length (dnames s) = MAX_DISK_NUM \<and> (\<forall>r \<in> set (dnames s). row_wf r) \<and>
     length (dutils s) = MAX_DISK_NUM \<and> didx s \<le> MAX_DISK_NUM"

text \<open>The names in use, and the table as an association list.\<close>

definition names :: "wperf \<Rightarrow> string list" where
  "names s = map cstr (take (didx s) (dnames s))"

definition counters :: "wperf \<Rightarrow> (string \<times> u64) list" where
  "counters s = zip (names s) (dutils s)"

definition good_name :: "string \<Rightarrow> bool" where
  "good_name t \<longleftrightarrow> nul_free t \<and> length t < MAX_DNAME_SIZE"

lemma disk_wf_static: "disk_wf (static_data K)"
  by (simp add: disk_wf_def static_data_def row_wf_def MAX_DNAME_SIZE_def MAX_DISK_NUM_def)

lemma length_names: "disk_wf s \<Longrightarrow> length (names s) = didx s"
  by (simp add: names_def disk_wf_def)

lemma row_wf_name: "row_wf r \<Longrightarrow> good_name (cstr r)"
  using length_cstr_less [of r] by (auto simp: good_name_def row_wf_def cstr_nul_free)

lemma good_names: "disk_wf s \<Longrightarrow> n \<in> set (names s) \<Longrightarrow> good_name n"
  by (auto simp: names_def disk_wf_def dest!: in_set_takeD intro: row_wf_name)

lemma row_str_names: "disk_wf s \<Longrightarrow> i < didx s \<Longrightarrow> row_str s i = Inr (names s ! i)"
proof -
  assume a: "disk_wf s" "i < didx s"
  then have "drop i (dnames s) = dnames s ! i # drop (Suc i) (dnames s)"
    and "row_wf (dnames s ! i)"
    by (auto simp: disk_wf_def Cons_nth_drop_Suc)
  with a show ?thesis
    by (simp add: row_str_def names_def disk_wf_def row_wf_def cstr_append)
qed

text \<open>Switching a probe touches no table.\<close>

lemma switch_disk_frame [simp]:
  "dnames (enable_jprobe j s) = dnames s" "dnames (disable_jprobe j s) = dnames s"
  "dutils (enable_jprobe j s) = dutils s" "dutils (disable_jprobe j s) = dutils s"
  "didx (enable_jprobe j s) = didx s" "didx (disable_jprobe j s) = didx s"
  "denabled (enable_jprobe j s) = denabled s" "denabled (disable_jprobe j s) = denabled s"
  "kbufs (enable_jprobe j s) = kbufs s" "kbufs (disable_jprobe j s) = kbufs s"
  "pid_filter (enable_jprobe j s) = pid_filter s" "pid_filter (disable_jprobe j s) = pid_filter s"
  "tx_stats (enable_jprobe j s) = tx_stats s" "tx_stats (disable_jprobe j s) = tx_stats s"
  "tx_enabled (enable_jprobe j s) = tx_enabled s" "tx_enabled (disable_jprobe j s) = tx_enabled s"
  by (simp_all add: enable_jprobe_def disable_jprobe_def)

section \<open>dev_idx finds the first entry of that name\<close>

lemma strncmp_row:
  "row_wf r \<Longrightarrow> nul_free d \<Longrightarrow> strncmp d r MAX_DNAME_SIZE = 0 \<longleftrightarrow> d = cstr r"
proof -
  assume a: "row_wf r" "nul_free d"
  then have "length (cstr r) < MAX_DNAME_SIZE"
    using row_wf_name by (auto simp: good_name_def)
  then have "take MAX_DNAME_SIZE (cstr r) = cstr r" by simp
  moreover have "take MAX_DNAME_SIZE d = cstr r \<Longrightarrow> d = cstr r"
    using \<open>length (cstr r) < MAX_DNAME_SIZE\<close>
    by (metis length_take min_less_iff_conj nat_neq_iff take_all_iff not_le_imp_less)
  ultimately show ?thesis
    using a by (auto simp: strncmp_eq_0_iff)
qed

definition index_of :: "'a \<Rightarrow> 'a list \<Rightarrow> nat" where
  "index_of x xs = length (takeWhile (\<lambda>y. y \<noteq> x) xs)"

lemma index_of_Cons: "index_of x (y # ys) = (if y = x then 0 else Suc (index_of x ys))"
  by (simp add: index_of_def)

lemma index_of_less: "x \<in> set xs \<Longrightarrow> index_of x xs < length xs"
  by (induction xs) (auto simp: index_of_Cons)

lemma nth_index_of: "x \<in> set xs \<Longrightarrow> xs ! index_of x xs = x"
  by (induction xs) (auto simp: index_of_Cons)

lemma dev_idx_from_spec:
  assumes "disk_wf s" and "nul_free d" and "i \<le> didx s"
  shows "dev_idx_from d s i = Inr (if d \<in> set (drop i (names s))
           then int (i + index_of d (drop i (names s))) else - 1)"
  using assms
proof (induction d s i rule: dev_idx_from.induct)
  case (1 d s i)
  show ?case
  proof (cases "i < didx s")
    case False
    with 1 have "drop i (names s) = []" by (simp add: length_names)
    with False show ?thesis by (simp add: dev_idx_from.simps [of d s i])
  next
    case True
    with 1 have i: "i < length (dnames s)" "row_wf (dnames s ! i)" "names s ! i = cstr (dnames s ! i)"
      by (auto simp: disk_wf_def names_def)
    have dr: "drop i (names s) = cstr (dnames s ! i) # drop (Suc i) (names s)"
      using True 1 Cons_nth_drop_Suc [of i "names s"] i(3) by (simp add: length_names)
    show ?thesis
      using True i(1) 1 strncmp_row [OF i(2), of d]
      by (auto simp: dev_idx_from.simps [of d s i] dr index_of_Cons)
  qed
qed

lemma dev_idx_spec:
  "disk_wf s \<Longrightarrow> nul_free d \<Longrightarrow>
   dev_idx d s = Inr (if d \<in> set (names s) then int (index_of d (names s)) else - 1)"
  by (simp add: dev_idx_def dev_idx_from_spec)

section \<open>The probe bumps the counter of its device\<close>

fun bump :: "string \<Rightarrow> u64 \<Rightarrow> (string \<times> u64) list \<Rightarrow> (string \<times> u64) list" where
  "bump n d [] = []"
| "bump n d ((m, c) # xs) = (if m = n then (m, c + d) # xs else (m, c) # bump n d xs)"

lemma bump_zip:
  "length ns \<le> length us \<Longrightarrow> bump n d (zip ns us) =
     (if n \<in> set ns then zip ns (us[index_of n ns := us ! index_of n ns + d]) else zip ns us)"
proof (induction ns arbitrary: us)
  case Nil
  then show ?case by simp
next
  case (Cons m ns)
  then obtain u us' where "us = u # us'" by (cases us) auto
  with Cons show ?case by (auto simp: index_of_Cons)
qed

definition stats_part :: "hd_struct \<Rightarrow> hd_struct \<Rightarrow> hd_struct" where
  "stats_part part part0 = (if partno part \<noteq> 0 then part0 else part)"

lemma part_round_stats_bump:
  assumes "disk_wf s" and "nul_free (dev_name (stats_part part part0))"
  shows "\<exists>s'. on_part_round_stats_ent K now part part0 s = Inr s' \<and> disk_wf s' \<and>
    counters s' =
      (let p = stats_part part part0 in
       if time_after K now (stamp p) \<and> part_in_flight p
       then bump (dev_name p) (now - stamp p) (counters s) else counters s) \<and>
    (\<exists>us. s' = s\<lparr>dutils := us\<rparr>)"
proof -
  let ?p = "stats_part part part0" and ?i = "index_of (dev_name (stats_part part part0)) (names s)"
  have len: "length (names s) \<le> length (dutils s)"
    using assms(1) by (simp add: length_names) (simp add: disk_wf_def)
  have idx: "dev_idx (dev_name ?p) s =
      Inr (if dev_name ?p \<in> set (names s) then int ?i else - 1)"
    using assms by (rule dev_idx_spec)
  have i: "dev_name ?p \<in> set (names s) \<Longrightarrow> ?i < length (dutils s)"
    using index_of_less [of "dev_name ?p" "names s"] len by simp
  have n: "names (s\<lparr>dutils := us\<rparr>) = names s" "disk_wf (s\<lparr>dutils := us[k := v]\<rparr>) = disk_wf (s\<lparr>dutils := us\<rparr>)"
    for us k v by (simp_all add: names_def disk_wf_def)
  show ?thesis
    using assms(1) idx i len
    by (auto simp: on_part_round_stats_ent_def counters_def bump_zip n Let_def
        simp flip: stats_part_def intro: exI [of _ "dutils s"])
qed

text \<open>
  C14: Refinement of the disk counters: the handler on \<open>part_round_stats\<close> never leaves its arrays,
  and on the table read as an association list from device names to counters it adds the time
  since the stamp to the first entry of the device (the whole disk for a partition) when time has
  passed and requests are in flight, and changes nothing otherwise.
\<close>

theorem part_round_stats_refines_bump:
  assumes "disk_wf s" and "nul_free (dev_name (stats_part part part0))"
  shows "\<exists>s'. on_part_round_stats_ent K now part part0 s = Inr s' \<and> disk_wf s' \<and>
    counters s' =
      (let p = stats_part part part0 in
       if time_after K now (stamp p) \<and> part_in_flight p
       then bump (dev_name p) (now - stamp p) (counters s) else counters s) \<and>
    (\<exists>us. s' = s\<lparr>dutils := us\<rparr>)"
  using assms by (rule part_round_stats_bump)

theorem part_round_stats_refines_bump_witness:
  "\<exists>s'. on_part_round_stats_ent (ref_kapi 64 8) 9 \<lparr>partno = 1, stamp = 0, dev_name = ''sda1'', part_in_flight = True\<rparr>
      \<lparr>partno = 0, stamp = 4, dev_name = ''sda'', part_in_flight = True\<rparr>
      ((static_data (ref_kapi 64 8))\<lparr>didx := 1,
         dnames := (''sda'' @ replicate 17 NUL) # replicate 19 (replicate 20 NUL)\<rparr>) = Inr s' \<and>
    counters s' = [(''sda'', 5)]"
proof -
  let ?p = "\<lparr>partno = 1, stamp = 0, dev_name = ''sda1'', part_in_flight = True\<rparr>"
  let ?d = "\<lparr>partno = 0, stamp = 4, dev_name = ''sda'', part_in_flight = True\<rparr>"
  let ?s = "(static_data (ref_kapi 64 8))\<lparr>didx := 1,
         dnames := (''sda'' @ replicate 17 NUL) # replicate 19 (replicate 20 NUL)\<rparr>"
  have w: "disk_wf ?s"
    by (simp add: disk_wf_def static_data_def row_wf_def MAX_DNAME_SIZE_def MAX_DISK_NUM_def)
  have d: "nul_free (dev_name (stats_part ?p ?d))"
    by (simp add: stats_part_def nul_free_def)
  have c: "counters ?s = [(''sda'', 0)]"
    by (simp add: counters_def names_def static_data_def MAX_DISK_NUM_def cstr_def
        numeral_eq_Suc)
  from part_round_stats_refines_bump [OF w d, of "ref_kapi 64 8" 9] c show ?thesis
    by (auto simp: stats_part_def)
qed

section \<open>Enabling and disabling\<close>

lemma clear_dutils_spec:
  "n \<le> length xs \<Longrightarrow> clear_dutils n xs = Inr (replicate n 0 @ drop n xs)"
proof (induction n)
  case 0
  then show ?case by simp
next
  case (Suc n)
  then have "drop n xs = xs ! n # drop (Suc n) xs" by (simp add: Cons_nth_drop_Suc)
  with Suc show ?case by (simp add: list_update_append replicate_append_same)
qed

lemma bool_at_small [simp]: "bool_at 0 = False" "bool_at 1 = True"
  by (simp_all add: bool_at_def)

text \<open>
  Writing 0 to \<open>enable\<close> disarms the probe, empties the table and clears every counter that
  was in use, and leaves the others; writing 1 arms the probe and keeps the table.
\<close>

theorem disk_enable_write:
  assumes "disk_wf s" and "registered s"
  shows "(\<exists>s'. dutils_enable_write 0 s = Inr (0, s') \<and> disk_wf s' \<and> \<not> denabled s' \<and>
      \<not> armed s' Part_round_stats_jp \<and> names s' = [] \<and>
      dutils s' = replicate (didx s) 0 @ drop (didx s) (dutils s)) \<and>
    (\<exists>s'. dutils_enable_write 1 s = Inr (0, s') \<and> disk_wf s' \<and> denabled s' \<and>
      armed s' Part_round_stats_jp \<and> counters s' = counters s)"
proof
  have "didx s \<le> length (dutils s)" using assms(1) by (simp add: disk_wf_def)
  then show "\<exists>s'. dutils_enable_write 0 s = Inr (0, s') \<and> disk_wf s' \<and> \<not> denabled s' \<and>
      \<not> armed s' Part_round_stats_jp \<and> names s' = [] \<and>
      dutils s' = replicate (didx s) 0 @ drop (didx s) (dutils s)"
    using assms(1)
    by (simp add: dutils_enable_write_def clear_dutils_spec disk_wf_def names_def armed_def
        disable_jprobe_def)
  show "\<exists>s'. dutils_enable_write 1 s = Inr (0, s') \<and> disk_wf s' \<and> denabled s' \<and>
      armed s' Part_round_stats_jp \<and> counters s' = counters s"
    using assms
    by (simp add: dutils_enable_write_def disk_wf_def counters_def names_def armed_def
        registered_def enable_jprobe_def)
qed

text \<open>A loaded module with one device in the table, for the witnesses.\<close>

definition ref_disk :: wperf where
  "ref_disk = (static_data (ref_kapi 64 8))\<lparr>didx := 1, denabled := True,
     dnames := (''sda'' @ replicate 17 NUL) # replicate 19 (replicate 20 NUL),
     dutils := 5 # replicate 19 0, probes := [Register_jprobes]\<rparr>"

lemma ref_disk_wf [simp]: "disk_wf ref_disk" "registered ref_disk" "denabled ref_disk"
    "names ref_disk = [''sda'']" "didx ref_disk = 1" "counters ref_disk = [(''sda'', 5)]"
  by (simp_all add: ref_disk_def disk_wf_def static_data_def row_wf_def MAX_DNAME_SIZE_def
      MAX_DISK_NUM_def registered_def names_def counters_def cstr_def numeral_eq_Suc)

theorem disk_enable_write_witness:
  "\<exists>s'. dutils_enable_write 0 ref_disk = Inr (0, s') \<and> dutils s' = replicate 20 0"
  using disk_enable_write [OF ref_disk_wf(1,2)]
  by (auto simp: ref_disk_def static_data_def numeral_eq_Suc)

section \<open>Writing the filter\<close>

text \<open>The loop over \<open>strsep\<close> is a walk over the non-empty tokens.\<close>

fun store_all :: "string list \<Rightarrow> wperf \<Rightarrow> (bool \<times> wperf) res" where
  "store_all [] s = Inr (True, s)"
| "store_all (t # ts) s =
     (if strlen t + 1 > MAX_DNAME_SIZE then Inr (False, s)
      else res_bind (store_name t s) (store_all ts))"

definition written_names :: "string \<Rightarrow> string list" where
  "written_names text = filter (\<lambda>t. t \<noteq> []) (tokens CHR '','' (Some text))"

lemma filter_loop_store_all:
  "dutils_filter_loop r s = store_all (filter (\<lambda>t. t \<noteq> []) (tokens CHR '','' r)) s"
proof (induction r s rule: dutils_filter_loop.induct)
  case (1 r s)
  obtain tok r' where st: "strsep CHR '','' r = (tok, r')" by fastforce
  show ?case
  proof (cases tok)
    case None
    with st show ?thesis by (simp add: dutils_filter_loop.simps [of r s] tokens.simps [of _ r])
  next
    case (Some t)
    with st 1 show ?thesis
      by (auto simp: dutils_filter_loop.simps [of r s] tokens.simps [of _ r] res_bind_def
          split: sum.splits)
  qed
qed

lemma store_name_spec:
  assumes "disk_wf s" and "didx s < MAX_DISK_NUM" and "good_name t"
  shows "\<exists>dn. store_name t s = Inr (s\<lparr>dnames := dn, didx := Suc (didx s)\<rparr>) \<and>
    disk_wf (s\<lparr>dnames := dn, didx := Suc (didx s)\<rparr>) \<and>
    names (s\<lparr>dnames := dn, didx := Suc (didx s)\<rparr>) = names s @ [t]"
proof -
  let ?r = "strncpy (dnames s ! didx s) t (Suc (length t))"
  have row: "row_wf (dnames s ! didx s)" "didx s < length (dnames s)"
    using assms(1,2) by (auto simp: disk_wf_def)
  then have r: "?r = t @ NUL # drop (Suc (length t)) (dnames s ! didx s)"
    using assms(3) by (auto simp: good_name_def row_wf_def intro: strncpy_whole)
  then have "row_wf ?r"
    using row(1) assms(3) by (auto simp: row_wf_def good_name_def)
  with assms row(2) r show ?thesis
    by (auto simp: store_name_def disk_wf_def names_def good_name_def take_Suc_conv_app_nth
        dest!: set_update_subset_insert [THEN subsetD] intro!: exI [of _ "(dnames s)[didx s := ?r]"])
qed

text \<open>Reading the table after \<open>k\<close> names have been stored.\<close>

lemma store_all_short:
  "disk_wf s \<Longrightarrow> \<forall>t \<in> set ts. good_name t \<Longrightarrow> didx s + length ts \<le> MAX_DISK_NUM \<Longrightarrow>
   \<exists>dn. let s' = s\<lparr>dnames := dn, didx := didx s + length ts\<rparr> in
     store_all (ts @ us) s = store_all us s' \<and> disk_wf s' \<and> names s' = names s @ ts"
proof (induction ts arbitrary: s)
  case Nil
  then show ?case by (auto intro!: exI [of _ "dnames s"])
next
  case (Cons t ts)
  then obtain dn where dn: "store_name t s = Inr (s\<lparr>dnames := dn, didx := Suc (didx s)\<rparr>)"
    "disk_wf (s\<lparr>dnames := dn, didx := Suc (didx s)\<rparr>)"
    "names (s\<lparr>dnames := dn, didx := Suc (didx s)\<rparr>) = names s @ [t]"
    using store_name_spec [of s t] by auto
  have "\<not> strlen t + 1 > MAX_DNAME_SIZE" using Cons.prems(2) by (auto simp: good_name_def)
  then show ?case
    using Cons.IH [OF dn(2)] Cons.prems dn(1,3) by (auto simp: Let_def)
qed

text \<open>What a write to the filter is about: the tokens, and how many of them are stored.\<close>

definition filter_tokens :: "kapi \<Rightarrow> string \<Rightarrow> string list" where
  "filter_tokens K data = written_names (strstrip K (cstr data))"

definition fits_row :: "string \<Rightarrow> bool" where
  "fits_row t \<longleftrightarrow> length t < MAX_DNAME_SIZE"

lemma set_ref_strip: "set (rev (dropWhile is_space (rev (dropWhile is_space s)))) \<subseteq> set s"
  by (auto dest!: set_dropWhileD)

lemma filter_tokens_nul_free: "strip_ok K \<Longrightarrow> t \<in> set (filter_tokens K data) \<Longrightarrow> nul_free t"
  using set_tokens [of t "CHR '',''" "Some (strstrip K (cstr data))"]
    set_ref_strip [of "cstr data"] cstr_nul_free [of data]
  by (auto simp: filter_tokens_def written_names_def strip_ok_def nul_free_def)

lemma good_name_iff: "strip_ok K \<Longrightarrow> t \<in> set (filter_tokens K data) \<Longrightarrow> good_name t \<longleftrightarrow> fits_row t"
  by (simp add: good_name_def fits_row_def filter_tokens_nul_free)

text \<open>The state in which the loop starts.\<close>

definition filter_start :: "wperf \<Rightarrow> wperf" where
  "filter_start s = disable_jprobe Part_round_stats_jp (s\<lparr>kbufs := Suc (kbufs s), didx := 0\<rparr>)"

lemma filter_start_frame [simp]:
  "disk_wf s \<Longrightarrow> disk_wf (filter_start s)" "names (filter_start s) = []"
  "didx (filter_start s) = 0" "dutils (filter_start s) = dutils s"
  "denabled (filter_start s) = denabled s" "kbufs (filter_start s) = Suc (kbufs s)"
  "registered (filter_start s) = registered s" "\<not> armed (filter_start s) Part_round_stats_jp"
  by (simp_all add: filter_start_def disk_wf_def names_def registered_def armed_def disable_jprobe_def)

lemma filter_write_unfold:
  "dutils_filter_write K True data s =
     res_bind (store_all (filter_tokens K data) (filter_start s)) (\<lambda>(fine, s2).
       if fine
       then let s3 = (if denabled s2 then enable_jprobe Part_round_stats_jp s2 else s2)
            in Inr (0, s3\<lparr>kbufs := kbufs s3 - 1\<rparr>)
       else Inr (- EINVAL, s2))"
  by (simp add: dutils_filter_write_def filter_loop_store_all filter_tokens_def written_names_def
      filter_start_def)

lemma store_all_prefix:
  assumes "disk_wf s" and "strip_ok K" and "filter_tokens K data = ts @ us"
    and "list_all fits_row ts" and "length ts \<le> MAX_DISK_NUM"
  shows "\<exists>dn. let s' = (filter_start s)\<lparr>dnames := dn, didx := length ts\<rparr> in
     store_all (filter_tokens K data) (filter_start s) = store_all us s' \<and>
     disk_wf s' \<and> names s' = ts"
proof -
  have "\<forall>t \<in> set ts. good_name t"
    using assms(3,4) good_name_iff [OF assms(2), of _ data] by (auto simp: list_all_iff)
  then show ?thesis
    using store_all_short [of "filter_start s" ts us] assms(1,3,5) by simp
qed

lemma filter_write_stores:
  assumes "disk_wf s" and "strip_ok K" and "registered s"
    and "list_all fits_row (filter_tokens K data)" and "length (filter_tokens K data) \<le> MAX_DISK_NUM"
  shows "\<exists>s'. dutils_filter_write K True data s = Inr (0, s') \<and> disk_wf s' \<and>
    names s' = filter_tokens K data \<and> dutils s' = dutils s \<and> denabled s' = denabled s \<and>
    kbufs s' = kbufs s \<and> (armed s' Part_round_stats_jp \<longleftrightarrow> denabled s)"
proof -
  obtain dn where "let s' = (filter_start s)\<lparr>dnames := dn, didx := length (filter_tokens K data)\<rparr> in
     store_all (filter_tokens K data) (filter_start s) = store_all [] s' \<and>
     disk_wf s' \<and> names s' = filter_tokens K data"
    using store_all_prefix [OF assms(1,2), of data "filter_tokens K data" "[]"] assms(4,5) by auto
  with assms(3) show ?thesis
    by (auto simp: filter_write_unfold Let_def disk_wf_def names_def armed_def registered_def
        enable_jprobe_def filter_start_def disable_jprobe_def)
qed

text \<open>
  Writing a list of at most twenty names, each shorter than twenty characters, to the filter
  returns 0 and leaves exactly these names in the table, in order; the counters are not cleared,
  the copy of the text is freed, and the probe is armed again exactly when the file \<open>enable\<close> is on.
\<close>

theorem disk_filter_write_stores:
  assumes "disk_wf s" and "strip_ok K" and "registered s"
    and "list_all fits_row (filter_tokens K data)" and "length (filter_tokens K data) \<le> MAX_DISK_NUM"
  shows "\<exists>s'. dutils_filter_write K True data s = Inr (0, s') \<and> disk_wf s' \<and>
    names s' = filter_tokens K data \<and> dutils s' = dutils s \<and> denabled s' = denabled s \<and>
    kbufs s' = kbufs s \<and> (armed s' Part_round_stats_jp \<longleftrightarrow> denabled s)"
  using assms by (rule filter_write_stores)

text \<open>
  A name of twenty characters or more ends the write with \<open>-EINVAL\<close>: the table holds the
  names before it, the probe stays disarmed even when the file \<open>enable\<close> is on, and the copy of the
  text is never freed.
\<close>

theorem disk_filter_write_long_name:
  assumes "disk_wf s" and "strip_ok K" and "filter_tokens K data = ts @ t # us"
    and "list_all fits_row ts" and "length ts \<le> MAX_DISK_NUM" and "\<not> fits_row t"
  shows "\<exists>s'. dutils_filter_write K True data s = Inr (- EINVAL, s') \<and> disk_wf s' \<and>
    names s' = ts \<and> denabled s' = denabled s \<and> kbufs s' = Suc (kbufs s) \<and>
    \<not> armed s' Part_round_stats_jp"
proof -
  have "nul_free t" using filter_tokens_nul_free [OF assms(2), of _ data] assms(3) by simp
  with assms(6) have "strlen t + 1 > MAX_DNAME_SIZE" by (simp add: fits_row_def)
  moreover obtain dn where "let s' = (filter_start s)\<lparr>dnames := dn, didx := length ts\<rparr> in
     store_all (filter_tokens K data) (filter_start s) = store_all (t # us) s' \<and>
     disk_wf s' \<and> names s' = ts"
    using store_all_prefix [OF assms(1,2,3,4,5)] by auto
  ultimately show ?thesis
    by (auto simp: filter_write_unfold Let_def armed_def filter_start_def disable_jprobe_def)
qed

text \<open>
  Nothing counts the names against the size of the table: a write whose first twenty-one
  names are short enough stores the last of them outside the array.
\<close>

theorem disk_filter_write_overflow:
  assumes "disk_wf s" and "strip_ok K" and "filter_tokens K data = ts @ t # us"
    and "list_all fits_row (ts @ [t])" and "length ts = MAX_DISK_NUM"
  shows "dutils_filter_write K True data s = Inl OutOfBounds"
proof -
  have "nul_free t" using filter_tokens_nul_free [OF assms(2), of _ data] assms(3) by simp
  with assms(4) have "\<not> strlen t + 1 > MAX_DNAME_SIZE" by (simp add: fits_row_def)
  moreover obtain dn where "let s' = (filter_start s)\<lparr>dnames := dn, didx := length ts\<rparr> in
     store_all (filter_tokens K data) (filter_start s) = store_all (t # us) s' \<and>
     disk_wf s' \<and> names s' = ts"
    using store_all_prefix [OF assms(1,2,3)] assms(4,5) by auto
  ultimately show ?thesis
    using assms(5) by (auto simp: filter_write_unfold Let_def store_name_def disk_wf_def)
qed

section \<open>Reading back\<close>

lemma small_pieces:
  assumes "\<forall>n \<in> set ns. nul_free n \<and> length n < 1000" and "ns \<noteq> []"
  shows "small_strings (pieces CHR '','' [NL] ns)"
proof -
  have "\<forall>n \<in> set (last ns # butlast ns). nul_free n \<and> length n < 1000"
    using assms by (auto dest: in_set_butlastD)
  then show ?thesis
    by (auto simp: small_strings_def pieces_def nul_free_def)
qed

text \<open>A list of pieces that fits the page is what the reader gets.\<close>

lemma write_pieces:
  assumes "printf_ok K" and "seq_wf (page_size K) q" and "\<not> seq_full q" and "seq_text q = []"
    and "ns \<noteq> []" and "\<forall>n \<in> set ns. nul_free n \<and> length n < 1000"
    and "length (join CHR '','' ns) + 2 < page_size K"
  shows "\<exists>q'. write_all (trace_seq_printf K) q (pieces CHR '','' [NL] ns) = Inr q' \<and>
    seq_wf (page_size K) q' \<and> \<not> seq_full q' \<and> seq_text q' = join CHR '','' ns @ [NL]"
proof -
  have "length (concat (pieces CHR '','' [NL] ns)) < seq_space (page_size K) q"
    using assms by (simp add: concat_pieces seq_space_text)
  with assms show ?thesis
    using seq_writer.write_all_fits [of "page_size K" "trace_seq_printf K" q
        "pieces CHR '','' [NL] ns"] small_pieces [of ns]
    by (auto simp: printf_ok_def concat_pieces)
qed

text \<open>
  What a reader finds for a table: its rows on one line, or \<open>none\<close>. Twenty rows of a name and a
  number always fit a page of 1024 bytes or more.
\<close>

definition list_line :: "string list \<Rightarrow> string" where
  "list_line ss = (if ss = [] then ''none'' @ [NL] else join CHR '','' ss @ [NL])"

lemma length_join_le: "\<forall>s \<in> set ss. length s \<le> m \<Longrightarrow> length (join d ss) \<le> length ss * Suc m"
  by (induction d ss rule: join.induct) auto

lemma write_line:
  assumes "printf_ok K" and "seq_init_ok K" and "length (seq_buffer q) = page_size K" and "1024 \<le> page_size K"
    and "ns \<noteq> []" and "length ns \<le> MAX_DISK_NUM" and "\<forall>n \<in> set ns. nul_free n \<and> length n \<le> 42"
  shows "\<exists>q'. write_all (trace_seq_printf K) (trace_seq_init K q) (pieces CHR '','' [NL] ns) = Inr q' \<and>
    seq_text q' = list_line ns"
proof -
  have "length (join CHR '','' ns) \<le> length ns * 43"
    using length_join_le [of ns 42] assms(7) by simp
  then have "length (join CHR '','' ns) + 2 < page_size K"
    using assms(4,6) by (simp add: MAX_DISK_NUM_def)
  moreover have "\<forall>n \<in> set ns. nul_free n \<and> length n < 1000" using assms(7) by fastforce
  ultimately show ?thesis
    using write_pieces [of K "trace_seq_init K q" ns] assms(1,2,3,5)
    by (auto simp: seq_init_ok_def list_line_def)
qed

lemma write_none:
  assumes "seq_init_ok K" and "length (seq_buffer q) = page_size K" and "64 \<le> page_size K"
  shows "\<exists>q'. puts_seq (page_size K) (trace_seq_init K q) (''none'' @ [NL]) = Inr q' \<and> seq_text q' = ''none'' @ [NL]"
proof -
  let ?q = "trace_seq_init K q"
  have q: "seq_wf (page_size K) ?q" "seq_text ?q = []" "\<not> seq_full ?q"
    using assms(1,2) by (auto simp: seq_init_ok_def)
  have "length (''none'' @ [NL]) < seq_space (page_size K) ?q"
    using q assms(3) by (simp add: seq_space_text)
  with q show ?thesis
    using puts.put_returns [OF q(1), of "''none'' @ [NL]"] puts.put_fits [OF q(1), of "''none'' @ [NL]"]
    by (auto simp: nul_free_def)
qed

text \<open>The loop that prints a table of rows, in terms of the rows' texts.\<close>

lemma print_rows:
  assumes "length rows = n" and "n \<noteq> 0" and "\<forall>i < n. f i = Inr (rows ! i)"
  shows "res_bind (print_each put (\<lambda>i. res_bind (f i) (\<lambda>t. Inr (t @ '',''))) [0..<n - 1] q)
      (\<lambda>q1. res_bind (f (n - 1)) (\<lambda>t. res_bind (put q1 (t @ [NL])) g)) =
    res_bind (write_all put q (pieces CHR '','' [NL] rows)) g"
proof -
  have "print_each put (\<lambda>i. res_bind (f i) (\<lambda>t. Inr (t @ '',''))) [0..<n - 1] q =
      write_all put q (map (\<lambda>i. rows ! i @ '','') [0..<n - 1])"
    by (rule print_each_write_all) (use assms in auto)
  also have "map (\<lambda>i. rows ! i @ '','') [0..<n - 1] = map (\<lambda>s. s @ '','') (butlast rows)"
    using assms by (intro nth_equalityI) (auto simp: nth_butlast)
  finally have loop: "print_each put (\<lambda>i. res_bind (f i) (\<lambda>t. Inr (t @ '',''))) [0..<n - 1] q =
      write_all put q (map (\<lambda>s. s @ '','') (butlast rows))" .
  have "f (n - 1) = Inr (last rows)"
    using assms last_conv_nth [of rows] by (cases rows) auto
  with loop show ?thesis
    by (simp add: pieces_def write_all_append res_bind_assoc)
qed

lemma filter_read_unfold:
  "disk_wf s \<Longrightarrow> didx s \<noteq> 0 \<Longrightarrow>
   dutils_filter_read K q s =
     res_bind (write_all (trace_seq_printf K) q (pieces CHR '','' [NL] (names s))) (\<lambda>q'. Inr (0, q'))"
  using print_rows [of "names s" "didx s" "row_str s" "trace_seq_printf K" q "\<lambda>q'. Inr (0, q')"]
  by (simp add: dutils_filter_read_def length_names row_str_names)

definition plain_name :: "string \<Rightarrow> bool" where
  "plain_name n \<longleftrightarrow> n \<noteq> [] \<and> nul_free n \<and> CHR '','' \<notin> set n \<and> (\<forall>c \<in> set n. \<not> is_space c)"

lemma filter_tokens_join:
  assumes "strip_ok K" and "ns \<noteq> []" and "list_all plain_name ns"
  shows "filter_tokens K (join CHR '','' ns @ [NL]) = ns"
proof -
  let ?s = "join CHR '','' ns"
  have chars: "\<forall>c \<in> set ?s. \<not> is_space c \<and> c \<noteq> NUL"
    using assms(3) set_join [of "CHR '',''" ns]
    by (auto simp: list_all_iff plain_name_def nul_free_def) (auto simp: is_space_def)
  have dw: "dropWhile is_space xs = xs" if "\<forall>c \<in> set xs. \<not> is_space c" for xs
    using that by (cases xs) auto
  have "cstr (?s @ [NL]) = ?s @ [NL]"
    using chars by (intro cstr_of_nul_free) (auto simp: nul_free_def)
  moreover have "?s \<noteq> []"
    using assms(2,3) by (cases ns rule: remdups_adj.cases) (auto simp: plain_name_def)
  then have "dropWhile is_space (?s @ [NL]) = ?s @ [NL]"
    using chars by (cases ?s) auto
  moreover have "dropWhile is_space (rev (?s @ [NL])) = rev ?s"
    using chars dw [of "rev ?s"] by (simp add: is_space_def)
  ultimately have "strstrip K (cstr (?s @ [NL])) = ?s"
    using assms(1) by (simp add: strip_ok_def)
  moreover have "tokens CHR '','' (Some ?s) = ns"
    using assms(2,3) by (intro tokens_join) (auto simp: list_all_iff plain_name_def)
  moreover have "filter (\<lambda>t. t \<noteq> []) ns = ns"
    using assms(3) by (auto simp: list_all_iff plain_name_def)
  ultimately show ?thesis by (simp add: filter_tokens_def written_names_def)
qed

lemma disk_filter_read_line:
  assumes "disk_wf s" and "printf_ok K" and "seq_init_ok K" and "length (seq_buffer q) = page_size K"
    and "1024 \<le> page_size K"
  shows "\<exists>q'. dutils_filter_read K (trace_seq_init K q) s = Inr (0, q') \<and> seq_text q' = list_line (names s)"
proof (cases "didx s = 0")
  case True
  then have "names s = []" by (simp add: names_def)
  with True write_none [OF assms(3,4)] assms(5) show ?thesis
    by (auto simp: dutils_filter_read_def list_line_def)
next
  case False
  have "\<forall>n \<in> set (names s). nul_free n \<and> length n \<le> 42"
    using good_names [OF assms(1)] by (fastforce simp: good_name_def MAX_DNAME_SIZE_def)
  moreover have "names s \<noteq> []" "length (names s) \<le> MAX_DISK_NUM"
    using False length_names [OF assms(1)] assms(1) by (auto simp: disk_wf_def)
  ultimately show ?thesis
    using write_line [OF assms(2-5), of "names s"] False assms(1) by (auto simp: filter_read_unfold)
qed

text \<open>
  Round trip of the device filter: after a write of at most twenty plain names, separated by
  commas and ended by a newline, a read of the filter gives the same line; it always fits the page.
\<close>

theorem disk_filter_roundtrip:
  assumes "disk_wf s" and "registered s" and "strip_ok K" and "printf_ok K" and "seq_init_ok K"
    and "length (seq_buffer q) = page_size K" and "1024 \<le> page_size K"
    and "ns \<noteq> []" and "list_all plain_name ns" and "list_all fits_row ns"
    and "length ns \<le> MAX_DISK_NUM"
  shows "\<exists>s' q'. dutils_filter_write K True (join CHR '','' ns @ [NL]) s = Inr (0, s') \<and>
    dutils_filter_read K (trace_seq_init K q) s' = Inr (0, q') \<and>
    seq_text q' = join CHR '','' ns @ [NL]"
proof -
  have toks: "filter_tokens K (join CHR '','' ns @ [NL]) = ns"
    using assms by (intro filter_tokens_join)
  then obtain s' where w: "dutils_filter_write K True (join CHR '','' ns @ [NL]) s = Inr (0, s')"
    "disk_wf s'" "names s' = ns"
    using filter_write_stores [OF assms(1,3,2), of "join CHR '','' ns @ [NL]"] assms(10,11) by auto
  with disk_filter_read_line [OF w(2) assms(4-7)] assms(8) show ?thesis by (auto simp: list_line_def)
qed

lemma ref_tokens: "filter_tokens (ref_kapi p l) (join CHR '','' ns @ [NL]) = ns"
  if "ns \<noteq> []" and "list_all plain_name ns"
  using filter_tokens_join [OF ref_strip_ok that] .

theorem disk_filter_write_stores_witness:
  "\<exists>s'. dutils_filter_write (ref_kapi 64 8) True (''sdb,sdc'' @ [NL]) ref_disk = Inr (0, s') \<and>
    names s' = [''sdb'', ''sdc''] \<and> armed s' Part_round_stats_jp"
proof -
  have t: "filter_tokens (ref_kapi 64 8) (''sdb,sdc'' @ [NL]) = [''sdb'', ''sdc'']"
    using ref_tokens [of "[''sdb'', ''sdc'']"] by (simp add: plain_name_def is_space_def)
  show ?thesis
    using disk_filter_write_stores [OF ref_disk_wf(1) ref_strip_ok ref_disk_wf(2), of 64 8 "''sdb,sdc'' @ [NL]"]
    unfolding t by (auto simp: fits_row_def MAX_DNAME_SIZE_def MAX_DISK_NUM_def)
qed

theorem disk_filter_write_long_name_witness:
  "\<exists>s'. dutils_filter_write (ref_kapi 64 8) True (''sdb,'' @ replicate 20 CHR ''x'' @ [NL]) ref_disk
      = Inr (- EINVAL, s') \<and> names s' = [''sdb''] \<and> denabled s' \<and> kbufs s' = Suc (kbufs ref_disk) \<and>
    \<not> armed s' Part_round_stats_jp"
proof -
  have t: "filter_tokens (ref_kapi 64 8) (''sdb,'' @ replicate 20 CHR ''x'' @ [NL])
      = [''sdb''] @ replicate 20 CHR ''x'' # []"
    using ref_tokens [of "[''sdb'', replicate 20 CHR ''x'']"] by (simp add: plain_name_def is_space_def)
  show ?thesis
    using disk_filter_write_long_name [OF ref_disk_wf(1) ref_strip_ok t]
    by (auto simp: fits_row_def MAX_DNAME_SIZE_def MAX_DISK_NUM_def)
qed

theorem disk_filter_write_overflow_witness:
  "dutils_filter_write (ref_kapi 64 8) True (join CHR '','' (replicate 21 ''d'') @ [NL]) ref_disk
     = Inl OutOfBounds"
proof -
  have t: "filter_tokens (ref_kapi 64 8) (join CHR '','' (replicate 21 ''d'') @ [NL])
      = replicate 20 ''d'' @ ''d'' # []"
    using ref_tokens [of "replicate 21 ''d''"]
    by (simp add: plain_name_def is_space_def list_all_iff flip: replicate_append_same)
      (simp add: numeral_eq_Suc)
  show ?thesis
    using disk_filter_write_overflow [OF ref_disk_wf(1) ref_strip_ok t]
    by (simp add: fits_row_def MAX_DNAME_SIZE_def MAX_DISK_NUM_def list_all_iff)
qed

text \<open>A freshly allocated sequence, its bytes arbitrary.\<close>

definition ref_seq :: trace_seq where
  "ref_seq = \<lparr>seq_buffer = replicate 64 CHR ''?'', seq_len = 9, seq_full = True\<rparr>"

definition ref_page :: trace_seq where
  "ref_page = \<lparr>seq_buffer = replicate 4096 CHR ''?'', seq_len = 9, seq_full = True\<rparr>"

theorem disk_filter_roundtrip_witness:
  "\<exists>s' q'. dutils_filter_write (ref_kapi 4096 8) True (''sdb,sdc'' @ [NL]) ref_disk = Inr (0, s') \<and>
    dutils_filter_read (ref_kapi 4096 8) (trace_seq_init (ref_kapi 4096 8) ref_page) s' = Inr (0, q') \<and>
    seq_text q' = ''sdb,sdc'' @ [NL]"
  using disk_filter_roundtrip [where K = "ref_kapi 4096 8" and q = ref_page and ns = "[''sdb'', ''sdc'']",
      OF ref_disk_wf(1,2) ref_strip_ok ref_printf_ok ref_init_ok]
  by (simp add: ref_page_def plain_name_def is_space_def fits_row_def MAX_DISK_NUM_def MAX_DNAME_SIZE_def)

section \<open>The output file\<close>

definition util_text :: "string \<times> u64 \<Rightarrow> string" where
  "util_text x = fst x @ ''='' @ fmt_ld (snd x)"

lemma row_util_counters:
  assumes "disk_wf s" and "i < didx s"
  shows "row_util s i = Inr (map util_text (counters s) ! i)"
proof -
  have "i < length (dutils s)" "i < length (names s)" "i < length (counters s)"
    using assms by (auto simp: disk_wf_def counters_def length_names)
  with assms show ?thesis
    by (simp add: row_util_def row_str_names util_text_def counters_def)
qed

lemma length_counters: "disk_wf s \<Longrightarrow> length (counters s) = didx s"
  by (simp add: counters_def length_names) (simp add: disk_wf_def)

lemma disk_switch_frame [simp]:
  "disk_wf (enable_jprobe j s) = disk_wf s" "disk_wf (disable_jprobe j s) = disk_wf s"
  "names (enable_jprobe j s) = names s" "names (disable_jprobe j s) = names s"
  "counters (enable_jprobe j s) = counters s" "counters (disable_jprobe j s) = counters s"
  by (simp_all add: disk_wf_def names_def counters_def)

lemma output_read_unfold:
  assumes "disk_wf s" and "didx s \<noteq> 0"
  shows "dutils_output_read K q s =
     res_bind (write_all (trace_seq_printf K) q (pieces CHR '','' [NL] (map util_text (counters s))))
       (\<lambda>q'. Inr (0, q', let s1 = disable_jprobe Part_round_stats_jp s in
          if denabled s then enable_jprobe Part_round_stats_jp s1 else s1))"
proof -
  let ?s1 = "disable_jprobe Part_round_stats_jp s"
  have rows: "\<forall>i < didx s. row_util ?s1 i = Inr (map util_text (counters s) ! i)"
    using row_util_counters [of ?s1] assms by simp
  have len: "length (map util_text (counters s)) = didx s"
    using assms(1) by (simp add: length_counters)
  show ?thesis
    unfolding dutils_output_read_def Let_def switch_disk_frame print_rows [OF len assms(2) rows]
    using assms(2) by (simp only: if_False)
qed

lemma disk_output_read_page:
  assumes "disk_wf s" and "registered s" and "printf_ok K" and "seq_init_ok K"
    and "length (seq_buffer q) = page_size K" and "1024 \<le> page_size K"
  shows "\<exists>s' q'. dutils_output_read K (trace_seq_init K q) s = Inr (0, q', s') \<and>
    seq_text q' = list_line (map util_text (counters s)) \<and>
    (\<exists>p. s' = s\<lparr>probes := p\<rparr>) \<and> registered s' \<and>
    (\<forall>j. armed s' j \<longleftrightarrow> (if j = Part_round_stats_jp then denabled s else armed s j))"
proof -
  let ?s1 = "disable_jprobe Part_round_stats_jp s"
  let ?s2 = "if denabled s then enable_jprobe Part_round_stats_jp ?s1 else ?s1"
  have s2: "(\<exists>p. ?s2 = s\<lparr>probes := p\<rparr>) \<and> registered ?s2 \<and>
      (\<forall>j. armed ?s2 j \<longleftrightarrow> (if j = Part_round_stats_jp then denabled s else armed s j))"
    using assms(2)
    by (auto simp: jp.on_enable jp.on_disable jp.present_disable jp.present_enable)
      (auto simp: enable_jprobe_def disable_jprobe_def)
  have "\<exists>q'. dutils_output_read K (trace_seq_init K q) s = Inr (0, q', ?s2) \<and>
      seq_text q' = list_line (map util_text (counters s))"
  proof (cases "didx s = 0")
    case True
    then have "counters s = []" by (simp add: counters_def names_def)
    with True write_none [OF assms(4,5)] assms(6) show ?thesis
      by (auto simp: dutils_output_read_def list_line_def Let_def)
  next
    case False
    have "nul_free (util_text x) \<and> length (util_text x) \<le> 42" if "x \<in> set (counters s)" for x
    proof -
      have "good_name (fst x)"
        using that assms(1) good_names
        by (metis counters_def prod.collapse set_zip_leftD)
      then show ?thesis
        using length_fmt_ld [of "snd x"]
        by (auto simp: util_text_def good_name_def MAX_DNAME_SIZE_def)
    qed
    moreover have "counters s \<noteq> []" "length (counters s) \<le> MAX_DISK_NUM"
      using False assms(1) length_counters [of s] by (auto simp: disk_wf_def)
    ultimately show ?thesis
      using write_line [OF assms(3-6), of "map util_text (counters s)"] False assms(1)
      by (auto simp: output_read_unfold Let_def)
  qed
  with s2 show ?thesis by blast
qed

text \<open>
  Reading the output of the disk counters gives the line \<open>name=count,...\<close> of the table, in
  order and with signed counts, or \<open>none\<close>: it always fits the page. Only the probe log changes, and
  the read leaves the probe armed exactly when the file \<open>enable\<close> is on.
\<close>

theorem disk_output_read_line:
  assumes "disk_wf s" and "registered s" and "printf_ok K" and "seq_init_ok K"
    and "length (seq_buffer q) = page_size K" and "1024 \<le> page_size K"
  shows "\<exists>s' q'. dutils_output_read K (trace_seq_init K q) s = Inr (0, q', s') \<and>
    seq_text q' = list_line (map util_text (counters s)) \<and>
    (\<exists>p. s' = s\<lparr>probes := p\<rparr>) \<and> registered s' \<and>
    (\<forall>j. armed s' j \<longleftrightarrow> (if j = Part_round_stats_jp then denabled s else armed s j))"
  using assms by (rule disk_output_read_page)

theorem disk_output_read_line_witness:
  "\<exists>s' q'. dutils_output_read (ref_kapi 4096 8) (trace_seq_init (ref_kapi 4096 8) ref_page) ref_disk = Inr (0, q', s') \<and>
    seq_text q' = ''sda=5'' @ [NL] \<and> armed s' Part_round_stats_jp"
proof -
  have l: "fmt_ld 5 = ''5''" by (simp add: fmt_ld_def show_int_def show_nat.simps digit_def) code_simp
  have "list_line (map util_text (counters ref_disk)) = ''sda=5'' @ [NL]"
    by (simp add: list_line_def util_text_def l)
  then show ?thesis
    using disk_output_read_line [where K = "ref_kapi 4096 8" and q = ref_page,
        OF ref_disk_wf(1,2) ref_printf_ok ref_init_ok]
    by (auto simp: ref_page_def)
qed

end
