(* ===== verification/TxStats.thy ===== *)
theory TxStats
  imports DiskUtils
begin

text \<open>
  The transmit statistics of module/trace_wperf_events.c: a bitmap of watched pids with a byte
  counter per pid, the five probes on the socket layer that feed it, and the control files
  \<open>enable\<close>, \<open>filter\<close> and \<open>output\<close> of \<open>tx_stat\<close>.
\<close>

section \<open>The probes on the socket layer\<close>

text \<open>
  The body the five handlers share: \<open>test_bit(current->pid, filter)\<close> and
  \<open>tx_stats[current->pid].bytes += size\<close>; both arrays have \<open>PID_MAX_LIMIT\<close> entries.
\<close>

definition tx_account :: "kctx \<Rightarrow> u64 \<Rightarrow> wperf \<Rightarrow> wperf res" where
  "tx_account c sz s =
     (let pid = t_pid (cur c) in
      if pid < 0 \<or> length (pid_filter s) \<le> nat pid then Inl OutOfBounds
      else if pid_filter s ! nat pid
           then if nat pid < length (tx_stats s)
                then Inr (s\<lparr>tx_stats := (tx_stats s)[nat pid := tx_stats s ! nat pid + sz]\<rparr>)
                else Inl OutOfBounds
           else Inr s)"

definition on_tcp_sendmsg_ent :: "kctx \<Rightarrow> u64 \<Rightarrow> wperf \<Rightarrow> wperf res" where
  "on_tcp_sendmsg_ent c sz s = tx_account c sz s"

definition on_udp_sendmsg_ent :: "kctx \<Rightarrow> u64 \<Rightarrow> wperf \<Rightarrow> wperf res" where
  "on_udp_sendmsg_ent c len s = tx_account c len s"

definition on_tcp_sendpage_ent :: "kctx \<Rightarrow> u64 \<Rightarrow> wperf \<Rightarrow> wperf res" where
  "on_tcp_sendpage_ent c sz s = tx_account c sz s"

definition on_udp_sendpage_ent :: "kctx \<Rightarrow> u64 \<Rightarrow> wperf \<Rightarrow> wperf res" where
  "on_udp_sendpage_ent c sz s = tx_account c sz s"

definition on_sock_sendmsg_ent :: "kctx \<Rightarrow> u64 \<Rightarrow> wperf \<Rightarrow> wperf res" where
  "on_sock_sendmsg_ent c sz s = tx_account c sz s"

lemmas tx_handler_defs = on_tcp_sendmsg_ent_def on_udp_sendmsg_ent_def on_tcp_sendpage_ent_def
  on_udp_sendpage_ent_def on_sock_sendmsg_ent_def

definition tx_jps :: "jprobe list" where
  "tx_jps = [Tcp_sendmsg_jp, Udp_sendmsg_jp, Tcp_sendpage_jp, Udp_sendpage_jp, Sock_sendmsg_jp]"

text \<open>Which handler a socket-layer probe runs; the other probes are not of this component.\<close>

fun tx_handler :: "jprobe \<Rightarrow> (kctx \<Rightarrow> u64 \<Rightarrow> wperf \<Rightarrow> wperf res) option" where
  "tx_handler Tcp_sendmsg_jp = Some on_tcp_sendmsg_ent"
| "tx_handler Udp_sendmsg_jp = Some on_udp_sendmsg_ent"
| "tx_handler Tcp_sendpage_jp = Some on_tcp_sendpage_ent"
| "tx_handler Udp_sendpage_jp = Some on_udp_sendpage_ent"
| "tx_handler Sock_sendmsg_jp = Some on_sock_sendmsg_ent"
| "tx_handler _ = None"

definition disable_tx_stat_probes :: "wperf \<Rightarrow> wperf" where
  "disable_tx_stat_probes s = fold disable_jprobe tx_jps s"

definition enable_tx_stat_probes :: "wperf \<Rightarrow> wperf" where
  "enable_tx_stat_probes s = fold enable_jprobe tx_jps s"

section \<open>The enable file\<close>

definition tx_stats_enable_read :: "wperf \<Rightarrow> int" where
  "tx_stats_enable_read s = (if tx_enabled s then 1 else 0)"

definition bitmap_zero :: "bool list \<Rightarrow> bool list" where
  "bitmap_zero bs = replicate (length bs) False"

definition tx_stats_enable_write :: "u64 \<Rightarrow> wperf \<Rightarrow> int \<times> wperf" where
  "tx_stats_enable_write val s =
     (let s1 = s\<lparr>tx_enabled := bool_at val\<rparr> in
      if \<not> tx_enabled s1
      then let s2 = disable_tx_stat_probes s1 in (0, s2\<lparr>pid_filter := bitmap_zero (pid_filter s2)\<rparr>)
      else (0, enable_tx_stat_probes s1))"

section \<open>The filter file\<close>

text \<open>\<open>for_each_set_bit\<close> visits the set bits in increasing order.\<close>

definition set_bits :: "bool list \<Rightarrow> nat list" where
  "set_bits bs = filter (\<lambda>n. bs ! n) [0..<length bs]"

definition end_line :: "kapi \<Rightarrow> nat \<Rightarrow> trace_seq \<Rightarrow> trace_seq res" where
  "end_line K m q = (if m = 0 then puts_seq (page_size K) q (''none'' @ [NL]) else trace_seq_nl q)"

definition tx_stats_filter_read :: "kapi \<Rightarrow> trace_seq \<Rightarrow> wperf \<Rightarrow> (int \<times> trace_seq) res" where
  "tx_stats_filter_read K q s =
     (let ns = set_bits (pid_filter s) in
      res_bind (print_each (trace_seq_printf K) (\<lambda>n. Inr (show_nat n @ '','')) ns q) (\<lambda>q1.
      res_bind (end_line K (length ns) q1) (\<lambda>q2. Inr (0, q2))))"

text \<open>\<open>bitmap_set(filter, pid, 1)\<close>.\<close>

definition bitmap_set_one :: "kapi \<Rightarrow> u64 \<Rightarrow> bool list \<Rightarrow> bool list res" where
  "bitmap_set_one K pid bs =
     (if bitmap_start K pid < length bs then Inr (bs[bitmap_start K pid := True])
      else Inl OutOfBounds)"

text \<open>The loop over the tokens; \<open>False\<close> is the jump to \<open>err\<close>.\<close>

function tx_stats_filter_loop :: "kapi \<Rightarrow> string option \<Rightarrow> wperf \<Rightarrow> (bool \<times> wperf) res" where
  "tx_stats_filter_loop K r s =
     (case strsep CHR '','' r of
        (None, _) \<Rightarrow> Inr (True, s)
      | (Some token, r') \<Rightarrow>
          if token = [] then tx_stats_filter_loop K r' s
          else (case kstrtoul K token of
                  Inl e \<Rightarrow> Inr (False, s)
                | Inr pid \<Rightarrow>
                    (case bitmap_set_one K pid (pid_filter s) of
                       Inl e \<Rightarrow> Inl e
                     | Inr bs \<Rightarrow> tx_stats_filter_loop K r' (s\<lparr>pid_filter := bs\<rparr>))))"
  by pat_completeness auto
termination
  by (relation "measure (\<lambda>(K, r, s). rest_size r)") (auto dest: strsep_decreases [OF sym])

declare tx_stats_filter_loop.simps [simp del]

text \<open>No path frees the copy; the error path leaves the probes disabled.\<close>

definition tx_stats_filter_write :: "kapi \<Rightarrow> bool \<Rightarrow> string \<Rightarrow> wperf \<Rightarrow> (int \<times> wperf) res" where
  "tx_stats_filter_write K kmem data s =
     (if \<not> kmem then Inr (- ENOMEM, s)
      else let s1 = disable_tx_stat_probes (s\<lparr>kbufs := Suc (kbufs s)\<rparr>) in
           res_bind (tx_stats_filter_loop K (Some (strstrip K (cstr data))) s1) (\<lambda>(fine, s2).
             if fine
             then Inr (0, if tx_enabled s2 then enable_tx_stat_probes s2 else s2)
             else Inr (- EINVAL, s2\<lparr>pid_filter := bitmap_zero (pid_filter s2)\<rparr>)))"

section \<open>The output file\<close>

definition pid_line :: "wperf \<Rightarrow> nat \<Rightarrow> string res" where
  "pid_line s n =
     (if n < length (tx_stats s) then Inr (show_nat n @ ''='' @ fmt_ld (tx_stats s ! n) @ '','')
      else Inl OutOfBounds)"

definition tx_stats_output_read :: "kapi \<Rightarrow> trace_seq \<Rightarrow> wperf \<Rightarrow> (int \<times> trace_seq \<times> wperf) res" where
  "tx_stats_output_read K q s =
     (let s1 = disable_tx_stat_probes s;
          ns = set_bits (pid_filter s1);
          s2 = (if tx_enabled s1 then enable_tx_stat_probes s1 else s1) in
      res_bind (print_each (trace_seq_printf K) (pid_line s1) ns q) (\<lambda>q1.
      res_bind (end_line K (length ns) q1) (\<lambda>q2. Inr (0, q2, s2))))"

definition tx_stats_output_write :: "string \<Rightarrow> wperf \<Rightarrow> int \<times> wperf" where
  "tx_stats_output_write data s = (- EPERM, s)"

section \<open>Invariant and abstraction\<close>

definition tx_wf :: "kapi \<Rightarrow> wperf \<Rightarrow> bool" where
  "tx_wf K s \<longleftrightarrow> length (pid_filter s) = pid_max_limit K \<and> length (tx_stats s) = pid_max_limit K"

definition watched :: "wperf \<Rightarrow> nat set" where
  "watched s = {n. n < length (pid_filter s) \<and> pid_filter s ! n}"

lemma set_set_bits: "set (set_bits (pid_filter s)) = watched s"
  by (auto simp: set_bits_def watched_def)

lemma watched_bitmap_zero [simp]: "watched (s\<lparr>pid_filter := bitmap_zero bs\<rparr>) = {}"
  by (auto simp: watched_def bitmap_zero_def)

lemma tx_wf_static: "tx_wf K (static_data K)"
  by (simp add: tx_wf_def static_data_def)

text \<open>Switching the five probes changes the log only.\<close>

lemma fold_switch_frame:
  "\<exists>p. fold enable_jprobe js s = s\<lparr>probes := p\<rparr>" "\<exists>p. fold disable_jprobe js s = s\<lparr>probes := p\<rparr>"
proof (induction js arbitrary: s)
  case Nil
  { case 1 show ?case by (rule exI [of _ "probes s"]) simp
  next case 2 show ?case by (rule exI [of _ "probes s"]) simp }
next
  case (Cons j js)
  { case 1 show ?case using Cons.IH(1) [of "enable_jprobe j s"] by auto
  next case 2 show ?case using Cons.IH(2) [of "disable_jprobe j s"] by auto }
qed

lemma tx_switch_frame [simp]:
  "pid_filter (enable_tx_stat_probes s) = pid_filter s" "pid_filter (disable_tx_stat_probes s) = pid_filter s"
  "tx_stats (enable_tx_stat_probes s) = tx_stats s" "tx_stats (disable_tx_stat_probes s) = tx_stats s"
  "tx_enabled (enable_tx_stat_probes s) = tx_enabled s" "tx_enabled (disable_tx_stat_probes s) = tx_enabled s"
  "kbufs (enable_tx_stat_probes s) = kbufs s" "kbufs (disable_tx_stat_probes s) = kbufs s"
  "dnames (enable_tx_stat_probes s) = dnames s" "dnames (disable_tx_stat_probes s) = dnames s"
  "dutils (enable_tx_stat_probes s) = dutils s" "dutils (disable_tx_stat_probes s) = dutils s"
  "didx (enable_tx_stat_probes s) = didx s" "didx (disable_tx_stat_probes s) = didx s"
  "denabled (enable_tx_stat_probes s) = denabled s" "denabled (disable_tx_stat_probes s) = denabled s"
  "watched (enable_tx_stat_probes s) = watched s" "watched (disable_tx_stat_probes s) = watched s"
  "tx_wf K (enable_tx_stat_probes s) = tx_wf K s" "tx_wf K (disable_tx_stat_probes s) = tx_wf K s"
  using fold_switch_frame(1) [of tx_jps s] fold_switch_frame(2) [of tx_jps s]
  by (auto simp: enable_tx_stat_probes_def disable_tx_stat_probes_def watched_def tx_wf_def)

lemma tx_switch_armed:
  "registered s \<Longrightarrow> armed (enable_tx_stat_probes s) j \<longleftrightarrow> j \<in> set tx_jps \<or> armed s j"
  "armed (disable_tx_stat_probes s) j \<longleftrightarrow> j \<notin> set tx_jps \<and> armed s j"
  "registered (enable_tx_stat_probes s) = registered s"
  "registered (disable_tx_stat_probes s) = registered s"
  by (simp_all add: enable_tx_stat_probes_def disable_tx_stat_probes_def jp.on_fold_enable
      jp.on_fold_disable jp.present_folds)

lemma armed_field_frame [simp]:
  "armed (s\<lparr>pid_filter := x\<rparr>) = armed s" "armed (s\<lparr>tx_enabled := b\<rparr>) = armed s"
  "armed (s\<lparr>kbufs := k\<rparr>) = armed s" "armed (s\<lparr>tx_stats := y\<rparr>) = armed s"
  "registered (s\<lparr>pid_filter := x\<rparr>) = registered s" "registered (s\<lparr>tx_enabled := b\<rparr>) = registered s"
  "registered (s\<lparr>kbufs := k\<rparr>) = registered s" "registered (s\<lparr>tx_stats := y\<rparr>) = registered s"
  by (simp_all add: armed_def registered_def fun_eq_iff)

section \<open>What the probes count\<close>

text \<open>
  A run of calls into the socket layer: each is one of the five probed functions, called in a
  context with a size; its handler runs when the probe is armed.
\<close>

fun tx_run :: "(jprobe \<times> kctx \<times> u64) list \<Rightarrow> wperf \<Rightarrow> wperf res" where
  "tx_run [] s = Inr s"
| "tx_run ((j, c, sz) # evs) s =
     (case tx_handler j of
        Some h \<Rightarrow> if armed s j then res_bind (h c sz s) (tx_run evs) else tx_run evs s
      | None \<Rightarrow> tx_run evs s)"

lemma tx_handler_account: "tx_handler j = Some h \<Longrightarrow> h = tx_account"
  by (cases j) (auto simp: tx_handler_defs fun_eq_iff)

lemma tx_handler_None: "tx_handler j = None \<longleftrightarrow> j \<notin> set tx_jps"
  by (cases j) (simp_all add: tx_jps_def)

text \<open>The sizes a run should have counted for a pid.\<close>

definition sizes_of :: "wperf \<Rightarrow> nat \<Rightarrow> (jprobe \<times> kctx \<times> u64) list \<Rightarrow> u64 list" where
  "sizes_of s p evs = [sz. (j, c, sz) \<leftarrow> evs, j \<in> set tx_jps \<and> armed s j \<and> nat (t_pid (cur c)) = p]"

definition pids_in_range :: "kapi \<Rightarrow> (jprobe \<times> kctx \<times> u64) list \<Rightarrow> bool" where
  "pids_in_range K evs \<longleftrightarrow>
     (\<forall>(j, c, sz) \<in> set evs. 0 \<le> t_pid (cur c) \<and> nat (t_pid (cur c)) < pid_max_limit K)"

lemma tx_account_spec:
  assumes "tx_wf K s" and "0 \<le> t_pid (cur c)" and "nat (t_pid (cur c)) < pid_max_limit K"
  shows "tx_account c sz s = Inr (if nat (t_pid (cur c)) \<in> watched s
    then s\<lparr>tx_stats := (tx_stats s)[nat (t_pid (cur c)) := tx_stats s ! nat (t_pid (cur c)) + sz]\<rparr> else s)"
  using assms by (simp add: tx_account_def tx_wf_def watched_def Let_def)

lemma tx_run_spec:
  "tx_wf K s \<Longrightarrow> pids_in_range K evs \<Longrightarrow>
   \<exists>us. tx_run evs s = Inr (s\<lparr>tx_stats := us\<rparr>) \<and> length us = pid_max_limit K \<and>
     (\<forall>p < pid_max_limit K. us ! p = tx_stats s ! p +
        (if p \<in> watched s then sum_list (sizes_of s p evs) else 0))"
proof (induction evs arbitrary: s)
  case Nil
  then show ?case by (auto simp: sizes_of_def tx_wf_def intro!: exI [of _ "tx_stats s"])
next
  case (Cons x evs)
  obtain j c sz where x: "x = (j, c, sz)" by (cases x)
  let ?p = "nat (t_pid (cur c))"
  let ?s = "if j \<in> set tx_jps \<and> armed s j \<and> ?p \<in> watched s
    then s\<lparr>tx_stats := (tx_stats s)[?p := tx_stats s ! ?p + sz]\<rparr> else s"
  from Cons.prems x have p: "0 \<le> t_pid (cur c)" "?p < pid_max_limit K" and r: "pids_in_range K evs"
    by (auto simp: pids_in_range_def)
  have run: "tx_run (x # evs) s = tx_run evs ?s"
    using tx_account_spec [OF Cons.prems(1) p, of sz] tx_handler_account [of j] tx_handler_None [of j]
    by (auto simp: x split: option.splits)
  have wf: "tx_wf K ?s" using Cons.prems(1) by (simp add: tx_wf_def)
  have same: "watched ?s = watched s" "sizes_of ?s q evs = sizes_of s q evs" for q
    by (simp_all add: watched_def sizes_of_def)
  from Cons.IH [OF wf r] obtain us where us: "tx_run evs ?s = Inr (?s\<lparr>tx_stats := us\<rparr>)"
    "length us = pid_max_limit K" "\<forall>p < pid_max_limit K. us ! p = tx_stats ?s ! p +
        (if p \<in> watched s then sum_list (sizes_of s p evs) else 0)"
    unfolding same by auto
  have "sizes_of s q (x # evs) =
      (if j \<in> set tx_jps \<and> armed s j \<and> ?p = q then [sz] else []) @ sizes_of s q evs" for q
    by (simp add: sizes_of_def x)
  with us Cons.prems(1) p show ?case
    unfolding run
    by (intro exI [of _ us]) (auto simp: tx_wf_def nth_list_update algebra_simps watched_def)
qed

text \<open>
  Accounting: over any run of the socket-layer functions, each watched pid's counter grows by
  the sum of the sizes of the calls made by that pid through armed probes, modulo \<open>2 ^ 64\<close>; the
  counters of unwatched pids, the bitmap and everything else stay as they were.
\<close>

theorem tx_accounting:
  assumes "tx_wf K s" and "pids_in_range K evs"
  shows "\<exists>us. tx_run evs s = Inr (s\<lparr>tx_stats := us\<rparr>) \<and>
     (\<forall>p < pid_max_limit K. us ! p = tx_stats s ! p +
        (if p \<in> watched s then sum_list (sizes_of s p evs) else 0))"
  using tx_run_spec [OF assms] by auto

section \<open>Enabling and disabling\<close>

text \<open>
  Writing 0 to \<open>enable\<close> disarms all five probes and forgets the watched pids, but keeps their
  byte counters; writing 1 arms all five and keeps the pids.
\<close>

theorem tx_enable_write:
  assumes "registered s"
  shows "(\<exists>s'. tx_stats_enable_write 0 s = (0, s') \<and> \<not> tx_enabled s' \<and> watched s' = {} \<and>
      tx_stats s' = tx_stats s \<and> (\<forall>j \<in> set tx_jps. \<not> armed s' j)) \<and>
    (\<exists>s'. tx_stats_enable_write 1 s = (0, s') \<and> tx_enabled s' \<and> watched s' = watched s \<and>
      tx_stats s' = tx_stats s \<and> (\<forall>j \<in> set tx_jps. armed s' j))"
  using assms by (simp add: tx_stats_enable_write_def tx_switch_armed watched_def Let_def)
    (simp add: bitmap_zero_def)

section \<open>Writing the filter\<close>

fun watch_all :: "kapi \<Rightarrow> string list \<Rightarrow> bool list \<Rightarrow> (bool \<times> bool list) res" where
  "watch_all K [] bs = Inr (True, bs)"
| "watch_all K (t # ts) bs =
     (case kstrtoul K t of Inl e \<Rightarrow> Inr (False, bs)
      | Inr pid \<Rightarrow> res_bind (bitmap_set_one K pid bs) (watch_all K ts))"

lemma tx_filter_loop_watch_all:
  "tx_stats_filter_loop K r s =
     res_bind (watch_all K (filter (\<lambda>t. t \<noteq> []) (tokens CHR '','' r)) (pid_filter s))
       (\<lambda>(fine, bs). Inr (fine, s\<lparr>pid_filter := bs\<rparr>))"
proof (induction K r s rule: tx_stats_filter_loop.induct)
  case (1 K r s)
  obtain tok r' where st: "strsep CHR '','' r = (tok, r')" by fastforce
  show ?case
  proof (cases tok)
    case None
    with st show ?thesis by (simp add: tx_stats_filter_loop.simps [of K r s] tokens.simps [of _ r])
  next
    case (Some t)
    with st 1 show ?thesis
      by (auto simp: tx_stats_filter_loop.simps [of K r s] tokens.simps [of _ r] split: sum.splits)
  qed
qed

text \<open>The bit a token stands for, when it is a number of the bitmap.\<close>

definition pid_token :: "kapi \<Rightarrow> string \<Rightarrow> nat \<Rightarrow> bool" where
  "pid_token K t n \<longleftrightarrow> n < pid_max_limit K \<and> (\<exists>w. kstrtoul K t = Inr w \<and> bitmap_start K w = n)"

lemma watch_all_pids:
  "list_all2 (pid_token K) ts ns \<Longrightarrow> length bs = pid_max_limit K \<Longrightarrow>
   \<exists>bs'. watch_all K (ts @ us) bs = watch_all K us bs' \<and> length bs' = length bs \<and>
     (\<forall>n < length bs. bs' ! n \<longleftrightarrow> bs ! n \<or> n \<in> set ns)"
proof (induction ts ns arbitrary: bs rule: list_all2_induct)
  case Nil
  then show ?case by auto
next
  case (Cons t ts n ns)
  then have n: "n < length bs" "watch_all K (t # ts @ us) bs = watch_all K (ts @ us) (bs[n := True])"
    by (auto simp: pid_token_def bitmap_set_one_def)
  moreover obtain bs' where "watch_all K (ts @ us) (bs[n := True]) = watch_all K us bs'"
    "length bs' = length bs" "\<forall>m < length bs. bs' ! m \<longleftrightarrow> bs[n := True] ! m \<or> m \<in> set ns"
    using Cons.IH [of "bs[n := True]"] Cons.prems by auto
  ultimately show ?case
    by (intro exI [of _ bs']) (auto simp: nth_list_update)
qed

definition tx_start :: "wperf \<Rightarrow> wperf" where
  "tx_start s = disable_tx_stat_probes (s\<lparr>kbufs := Suc (kbufs s)\<rparr>)"

lemma tx_filter_write_unfold:
  "tx_stats_filter_write K True data s =
     res_bind (watch_all K (filter_tokens K data) (pid_filter s)) (\<lambda>(fine, bs).
       let s2 = (tx_start s)\<lparr>pid_filter := bs\<rparr> in
       if fine then Inr (0, if tx_enabled s then enable_tx_stat_probes s2 else s2)
       else Inr (- EINVAL, s2\<lparr>pid_filter := bitmap_zero bs\<rparr>))"
  by (simp add: tx_stats_filter_write_def tx_filter_loop_watch_all tx_start_def filter_tokens_def
      written_names_def res_bind_assoc) (simp add: res_bind_def Let_def split: sum.splits prod.splits)

lemma tx_start_frame [simp]:
  "kbufs (tx_start s) = Suc (kbufs s)" "tx_enabled (tx_start s) = tx_enabled s"
  "tx_stats (tx_start s) = tx_stats s" "pid_filter (tx_start s) = pid_filter s"
  "registered (tx_start s) = registered s" "armed (tx_start s) j \<longleftrightarrow> j \<notin> set tx_jps \<and> armed s j"
  by (simp_all add: tx_start_def tx_switch_armed)

lemma tx_filter_write_pids:
  assumes "tx_wf K s" and "registered s" and "list_all2 (pid_token K) (filter_tokens K data) ns"
  shows "\<exists>s'. tx_stats_filter_write K True data s = Inr (0, s') \<and> tx_wf K s' \<and>
    watched s' = watched s \<union> set ns \<and> tx_stats s' = tx_stats s \<and> kbufs s' = Suc (kbufs s) \<and>
    (\<forall>j \<in> set tx_jps. armed s' j \<longleftrightarrow> tx_enabled s)"
proof -
  from assms(1) have len: "length (pid_filter s) = pid_max_limit K" by (simp add: tx_wf_def)
  have "\<forall>n \<in> set ns. n < pid_max_limit K"
    using assms(3) by (auto simp: list_all2_conv_all_nth in_set_conv_nth pid_token_def)
  with watch_all_pids [OF assms(3) len, of "[]"] len assms(1,2) show ?thesis
    by (auto simp: tx_filter_write_unfold tx_wf_def watched_def tx_switch_armed Let_def)
qed

text \<open>
  Writing a list of pids to the filter returns 0 and adds exactly these pids to the watched
  ones; no counter changes, the five probes end up armed exactly when \<open>enable\<close> is on, and the copy
  of the text is never freed.
\<close>

theorem tx_filter_write_adds:
  assumes "tx_wf K s" and "registered s" and "list_all2 (pid_token K) (filter_tokens K data) ns"
  shows "\<exists>s'. tx_stats_filter_write K True data s = Inr (0, s') \<and> tx_wf K s' \<and>
    watched s' = watched s \<union> set ns \<and> tx_stats s' = tx_stats s \<and> kbufs s' = Suc (kbufs s) \<and>
    (\<forall>j \<in> set tx_jps. armed s' j \<longleftrightarrow> tx_enabled s)"
  using assms by (rule tx_filter_write_pids)

text \<open>
  A token that is not a number ends the write with \<open>-EINVAL\<close>: every pid is forgotten, also those
  watched before, and all five probes stay disarmed while \<open>enable\<close> still reads as before; the copy
  of the text is never freed.
\<close>

theorem tx_filter_write_bad_token:
  assumes "tx_wf K s" and "filter_tokens K data = ts @ t # us"
    and "list_all2 (pid_token K) ts ns" and "kstrtoul K t = Inl e"
  shows "\<exists>s'. tx_stats_filter_write K True data s = Inr (- EINVAL, s') \<and> tx_wf K s' \<and>
    watched s' = {} \<and> tx_enabled s' = tx_enabled s \<and> kbufs s' = Suc (kbufs s) \<and>
    (\<forall>j \<in> set tx_jps. \<not> armed s' j)"
proof -
  from assms(1) have len: "length (pid_filter s) = pid_max_limit K" by (simp add: tx_wf_def)
  with watch_all_pids [OF assms(3) len, of "t # us"] assms show ?thesis
    by (auto simp: tx_filter_write_unfold tx_wf_def Let_def) (auto simp: bitmap_zero_def)
qed

text \<open>
  Nothing checks a number against the size of the bitmap: a token that reads as a pid at or
  beyond \<open>PID_MAX_LIMIT\<close> sets a bit outside it.
\<close>

theorem tx_filter_write_overflow:
  assumes "tx_wf K s" and "filter_tokens K data = ts @ t # us"
    and "list_all2 (pid_token K) ts ns" and "kstrtoul K t = Inr w"
    and "pid_max_limit K \<le> bitmap_start K w"
  shows "tx_stats_filter_write K True data s = Inl OutOfBounds"
proof -
  from assms(1) have len: "length (pid_filter s) = pid_max_limit K" by (simp add: tx_wf_def)
  with watch_all_pids [OF assms(3) len, of "t # us"] assms show ?thesis
    by (auto simp: tx_filter_write_unfold bitmap_set_one_def)
qed

section \<open>Reading the filter and the output\<close>

lemma set_bits_sorted: "set_bits (pid_filter s) = sorted_list_of_set (watched s)"
proof -
  have "sorted (set_bits bs) \<and> distinct (set_bits bs)" for bs
    by (simp add: set_bits_def sorted_wrt_filter)
  then show ?thesis
    by (metis set_set_bits sorted_list_of_set.idem_if_sorted_distinct)
qed

text \<open>
  A line printed item by item with a comma after each, its last comma turned into a newline: what
  the page has no room for is dropped by whole items.
\<close>

lemma write_comma_line:
  assumes "printf_ok K" and "seq_wf (page_size K) q" and "\<not> seq_full q" and "seq_text q = []"
    and "ss \<noteq> []" and "\<forall>s \<in> set ss. s \<noteq> [] \<and> nul_free s \<and> length s + 2 < page_size K \<and> length s < 1000"
  shows "\<exists>q1 q2 k. write_all (trace_seq_printf K) q (map (\<lambda>s. s @ '','') ss) = Inr q1 \<and>
    end_line K (length ss) q1 = Inr q2 \<and> seq_text q2 = join CHR '','' (take k ss) @ [NL] \<and>
    0 < k \<and> k \<le> length ss \<and> (length (join CHR '','' ss) + 2 < page_size K \<longrightarrow> k = length ss)"
proof -
  let ?ts = "map (\<lambda>s. s @ '','') ss"
  have small: "small_strings ?ts"
    using assms(6) by (auto simp: small_strings_def)
  have space: "seq_space (page_size K) q = page_size K - 1"
    using assms(2,4) by (simp add: seq_space_text)
  have conc: "concat (map (\<lambda>s. s @ '','') us) = join CHR '','' us @ '',''" if "us \<noteq> []" for us
    using that by (rule concat_map_sep)
  obtain s1 where hd: "s1 \<in> set ss" "hd ?ts = s1 @ '',''"
    using assms(5) by (cases ss) auto
  with assms(6) have first: "length (hd ?ts) < page_size K - 1" by fastforce
  from assms(1) have "seq_writer (page_size K) (trace_seq_printf K)" by (simp add: printf_ok_def)
  from seq_writer.write_all_any [OF this assms(2) small] first space assms(3,4,5)
  obtain q1 us where q1: "write_all (trace_seq_printf K) q ?ts = Inr q1" "seq_wf (page_size K) q1"
    "prefix us ?ts" "seq_text q1 = concat us" "us \<noteq> []"
    "length (concat ?ts) < page_size K - 1 \<longrightarrow> us = ?ts" by auto
  define k where "k = length us"
  have us: "us = map (\<lambda>s. s @ '','') (take k ss)"
    using q1(3) by (auto simp: prefix_def k_def take_map [symmetric])
  have k: "0 < k" "k \<le> length ss"
    using q1(3,5) prefix_length_le [OF q1(3)] by (auto simp: k_def)
  then have ne: "take k ss \<noteq> []" using assms(5) by simp
  then have written: "seq_text q1 = join CHR '','' (take k ss) @ '',''"
    unfolding q1(4) us by (rule conc)
  have "join CHR '','' (take k ss) \<noteq> []"
    using ne assms(6) set_take_subset [of k ss]
    by (cases "take k ss" rule: remdups_adj.cases) auto
  then have "2 \<le> length (seq_text q1)"
    using written by (cases "join CHR '','' (take k ss)") auto
  with trace_seq_nl_text [OF q1(2)] written assms(5) obtain q2 where
    q2: "end_line K (length ss) q1 = Inr q2" "seq_text q2 = join CHR '','' (take k ss) @ [NL]"
    by (auto simp: end_line_def)
  have "length (join CHR '','' ss) + 2 < page_size K \<Longrightarrow> k = length ss"
    using q1(6) conc [OF assms(5)] by (auto simp: k_def)
  with q1(1) q2 k show ?thesis by blast
qed

lemma length_show_small: "n < 2 ^ 64 \<Longrightarrow> length (show_nat n) \<le> 20"
  using length_show_nat [of n 19] by simp

lemma digit_not_space: "is_digit c \<Longrightarrow> \<not> is_space c"
  by (auto simp: is_digit_def is_space_def)

lemma show_nat_plain: "plain_name (show_nat n)"
  unfolding plain_name_def using show_nat_digits digit_not_space by simp

text \<open>
  What a reader finds for a list of items: \<open>none\<close> for the empty list, and otherwise at least one
  item from the front, all of them when they fit a page.
\<close>

definition page_line :: "nat \<Rightarrow> string list \<Rightarrow> string \<Rightarrow> bool" where
  "page_line p ss t \<longleftrightarrow>
     (if ss = [] then t = ''none'' @ [NL]
      else \<exists>k > 0. k \<le> length ss \<and> t = join CHR '','' (take k ss) @ [NL] \<and>
        (length (join CHR '','' ss) + 2 < p \<longrightarrow> k = length ss))"

lemma print_line:
  assumes "printf_ok K" and "seq_init_ok K" and "length (seq_buffer q) = page_size K" and "64 \<le> page_size K"
    and "\<forall>n \<in> set ns. f n = Inr (item n @ '','') \<and> item n \<noteq> [] \<and> nul_free (item n) \<and> length (item n) \<le> 42"
  shows "\<exists>q1 q2. print_each (trace_seq_printf K) f ns (trace_seq_init K q) = Inr q1 \<and>
    end_line K (length ns) q1 = Inr q2 \<and> page_line (page_size K) (map item ns) (seq_text q2)"
proof -
  let ?q = "trace_seq_init K q"
  have q: "seq_wf (page_size K) ?q" "seq_text ?q = []" "\<not> seq_full ?q"
    using assms(2,3) by (auto simp: seq_init_ok_def)
  have each: "print_each (trace_seq_printf K) f ns ?q =
      write_all (trace_seq_printf K) ?q (map (\<lambda>t. t @ '','') (map item ns))"
    using assms(5) by (simp add: print_each_write_all [where g = "\<lambda>n. item n @ '',''"] comp_def)
  show ?thesis
  proof (cases "ns = []")
    case True
    then show ?thesis
      using write_none [OF assms(2,3,4)] by (auto simp: end_line_def page_line_def)
  next
    case False
    have "\<forall>s \<in> set (map item ns). s \<noteq> [] \<and> nul_free s \<and> length s + 2 < page_size K \<and> length s < 1000"
      using assms(4,5) by fastforce
    moreover have "map item ns \<noteq> []" using False by simp
    ultimately obtain q1 q2 k where
      "write_all (trace_seq_printf K) ?q (map (\<lambda>t. t @ '','') (map item ns)) = Inr q1"
      "end_line K (length (map item ns)) q1 = Inr q2"
      "seq_text q2 = join CHR '','' (take k (map item ns)) @ [NL]" "0 < k" "k \<le> length (map item ns)"
      "length (join CHR '','' (map item ns)) + 2 < page_size K \<longrightarrow> k = length (map item ns)"
      using write_comma_line [OF assms(1) q(1,3,2)] by blast
    moreover from this False have "page_line (page_size K) (map item ns) (seq_text q2)"
      by (simp add: page_line_def) (intro exI [of _ k], simp)
    ultimately show ?thesis unfolding each length_map by blast
  qed
qed

lemma show_nat_item:
  "n < pid_max_limit K \<Longrightarrow> pid_max_limit K \<le> 2 ^ 31 \<Longrightarrow> show_nat n \<noteq> [] \<and> nul_free (show_nat n) \<and> length (show_nat n) \<le> 20"
  using length_show_small [of n] by simp

lemma tx_filter_read_line:
  assumes "tx_wf K s" and "printf_ok K" and "seq_init_ok K" and "pid_max_limit K \<le> 2 ^ 31"
    and "length (seq_buffer q) = page_size K" and "64 \<le> page_size K"
  shows "\<exists>q'. tx_stats_filter_read K (trace_seq_init K q) s = Inr (0, q') \<and>
    page_line (page_size K) (map show_nat (sorted_list_of_set (watched s))) (seq_text q')"
proof -
  have fin: "finite (watched s)" by (simp add: watched_def)
  have "\<forall>n \<in> set (sorted_list_of_set (watched s)). (\<lambda>n. Inr (show_nat n @ '','')) n = Inr (show_nat n @ '','') \<and>
      show_nat n \<noteq> [] \<and> nul_free (show_nat n) \<and> length (show_nat n) \<le> 42"
    using show_nat_item [of _ K] assms(1,4) fin by (fastforce simp: watched_def tx_wf_def)
  from print_line [OF assms(2,3,5,6) this] show ?thesis
    unfolding tx_stats_filter_read_def set_bits_sorted Let_def by auto
qed

text \<open>A list of pids as it is written, with or without the NUL behind it.\<close>

lemma pid_tokens_join:
  assumes "strip_ok K" and "strtoul_ok K" and "bitmap_start_ok K" and "pid_max_limit K \<le> 2 ^ 31"
    and "ns \<noteq> []" and "\<forall>n \<in> set ns. n < pid_max_limit K"
  shows "list_all2 (pid_token K) (filter_tokens K (join CHR '','' (map show_nat ns) @ [NL])) ns"
proof -
  have "list_all plain_name (map show_nat ns)"
    by (simp add: list_all_iff show_nat_plain)
  then have toks: "filter_tokens K (join CHR '','' (map show_nat ns) @ [NL]) = map show_nat ns"
    using assms(1,5) by (intro filter_tokens_join) auto
  have "pid_token K (show_nat n) n" if "n \<in> set ns" for n
  proof -
    from that assms(4,6) have "n < 2 ^ 31" by fastforce
    moreover from this have "unat (word_of_nat n :: u64) = n" by (simp add: unat_word_of_nat_small)
    ultimately show ?thesis
      using assms(2,3,6) that by (auto simp: pid_token_def strtoul_ok_def bitmap_start_ok_def)
  qed
  then show ?thesis by (simp add: toks list_all2_conv_all_nth)
qed

lemma filter_tokens_NUL: "filter_tokens K (data @ [NUL]) = filter_tokens K data"
proof -
  have "cstr (data @ [NUL]) = cstr data" by (induction data) (simp_all add: cstr_def)
  then show ?thesis by (simp add: filter_tokens_def)
qed

text \<open>
  C33: Round trip of the pid filter: with no pid watched, after a write of a list of pids separated
  by commas and ended by a newline, a read gives the pids in increasing order without repetition
  and a newline; when the line is longer than a page, whole pids are dropped from its end.
\<close>

theorem tx_filter_roundtrip:
  assumes "tx_wf K s" and "registered s" and "watched s = {}"
    and "strip_ok K" and "strtoul_ok K" and "bitmap_start_ok K" and "printf_ok K" and "seq_init_ok K"
    and "length (seq_buffer q) = page_size K" and "64 \<le> page_size K" and "pid_max_limit K \<le> 2 ^ 31"
    and "ns \<noteq> []" and "\<forall>n \<in> set ns. n < pid_max_limit K"
  shows "\<exists>s' q'. tx_stats_filter_write K True (join CHR '','' (map show_nat ns) @ [NL]) s = Inr (0, s') \<and>
    tx_stats_filter_read K (trace_seq_init K q) s' = Inr (0, q') \<and>
    page_line (page_size K) (map show_nat (sorted_list_of_set (set ns))) (seq_text q')"
proof -
  have "list_all2 (pid_token K) (filter_tokens K (join CHR '','' (map show_nat ns) @ [NL])) ns"
    by (rule pid_tokens_join [OF assms(4-6,11-13)])
  from tx_filter_write_pids [OF assms(1,2) this] obtain s' where
    w: "tx_stats_filter_write K True (join CHR '','' (map show_nat ns) @ [NL]) s = Inr (0, s')"
    "tx_wf K s'" "watched s' = set ns"
    using assms(3) by auto
  with tx_filter_read_line [OF w(2) assms(7,8,11,9,10)] show ?thesis by auto
qed

definition bytes_text :: "wperf \<Rightarrow> nat \<Rightarrow> string" where
  "bytes_text s n = show_nat n @ ''='' @ fmt_ld (tx_stats s ! n)"

lemma pid_line_text: "tx_wf K s \<Longrightarrow> n \<in> watched s \<Longrightarrow> pid_line s n = Inr (bytes_text s n @ '','')"
  by (auto simp: pid_line_def bytes_text_def watched_def tx_wf_def)

lemma tx_output_read_page:
  assumes "tx_wf K s" and "registered s" and "printf_ok K" and "seq_init_ok K"
    and "length (seq_buffer q) = page_size K" and "64 \<le> page_size K" and "pid_max_limit K \<le> 2 ^ 31"
  shows "\<exists>s' q'. tx_stats_output_read K (trace_seq_init K q) s = Inr (0, q', s') \<and>
    page_line (page_size K) (map (bytes_text s) (sorted_list_of_set (watched s))) (seq_text q') \<and>
    (\<exists>p. s' = s\<lparr>probes := p\<rparr>) \<and> registered s' \<and>
    (\<forall>j. armed s' j \<longleftrightarrow> (if j \<in> set tx_jps then tx_enabled s else armed s j))"
proof -
  let ?s1 = "disable_tx_stat_probes s" and ?ns = "sorted_list_of_set (watched s)"
  let ?s2 = "if tx_enabled s then enable_tx_stat_probes ?s1 else ?s1"
  have fin: "finite (watched s)" by (simp add: watched_def)
  have "pid_line ?s1 n = Inr (bytes_text s n @ '','') \<and> bytes_text s n \<noteq> [] \<and>
      nul_free (bytes_text s n) \<and> length (bytes_text s n) \<le> 42" if "n \<in> set ?ns" for n
    using that pid_line_text [of K ?s1 n] show_nat_item [of n K] length_fmt_ld [of "tx_stats s ! n"] assms(1,7) fin
    by (auto simp: bytes_text_def watched_def tx_wf_def)
  with print_line [OF assms(3-6), of ?ns "pid_line ?s1" "bytes_text s"] obtain q1 q2 where
    "print_each (trace_seq_printf K) (pid_line ?s1) ?ns (trace_seq_init K q) = Inr q1"
    "end_line K (length ?ns) q1 = Inr q2" "page_line (page_size K) (map (bytes_text s) ?ns) (seq_text q2)"
    by blast
  then have "tx_stats_output_read K (trace_seq_init K q) s = Inr (0, q2, ?s2)"
    "page_line (page_size K) (map (bytes_text s) ?ns) (seq_text q2)"
    by (simp_all add: tx_stats_output_read_def set_bits_sorted Let_def)
  moreover have "\<exists>p. ?s2 = s\<lparr>probes := p\<rparr>"
    using fold_switch_frame(1) [of tx_jps ?s1] fold_switch_frame(2) [of tx_jps s]
    by (auto simp: enable_tx_stat_probes_def disable_tx_stat_probes_def)
  moreover have "registered ?s2" "\<forall>j. armed ?s2 j \<longleftrightarrow> (if j \<in> set tx_jps then tx_enabled s else armed s j)"
    using assms(2) by (auto simp: tx_switch_armed)
  ultimately show ?thesis by blast
qed

text \<open>
  Reading the output gives \<open>pid=bytes\<close> for each watched pid in increasing order, ended by a
  newline (whole entries are dropped from the end of a line longer than a page), or \<open>none\<close>; only
  the probe log changes, and the read leaves the five probes armed exactly when \<open>enable\<close> is on.
\<close>

theorem tx_output_read_line:
  assumes "tx_wf K s" and "registered s" and "printf_ok K" and "seq_init_ok K"
    and "length (seq_buffer q) = page_size K" and "64 \<le> page_size K" and "pid_max_limit K \<le> 2 ^ 31"
  shows "\<exists>s' q'. tx_stats_output_read K (trace_seq_init K q) s = Inr (0, q', s') \<and>
    page_line (page_size K) (map (bytes_text s) (sorted_list_of_set (watched s))) (seq_text q') \<and>
    (\<exists>p. s' = s\<lparr>probes := p\<rparr>) \<and> registered s' \<and>
    (\<forall>j. armed s' j \<longleftrightarrow> (if j \<in> set tx_jps then tx_enabled s else armed s j))"
  using assms by (rule tx_output_read_page)

section \<open>Witnesses\<close>

definition ref_tx :: wperf where
  "ref_tx = (static_data (ref_kapi 64 8))\<lparr>tx_enabled := True,
     pid_filter := (replicate 8 False)[3 := True], tx_stats := (replicate 8 0)[3 := 40],
     probes := [Register_jprobes]\<rparr>"

lemma ref_tx_wf [simp]: "tx_wf (ref_kapi 64 8) ref_tx" "registered ref_tx" "tx_enabled ref_tx"
    "armed ref_tx j" "watched ref_tx = {3}" "tx_stats ref_tx ! 3 = 40" "kbufs ref_tx = 0"
  by (auto simp: ref_tx_def tx_wf_def static_data_def registered_def armed_def watched_def
      numeral_eq_Suc nth_Cons less_Suc_eq)

theorem tx_accounting_witness:
  "\<exists>us. tx_run [(Tcp_sendmsg_jp, ref_ctx 0 3 0, 100), (Udp_sendmsg_jp, ref_ctx 0 2 0, 7),
      (Sock_sendmsg_jp, ref_ctx 1 3 0, 100)] ref_tx = Inr (ref_tx\<lparr>tx_stats := us\<rparr>) \<and> us ! 3 = 240"
proof -
  let ?evs = "[(Tcp_sendmsg_jp, ref_ctx 0 3 0, 100), (Udp_sendmsg_jp, ref_ctx 0 2 0, 7),
      (Sock_sendmsg_jp, ref_ctx 1 3 0, 100)]"
  have p: "pids_in_range (ref_kapi 64 8) ?evs" by (simp add: pids_in_range_def)
  have "sizes_of ref_tx 3 ?evs = [100, 100]" by (simp add: sizes_of_def tx_jps_def)
  with tx_accounting [OF ref_tx_wf(1) p] show ?thesis by fastforce
qed

theorem tx_enable_write_witness:
  "\<exists>s'. tx_stats_enable_write 0 ref_tx = (0, s') \<and> watched s' = {} \<and> tx_stats s' ! 3 = 40"
  using tx_enable_write [OF ref_tx_wf(2)] by fastforce

lemma ref_pid_token: "n < 8 \<Longrightarrow> pid_token (ref_kapi 64 8) (show_nat n) n"
  using ref_strtoul_ok [of 64 8] by (auto simp: pid_token_def strtoul_ok_def unat_word_of_nat_small)

lemma ref_show: "show_nat 5 = ''5''" "show_nat 7 = ''7''" "show_nat 9 = ''9''"
  by (simp add: show_nat.simps digit_def, code_simp)+

theorem tx_filter_write_adds_witness:
  "\<exists>s'. tx_stats_filter_write (ref_kapi 64 8) True (''7,5'' @ [NL]) ref_tx = Inr (0, s') \<and>
    watched s' = {3, 5, 7} \<and> kbufs s' = 1 \<and> (\<forall>j \<in> set tx_jps. armed s' j)"
proof -
  have t: "filter_tokens (ref_kapi 64 8) (''7,5'' @ [NL]) = [''7'', ''5'']"
    using ref_tokens [of "[''7'', ''5'']"] by (simp add: plain_name_def is_space_def)
  have "list_all2 (pid_token (ref_kapi 64 8)) (filter_tokens (ref_kapi 64 8) (''7,5'' @ [NL])) [7, 5]"
    using ref_pid_token [of 7] ref_pid_token [of 5] unfolding t by (simp add: ref_show)
  from tx_filter_write_adds [OF ref_tx_wf(1,2) this] show ?thesis by auto
qed

theorem tx_filter_write_bad_token_witness:
  "\<exists>s'. tx_stats_filter_write (ref_kapi 64 8) True (''7,x'' @ [NL]) ref_tx = Inr (- EINVAL, s') \<and>
    watched s' = {} \<and> tx_enabled s' \<and> (\<forall>j \<in> set tx_jps. \<not> armed s' j)"
proof -
  have t: "filter_tokens (ref_kapi 64 8) (''7,x'' @ [NL]) = [''7''] @ ''x'' # []"
    using ref_tokens [of "[''7'', ''x'']"] by (simp add: plain_name_def is_space_def)
  have l: "list_all2 (pid_token (ref_kapi 64 8)) [''7''] [7]"
    using ref_pid_token [of 7] by (simp add: ref_show)
  have e: "kstrtoul (ref_kapi 64 8) ''x'' = Inl (- EINVAL)"
    by (simp add: ref_strtoul_def is_digit_def)
  from tx_filter_write_bad_token [OF ref_tx_wf(1) t l e] show ?thesis by auto
qed

theorem tx_filter_write_overflow_witness:
  "tx_stats_filter_write (ref_kapi 64 8) True (''7,9'' @ [NL]) ref_tx = Inl OutOfBounds"
proof -
  have t: "filter_tokens (ref_kapi 64 8) (''7,9'' @ [NL]) = [''7''] @ ''9'' # []"
    using ref_tokens [of "[''7'', ''9'']"] by (simp add: plain_name_def is_space_def)
  have l: "list_all2 (pid_token (ref_kapi 64 8)) [''7''] [7]"
    using ref_pid_token [of 7] by (simp add: ref_show)
  have e: "kstrtoul (ref_kapi 64 8) ''9'' = Inr 9"
    using ref_strtoul_ok [of 64 8] spec [of _ "9::nat"] by (auto simp: strtoul_ok_def simp flip: ref_show)
  from tx_filter_write_overflow [OF ref_tx_wf(1) t l e] show ?thesis by simp
qed

theorem tx_filter_roundtrip_witness:
  "\<exists>s' q'. tx_stats_filter_write (ref_kapi 64 8) True (''7,5'' @ [NL])
      (ref_tx\<lparr>pid_filter := replicate 8 False\<rparr>) = Inr (0, s') \<and>
    tx_stats_filter_read (ref_kapi 64 8) (trace_seq_init (ref_kapi 64 8) ref_seq) s' = Inr (0, q') \<and>
    seq_text q' = ''5,7'' @ [NL]"
proof -
  let ?s = "ref_tx\<lparr>pid_filter := replicate 8 False\<rparr>"
  have "tx_wf (ref_kapi 64 8) ?s" "registered ?s" "watched ?s = {}"
    using ref_tx_wf(1) by (auto simp: tx_wf_def watched_def)
  from tx_filter_roundtrip [where K = "ref_kapi 64 8" and q = ref_seq and ns = "[7, 5]",
      OF this ref_strip_ok ref_strtoul_ok ref_bitmap_start_ok ref_printf_ok ref_init_ok]
  show ?thesis by (auto simp: ref_seq_def ref_show page_line_def)
qed

theorem tx_output_read_line_witness:
  "\<exists>s' q'. tx_stats_output_read (ref_kapi 64 8) (trace_seq_init (ref_kapi 64 8) ref_seq) ref_tx = Inr (0, q', s') \<and>
    seq_text q' = bytes_text ref_tx 3 @ [NL] \<and> armed s' Udp_sendpage_jp"
proof -
  have "length (bytes_text ref_tx 3) \<le> 42"
    using length_show_small [of 3] length_fmt_ld [of 40] by (simp add: bytes_text_def)
  then show ?thesis
    using tx_output_read_line [where K = "ref_kapi 64 8" and q = ref_seq,
        OF ref_tx_wf(1,2) ref_printf_ok ref_init_ok]
    by (fastforce simp: ref_seq_def page_line_def tx_jps_def)
qed

end
