(* ===== verification/DebugFs.thy ===== *)
theory DebugFs
  imports TxStats
begin

text \<open>
  The files of module/trace_wperf_events.c under debugfs: the generic read and write functions
  that stand between user space and the operations of the two components, the tables that tie
  them to the files, and the loading and unloading of the module.
\<close>

section \<open>The tables of operations\<close>

text \<open>
  Each file has generic file operations by its name (\<open>enable\<close>, \<open>filter\<close>, \<open>output\<close>) and
  operations of its own by its directory; an inode's \<open>i_private\<close> says which directory.
\<close>

fun enable_ops_read :: "ev_dir \<Rightarrow> wperf \<Rightarrow> int" where
  "enable_ops_read Disk_utils s = dutils_enable_read s"
| "enable_ops_read Tx_stat s = tx_stats_enable_read s"

fun enable_ops_write :: "ev_dir \<Rightarrow> u64 \<Rightarrow> wperf \<Rightarrow> (int \<times> wperf) res" where
  "enable_ops_write Disk_utils v s = dutils_enable_write v s"
| "enable_ops_write Tx_stat v s = Inr (tx_stats_enable_write v s)"

fun filter_ops_read :: "kapi \<Rightarrow> ev_dir \<Rightarrow> trace_seq \<Rightarrow> wperf \<Rightarrow> (int \<times> trace_seq \<times> wperf) res" where
  "filter_ops_read K Disk_utils q s = res_bind (dutils_filter_read K q s) (\<lambda>(r, q'). Inr (r, q', s))"
| "filter_ops_read K Tx_stat q s = res_bind (tx_stats_filter_read K q s) (\<lambda>(r, q'). Inr (r, q', s))"

fun filter_ops_write :: "kapi \<Rightarrow> bool \<Rightarrow> ev_dir \<Rightarrow> string \<Rightarrow> wperf \<Rightarrow> (int \<times> wperf) res" where
  "filter_ops_write K kmem Disk_utils data s = dutils_filter_write K kmem data s"
| "filter_ops_write K kmem Tx_stat data s = tx_stats_filter_write K kmem data s"

fun output_ops_read :: "kapi \<Rightarrow> ev_dir \<Rightarrow> trace_seq \<Rightarrow> wperf \<Rightarrow> (int \<times> trace_seq \<times> wperf) res" where
  "output_ops_read K Disk_utils q s = dutils_output_read K q s"
| "output_ops_read K Tx_stat q s = tx_stats_output_read K q s"

section \<open>The generic functions\<close>

text \<open>
  What can fail around a call: the allocations, with the bytes a fresh \<open>trace_seq\<close> holds, and the
  copy from user space.
\<close>

record io_env =
  seq_mem :: "trace_seq option"
  page_mem :: bool
  copy_ok :: bool
  dup_mem :: bool

text \<open>A read gives its result, the bytes that reached the user, the new file position and the state.\<close>

type_synonym read_res = "(int \<times> string \<times> int \<times> wperf) res"

text \<open>\<open>DEF_READ_GENERIC(name)\<close>, over the \<open>ops->read\<close> of the file.\<close>

definition read_generic ::
    "kapi \<Rightarrow> io_env \<Rightarrow> (ev_dir \<Rightarrow> trace_seq \<Rightarrow> wperf \<Rightarrow> (int \<times> trace_seq \<times> wperf) res)
      \<Rightarrow> ev_dir option \<Rightarrow> nat \<Rightarrow> int \<Rightarrow> wperf \<Rightarrow> read_res" where
  "read_generic K E ops_read ef cnt pos s =
     (if pos \<noteq> 0 then Inr (0, [], pos, s)
      else case seq_mem E of
        None \<Rightarrow> Inr (- ENOMEM, [], pos, s)
      | Some q \<Rightarrow> (case ef of
          None \<Rightarrow> Inr (- ENODEV, [], pos, s)
        | Some d \<Rightarrow> res_bind (ops_read d (trace_seq_init K q) s) (\<lambda>(_, q', s').
            case simple_read_from_buffer K cnt pos (seq_text q') of
              (r, out, pos') \<Rightarrow> Inr (r, out, pos', s'))))"

definition filter_read_generic ::
    "kapi \<Rightarrow> io_env \<Rightarrow> ev_dir option \<Rightarrow> nat \<Rightarrow> int \<Rightarrow> wperf \<Rightarrow> read_res" where
  "filter_read_generic K E ef cnt pos s = read_generic K E (filter_ops_read K) ef cnt pos s"

definition output_read_generic ::
    "kapi \<Rightarrow> io_env \<Rightarrow> ev_dir option \<Rightarrow> nat \<Rightarrow> int \<Rightarrow> wperf \<Rightarrow> read_res" where
  "output_read_generic K E ef cnt pos s = read_generic K E (output_ops_read K) ef cnt pos s"

definition enable_read_generic ::
    "kapi \<Rightarrow> ev_dir option \<Rightarrow> nat \<Rightarrow> int \<Rightarrow> wperf \<Rightarrow> read_res" where
  "enable_read_generic K ef cnt pos s =
     (case ef of
        None \<Rightarrow> Inl NullDeref
      | Some d \<Rightarrow>
          let st = enable_ops_read d s in
          if 0 \<le> st \<and> st < 2
          then (case simple_read_from_buffer K cnt pos [''01'' ! nat st, NL] of
                  (r, out, pos') \<Rightarrow> Inr (r, out, pos', s))
          else Inl OutOfBounds)"

text \<open>A write is given the \<open>cnt\<close> bytes at \<open>ubuf\<close>; it gives its result, the new position, the state.\<close>

definition enable_write_generic ::
    "kapi \<Rightarrow> ev_dir option \<Rightarrow> string \<Rightarrow> int \<Rightarrow> wperf \<Rightarrow> (int \<times> int \<times> wperf) res" where
  "enable_write_generic K ef ubuf pos s =
     (case kstrtoul_from_user K ubuf of
        Inl ret \<Rightarrow> Inr (ret, pos, s)
      | Inr val \<Rightarrow>
          if val = 0 \<or> val = 1
          then res_bind (case ef of None \<Rightarrow> Inr (- ENODEV, s) | Some d \<Rightarrow> enable_ops_write d val s)
                 (\<lambda>(ret, s'). Inr (if ret \<noteq> 0 then ret else int (length ubuf),
                                   pos + int (length ubuf), s'))
          else Inr (- EINVAL, pos, s))"

definition filter_write_generic ::
    "kapi \<Rightarrow> io_env \<Rightarrow> ev_dir option \<Rightarrow> string \<Rightarrow> int \<Rightarrow> wperf \<Rightarrow> (int \<times> int \<times> wperf) res" where
  "filter_write_generic K E ef ubuf pos s =
     (if page_size K \<le> length ubuf then Inr (- EINVAL, pos, s)
      else if \<not> page_mem E then Inr (- ENOMEM, pos, s)
      else if \<not> copy_ok E then Inr (- EFAULT, pos, s)
      else case ef of
        None \<Rightarrow> Inl NullDeref
      | Some d \<Rightarrow> res_bind (filter_ops_write K (dup_mem E) d (ubuf @ [NUL]) s) (\<lambda>(err, s').
          if err < 0 then Inr (- EINVAL, pos, s')
          else Inr (int (length ubuf), pos + int (length ubuf), s')))"

definition output_write_generic :: "string \<Rightarrow> int \<Rightarrow> wperf \<Rightarrow> int \<times> int \<times> wperf" where
  "output_write_generic ubuf pos s = (- EPERM, pos, s)"

section \<open>Creating the files\<close>

text \<open>
  The rest of the kernel the loading of the module meets: the results of the registrations and of
  the debugfs calls, on dentries as numbers, \<open>None\<close> for a null pointer.
\<close>

record loader =
  register_jprobes_ret :: int
  register_kretprobes_ret :: int
  debugfs_lookup :: "string \<Rightarrow> nat option \<Rightarrow> nat option"
  debugfs_create_dir :: "string \<Rightarrow> nat option \<Rightarrow> nat option"
  debugfs_create_file :: "string \<Rightarrow> nat option \<Rightarrow> nat option"

fun file_name :: "ev_name \<Rightarrow> string" where
  "file_name Enable = ''enable''"
| "file_name Filter = ''filter''"
| "file_name Output = ''output''"

fun dir_name :: "ev_dir \<Rightarrow> string" where
  "dir_name Disk_utils = ''disk_utils''"
| "dir_name Tx_stat = ''tx_stat''"

text \<open>\<open>ev_dutils_files\<close> and \<open>ev_tx_stats_files\<close>, without the terminating null pointer.\<close>

fun ev_files :: "ev_dir \<Rightarrow> ev_name list" where
  "ev_files Disk_utils = [Enable, Filter, Output]"
| "ev_files Tx_stat = [Enable, Filter, Output]"

function create_event_files :: "loader \<Rightarrow> nat option \<Rightarrow> ev_dir \<Rightarrow> wperf \<Rightarrow> (int \<times> wperf) res" where
  "create_event_files L parent d s =
     (if ev_pos s d < length (ev_files d)
      then let n = ev_files d ! ev_pos s d in
           (case debugfs_create_file L (file_name n) parent of
              None \<Rightarrow> Inl BugOn
            | Some _ \<Rightarrow> create_event_files L parent d
                 (s\<lparr>files := files s @ [(d, n)], ev_pos := (ev_pos s)(d := Suc (ev_pos s d))\<rparr>))
      else Inr (0, s))"
  by pat_completeness auto
termination
  by (relation "measure (\<lambda>(L, p, d, s). length (ev_files d) - ev_pos s d)") auto

declare create_event_files.simps [simp del]

definition create_event_dir :: "loader \<Rightarrow> nat option \<Rightarrow> ev_dir \<Rightarrow> wperf \<Rightarrow> (int \<times> wperf) res" where
  "create_event_dir L parent d s =
     (case debugfs_create_dir L (dir_name d) parent of
        None \<Rightarrow> Inl BugOn
      | Some dir \<Rightarrow> create_event_files L (Some dir) d s)"

definition wperf_lookup :: "loader \<Rightarrow> nat option res" where
  "wperf_lookup L =
     (let parent = fold (debugfs_lookup L) [''tracing'', ''events'', ''wperf''] None in
      if parent = None then Inl BugOn else Inr parent)"

section \<open>Loading and unloading\<close>

definition log_call :: "probe_call \<Rightarrow> wperf \<Rightarrow> wperf" where
  "log_call p s = s\<lparr>probes := p # probes s\<rparr>"

text \<open>A registration that fails registers nothing.\<close>

definition trace_wperf_events_init :: "loader \<Rightarrow> wperf \<Rightarrow> (int \<times> wperf) res" where
  "trace_wperf_events_init L s =
     (if register_jprobes_ret L \<noteq> 0 then Inr (register_jprobes_ret L, s)
      else let s1 = log_call Register_jprobes s in
      if register_kretprobes_ret L \<noteq> 0 then Inr (register_kretprobes_ret L, s1)
      else let s2 = log_call Register_kretprobes s1;
               s3 = disable_tx_stat_probes (disable_jprobe Part_round_stats_jp s2) in
      res_bind (wperf_lookup L) (\<lambda>root.
      res_bind (create_event_dir L root Disk_utils (s3\<lparr>wperf_root := root\<rparr>)) (\<lambda>(_, s4).
      res_bind (create_event_dir L root Tx_stat s4) (\<lambda>(_, s5). Inr (0, s5)))))"

definition trace_wperf_events_exit :: "wperf \<Rightarrow> wperf" where
  "trace_wperf_events_exit s = log_call Unregister_kretprobes (log_call Unregister_jprobes s)"

section \<open>The contract of a directory\<close>

text \<open>The probes that a directory's files switch, its invariant and its switch.\<close>

fun dir_probes :: "ev_dir \<Rightarrow> jprobe list" where
  "dir_probes Disk_utils = [Part_round_stats_jp]"
| "dir_probes Tx_stat = tx_jps"

fun dir_enabled :: "ev_dir \<Rightarrow> wperf \<Rightarrow> bool" where
  "dir_enabled Disk_utils s = denabled s"
| "dir_enabled Tx_stat s = tx_enabled s"

definition stats_wf :: "kapi \<Rightarrow> wperf \<Rightarrow> bool" where
  "stats_wf K s \<longleftrightarrow> disk_wf s \<and> tx_wf K s \<and> registered s"

lemma stats_wf_ref: "stats_wf (ref_kapi 64 8) ref_disk"
proof -
  have "tx_wf (ref_kapi 64 8) ref_disk" by (simp add: tx_wf_def ref_disk_def static_data_def)
  then show ?thesis by (simp add: stats_wf_def)
qed

lemma part_not_tx [simp]: "Part_round_stats_jp \<notin> set tx_jps"
  by (simp add: tx_jps_def)

text \<open>A sequence of writes to one file, the values returned ignored.\<close>

fun set_all :: "(u64 \<Rightarrow> 's \<Rightarrow> (int \<times> 's) res) \<Rightarrow> u64 list \<Rightarrow> 's \<Rightarrow> 's res" where
  "set_all f [] s = Inr s"
| "set_all f (v # vs) s = res_bind (f v s) (\<lambda>(_, s'). set_all f vs s')"

text \<open>
  What every directory promises of its file \<open>enable\<close>: a write of 0 or 1 succeeds, keeps the
  invariant, is what a read sees, and arms or disarms exactly the directory's probes.
\<close>

locale enable_file =
  fixes wf :: "'s \<Rightarrow> bool"
    and set_enable :: "u64 \<Rightarrow> 's \<Rightarrow> (int \<times> 's) res"
    and is_set :: "'s \<Rightarrow> bool"
    and on :: "'s \<Rightarrow> 'p \<Rightarrow> bool"
    and ps :: "'p set"
  assumes write_01: "wf s \<Longrightarrow> v = 0 \<or> v = 1 \<Longrightarrow>
    \<exists>s'. set_enable v s = Inr (0, s') \<and> wf s' \<and> is_set s' = (v = 1) \<and>
      (\<forall>p \<in> ps. on s' p \<longleftrightarrow> v = 1) \<and> (\<forall>p. p \<notin> ps \<longrightarrow> on s' p = on s p)"
begin

text \<open>Any sequence of writes succeeds, and the last one decides.\<close>

lemma set_all_last:
  "wf s \<Longrightarrow> \<forall>v \<in> set vs. v = 0 \<or> v = 1 \<Longrightarrow> vs \<noteq> [] \<Longrightarrow>
   \<exists>s'. set_all set_enable vs s = Inr s' \<and> wf s' \<and> is_set s' = (last vs = 1) \<and>
     (\<forall>p \<in> ps. on s' p \<longleftrightarrow> last vs = 1) \<and> (\<forall>p. p \<notin> ps \<longrightarrow> on s' p = on s p)"
proof (induction vs arbitrary: s)
  case (Cons v vs)
  obtain s1 where s1: "set_enable v s = Inr (0, s1)" "wf s1" "is_set s1 = (v = 1)"
    "\<forall>p \<in> ps. on s1 p \<longleftrightarrow> v = 1" "\<forall>p. p \<notin> ps \<longrightarrow> on s1 p = on s p"
    using write_01 [OF Cons.prems(1), of v] Cons.prems(2) by auto
  show ?case
  proof (cases "vs = []")
    case True
    with s1 show ?thesis by simp
  next
    case False
    with Cons.IH [OF s1(2)] Cons.prems(2) obtain s' where "set_all set_enable vs s1 = Inr s'" "wf s'"
      "is_set s' = (last vs = 1)" "\<forall>p \<in> ps. on s' p \<longleftrightarrow> last vs = 1"
      "\<forall>p. p \<notin> ps \<longrightarrow> on s' p = on s1 p" by auto
    with s1 False show ?thesis by simp
  qed
qed simp

end

lemma disk_enable_01:
  assumes "stats_wf K s" and "v = 0 \<or> v = 1"
  shows "\<exists>s'. enable_ops_write Disk_utils v s = Inr (0, s') \<and> stats_wf K s' \<and>
    denabled s' = (v = 1) \<and> (armed s' Part_round_stats_jp \<longleftrightarrow> v = 1) \<and>
    (\<forall>p. p \<noteq> Part_round_stats_jp \<longrightarrow> armed s' p = armed s p)"
  using assms clear_dutils_spec [of "didx s" "dutils s"]
  by (auto simp: dutils_enable_write_def stats_wf_def disk_wf_def tx_wf_def Let_def
      armed_def registered_def enable_jprobe_def disable_jprobe_def)

lemma tx_enable_01:
  assumes "stats_wf K s" and "v = 0 \<or> v = 1"
  shows "\<exists>s'. enable_ops_write Tx_stat v s = Inr (0, s') \<and> stats_wf K s' \<and>
    tx_enabled s' = (v = 1) \<and> (\<forall>p \<in> set tx_jps. armed s' p \<longleftrightarrow> v = 1) \<and>
    (\<forall>p. p \<notin> set tx_jps \<longrightarrow> armed s' p = armed s p)"
  using assms
  by (auto simp: tx_stats_enable_write_def stats_wf_def disk_wf_def tx_wf_def Let_def
      tx_switch_armed bitmap_zero_def)

interpretation ef: enable_file "stats_wf K" "enable_ops_write d" "dir_enabled d" armed "set (dir_probes d)"
  for K d
proof
  fix s and v :: u64
  assume "stats_wf K s" "v = 0 \<or> v = 1"
  then show "\<exists>s'. enable_ops_write d v s = Inr (0, s') \<and> stats_wf K s' \<and> dir_enabled d s' = (v = 1) \<and>
      (\<forall>p \<in> set (dir_probes d). armed s' p \<longleftrightarrow> v = 1) \<and>
      (\<forall>p. p \<notin> set (dir_probes d) \<longrightarrow> armed s' p = armed s p)"
    using disk_enable_01 [of K s v] tx_enable_01 [of K s v] by (cases d) auto
qed

section \<open>Properties of the generic functions\<close>

text \<open>
  Any sequence of 0s and 1s written to a directory's \<open>enable\<close> succeeds, and the last value
  alone decides what the file reads and whether the directory's probes are armed; the probes of the
  other directory and of the scheduler keep their state, and no table is left malformed.
\<close>

theorem enable_sequence:
  assumes "stats_wf K s" and "\<forall>v \<in> set vs. v = 0 \<or> v = 1" and "vs \<noteq> []"
  shows "\<exists>s'. set_all (enable_ops_write d) vs s = Inr s' \<and> stats_wf K s' \<and>
    enable_ops_read d s' = (if last vs = 1 then 1 else 0) \<and>
    (\<forall>p \<in> set (dir_probes d). armed s' p \<longleftrightarrow> last vs = 1) \<and>
    (\<forall>p. p \<notin> set (dir_probes d) \<longrightarrow> armed s' p = armed s p)"
proof -
  have "enable_ops_read d s' = (if dir_enabled d s' then 1 else 0)" for s'
    by (cases d) (simp_all add: dutils_enable_read_def tx_stats_enable_read_def)
  then show ?thesis using ef.set_all_last [OF assms, of d] by auto
qed

theorem enable_sequence_witness:
  "\<exists>s'. set_all (enable_ops_write Tx_stat) [1, 0, 1] ref_disk = Inr s' \<and>
    enable_ops_read Tx_stat s' = 1 \<and> armed s' Udp_sendmsg_jp"
proof -
  have "Udp_sendmsg_jp \<in> set (dir_probes Tx_stat)" by (simp add: tx_jps_def)
  then show ?thesis using enable_sequence [OF stats_wf_ref, of "[1, 0, 1]" Tx_stat] by auto
qed

text \<open>
  A write to \<open>enable\<close> through the generic function: text that is no number gives the error of
  the conversion and any number but 0 and 1 gives \<open>-EINVAL\<close>, both with no change to the position or
  the state; 0 and 1 consume the whole text, and a read from the start then gives the digit and a
  newline.
\<close>

theorem enable_file_roundtrip:
  assumes "stats_wf K s" and "simple_read_ok K" and "2 \<le> cnt"
  shows "case kstrtoul_from_user K ubuf of
      Inl e \<Rightarrow> enable_write_generic K (Some d) ubuf pos s = Inr (e, pos, s)
    | Inr v \<Rightarrow>
        if v = 0 \<or> v = 1
        then \<exists>s'. enable_write_generic K (Some d) ubuf pos s
               = Inr (int (length ubuf), pos + int (length ubuf), s') \<and> stats_wf K s' \<and>
             enable_read_generic K (Some d) cnt 0 s' = Inr (2, [if v = 1 then CHR ''1'' else CHR ''0'', NL], 2, s')
        else enable_write_generic K (Some d) ubuf pos s = Inr (- EINVAL, pos, s)"
proof (cases "kstrtoul_from_user K ubuf")
  case (Inl e)
  then show ?thesis by (simp add: enable_write_generic_def)
next
  case (Inr v)
  show ?thesis
  proof (cases "v = 0 \<or> v = 1")
    case False
    with Inr show ?thesis by (simp add: enable_write_generic_def)
  next
    case True
    obtain s' where s': "enable_ops_write d v s = Inr (0, s')" "stats_wf K s'" "dir_enabled d s' = (v = 1)"
      using ef.write_01 [OF assms(1) True] by blast
    have "enable_ops_read d s' = (if v = 1 then 1 else 0)"
      using s'(3) by (cases d) (simp_all add: dutils_enable_read_def tx_stats_enable_read_def)
    moreover have "take cnt [a, b] = [a, b]" for a b :: char
      using assms(3) by simp
    ultimately have "enable_read_generic K (Some d) cnt 0 s'
        = Inr (2, [if v = 1 then CHR ''1'' else CHR ''0'', NL], 2, s')"
      using assms(2) by (simp add: enable_read_generic_def simple_read_ok_def Let_def)
    with True Inr s' show ?thesis by (auto simp: enable_write_generic_def)
  qed
qed

theorem enable_file_roundtrip_witness:
  "\<exists>s'. enable_write_generic (ref_kapi 64 8) (Some Disk_utils) ''0'' 0 ref_disk = Inr (1, 1, s') \<and>
    enable_read_generic (ref_kapi 64 8) (Some Disk_utils) 16 0 s' = Inr (2, [CHR ''0'', NL], 2, s')"
proof -
  have "kstrtoul_from_user (ref_kapi 64 8) ''0'' = Inr 0"
    by (simp add: ref_strtoul_def is_digit_def read_nat_def digit_val_def)
  then show ?thesis
    using enable_file_roundtrip [where cnt = 16 and ubuf = "''0''" and d = Disk_utils and pos = 0,
        OF stats_wf_ref ref_simple_read_ok] by auto
qed

text \<open>
  A read of \<open>output\<close> with a buffer shorter than the line gives its first bytes, and every later
  read at the position that leaves, of any size and in any state, gives nothing: the rest of the
  line cannot be read.
\<close>

theorem output_short_read:
  assumes "simple_read_ok K" and "seq_mem E = Some q"
    and "output_ops_read K d (trace_seq_init K q) s = Inr (0, q', s')"
    and "0 < n" and "n < length (seq_text q')"
  shows "output_read_generic K E (Some d) n 0 s = Inr (int n, take n (seq_text q'), int n, s') \<and>
    (\<forall>E' ef n' s''. output_read_generic K E' ef n' (int n) s'' = Inr (0, [], int n, s''))"
  using assms by (simp add: output_read_generic_def read_generic_def simple_read_ok_def Let_def)

theorem output_short_read_witness:
  "\<exists>s'. output_read_generic (ref_kapi 64 8) \<lparr>seq_mem = Some ref_seq, page_mem = True, copy_ok = True, dup_mem = True\<rparr>
     (Some Disk_utils) 3 0 (static_data (ref_kapi 64 8)) = Inr (3, ''non'', 3, s')"
proof -
  let ?E = "\<lparr>seq_mem = Some ref_seq, page_mem = True, copy_ok = True, dup_mem = True\<rparr>"
  obtain q' where q': "puts_seq 64 (trace_seq_init (ref_kapi 64 8) ref_seq) (''none'' @ [NL]) = Inr q'"
    "seq_text q' = ''none'' @ [NL]"
    using write_none [of "ref_kapi 64 8" ref_seq] ref_init_ok [of 64 8] by (auto simp: ref_seq_def)
  then obtain s' where "output_ops_read (ref_kapi 64 8) Disk_utils (trace_seq_init (ref_kapi 64 8) ref_seq)
      (static_data (ref_kapi 64 8)) = Inr (0, q', s')"
    by (simp add: dutils_output_read_def static_data_def disable_jprobe_def Let_def)
  from output_short_read [OF ref_simple_read_ok _ this, of ?E 3] q'(2) show ?thesis
    by auto
qed

text \<open>
  The result of a write to \<open>filter\<close>: either the whole text, shorter than a page, was taken and
  the position moves by its length, or the position stays and the result is one of three error
  numbers. No memory for the page and a failed copy leave the state alone; every failure of the
  component, also its lack of memory, comes out as \<open>-EINVAL\<close>.
\<close>

theorem filter_write_result:
  assumes "filter_write_generic K E (Some d) ubuf pos s = Inr (r, pos', s')"
  shows "(r = int (length ubuf) \<and> length ubuf < page_size K \<and> pos' = pos + int (length ubuf) \<or>
    pos' = pos \<and> (r = - EINVAL \<or> (r = - ENOMEM \<and> \<not> page_mem E \<or> r = - EFAULT \<and> \<not> copy_ok E) \<and> s' = s)) \<and>
    (length ubuf < page_size K \<and> page_mem E \<and> copy_ok E \<and> \<not> dup_mem E \<longrightarrow> r = - EINVAL \<and> s' = s)"
proof (intro conjI impI)
  show "r = int (length ubuf) \<and> length ubuf < page_size K \<and> pos' = pos + int (length ubuf) \<or>
    pos' = pos \<and> (r = - EINVAL \<or> (r = - ENOMEM \<and> \<not> page_mem E \<or> r = - EFAULT \<and> \<not> copy_ok E) \<and> s' = s)"
    using assms by (auto simp: filter_write_generic_def res_bind_Inr_iff split: if_splits)
next
  assume "length ubuf < page_size K \<and> page_mem E \<and> copy_ok E \<and> \<not> dup_mem E"
  with assms have "r = - EINVAL \<and> s' = s"
    by (cases d) (simp_all add: filter_write_generic_def dutils_filter_write_def
        tx_stats_filter_write_def errno_defs)
  then show "r = - EINVAL" "s' = s" by simp_all
qed

theorem filter_write_result_witness:
  "filter_write_generic (ref_kapi 64 8) \<lparr>seq_mem = None, page_mem = True, copy_ok = True, dup_mem = False\<rparr>
     (Some Tx_stat) ''5'' 0 ref_disk = Inr (- EINVAL, 0, ref_disk)"
proof -
  let ?E = "\<lparr>seq_mem = None, page_mem = True, copy_ok = True, dup_mem = False\<rparr>"
  obtain r p s' where r: "filter_write_generic (ref_kapi 64 8) ?E (Some Tx_stat) ''5'' 0 ref_disk = Inr (r, p, s')"
    by (simp add: filter_write_generic_def tx_stats_filter_write_def errno_defs)
  from filter_write_result [OF this] have "r = - EINVAL \<and> s' = ref_disk \<and> p = 0"
    by (auto simp: EINVAL_def)
  with r show ?thesis by simp
qed

section \<open>Properties of loading and unloading\<close>

lemma create_event_files_all:
  assumes "\<And>n p. debugfs_create_file L n p \<noteq> None"
  shows "create_event_files L p d s = Inr (0, s\<lparr>files := files s @ map (Pair d) (drop (ev_pos s d) (ev_files d)),
     ev_pos := (ev_pos s)(d := max (ev_pos s d) (length (ev_files d)))\<rparr>)"
  using assms
proof (induction L p d s rule: create_event_files.induct [case_names step])
  case (step L p d s)
  show ?case
  proof (cases "ev_pos s d < length (ev_files d)")
    case True
    obtain x where x: "debugfs_create_file L (file_name (ev_files d ! ev_pos s d)) p = Some x"
      using step.prems by fastforce
    have "drop (ev_pos s d) (ev_files d) = ev_files d ! ev_pos s d # drop (Suc (ev_pos s d)) (ev_files d)"
      using True by (simp add: Cons_nth_drop_Suc)
    with step.IH [OF True refl x] step.prems x True show ?thesis
      by (simp add: create_event_files.simps [of L p d s] cong: if_cong)
  next
    case False
    then show ?thesis by (simp add: create_event_files.simps [of L p d s] max_def fun_upd_idem)
  qed
qed

text \<open>The kernel lets the module do all it asks for.\<close>

definition loads :: "loader \<Rightarrow> bool" where
  "loads L \<longleftrightarrow> register_jprobes_ret L = 0 \<and> register_kretprobes_ret L = 0 \<and>
     ok (wperf_lookup L) \<and> (\<forall>n p. debugfs_create_dir L n p \<noteq> None) \<and> (\<forall>n p. debugfs_create_file L n p \<noteq> None)"

lemma init_loaded:
  assumes "loads L"
  shows "\<exists>s'. trace_wperf_events_init L (static_data K) = Inr (0, s') \<and> stats_wf K s' \<and>
    files s' = map (Pair Disk_utils) [Enable, Filter, Output] @ map (Pair Tx_stat) [Enable, Filter, Output] \<and>
    (\<forall>j. armed s' j \<longleftrightarrow> j \<noteq> Part_round_stats_jp \<and> j \<notin> set tx_jps) \<and>
    \<not> denabled s' \<and> \<not> tx_enabled s' \<and> names s' = [] \<and> watched s' = {} \<and>
    dutils s' = replicate MAX_DISK_NUM 0 \<and> tx_stats s' = replicate (pid_max_limit K) 0 \<and> wperf_root s' \<noteq> None"
proof -
  from assms obtain root where root: "wperf_lookup L = Inr root" "root \<noteq> None"
    by (auto simp: loads_def ok_def wperf_lookup_def Let_def split: if_splits)
  obtain d1 d2 where d: "debugfs_create_dir L (dir_name Disk_utils) root = Some d1"
      "debugfs_create_dir L (dir_name Tx_stat) root = Some d2"
    using assms unfolding loads_def by blast
  have all: "\<And>n p. debugfs_create_file L n p \<noteq> None" using assms by (simp add: loads_def)
  let ?s2 = "log_call Register_kretprobes (log_call Register_jprobes (static_data K))"
  let ?s3 = "disable_tx_stat_probes (disable_jprobe Part_round_stats_jp ?s2)"
  obtain p where p: "?s3 = (static_data K)\<lparr>probes := p\<rparr>"
    using fold_switch_frame(2) [of tx_jps "disable_jprobe Part_round_stats_jp ?s2"]
    by (auto simp: disable_tx_stat_probes_def log_call_def)
  have "registered ?s3" "\<forall>j. armed ?s3 j \<longleftrightarrow> j \<noteq> Part_round_stats_jp \<and> j \<notin> set tx_jps"
    by (auto simp: tx_switch_armed jp.on_disable jp.present_disable)
      (auto simp: armed_def registered_def log_call_def)
  then have on: "jps_registered p" "\<forall>j. armed_in p j \<longleftrightarrow> j \<noteq> Part_round_stats_jp \<and> j \<notin> set tx_jps"
    unfolding p by (simp_all add: armed_def registered_def)
  have sel: "files (static_data K) = []" "ev_pos (static_data K) = (\<lambda>_. 0)" "dutils (static_data K) = replicate MAX_DISK_NUM 0"
    "\<not> denabled (static_data K)" "\<not> tx_enabled (static_data K)" "didx (static_data K) = 0"
    by (simp_all add: static_data_def)
  have "trace_wperf_events_init L (static_data K) =
      Inr (0, (static_data K)\<lparr>probes := p, wperf_root := root,
        files := map (Pair Disk_utils) [Enable, Filter, Output] @ map (Pair Tx_stat) [Enable, Filter, Output],
        ev_pos := ((\<lambda>_. 0)(Disk_utils := 3))(Tx_stat := 3)\<rparr>)"
    using assms root(1) d
    by (simp add: trace_wperf_events_init_def loads_def create_event_dir_def p sel
        create_event_files_all [OF all] Let_def numeral_3_eq_3)
  then show ?thesis
    using on root(2) disk_wf_static [of K] tx_wf_static [of K] sel
    by (auto simp: stats_wf_def disk_wf_def tx_wf_def armed_def registered_def names_def watched_def)
      (simp_all add: static_data_def)
qed

text \<open>
  C40: Loading: when the kernel grants everything, the module comes up with all its probes armed
  but those of the two statistics, which are off and empty, with its six files made in order, and
  with its tables well-formed. Unloading disarms everything but removes none of the files.
\<close>

theorem load_unload:
  assumes "loads L"
  shows "\<exists>s'. trace_wperf_events_init L (static_data K) = Inr (0, s') \<and> stats_wf K s' \<and>
    files s' = [(Disk_utils, Enable), (Disk_utils, Filter), (Disk_utils, Output),
                (Tx_stat, Enable), (Tx_stat, Filter), (Tx_stat, Output)] \<and>
    (\<forall>j. armed s' j \<longleftrightarrow> j \<noteq> Part_round_stats_jp \<and> j \<notin> set tx_jps) \<and>
    \<not> denabled s' \<and> \<not> tx_enabled s' \<and> names s' = [] \<and> watched s' = {} \<and>
    (\<forall>j. \<not> armed (trace_wperf_events_exit s') j) \<and> \<not> krps_registered (probes (trace_wperf_events_exit s')) \<and>
    files (trace_wperf_events_exit s') = files s'"
proof -
  have "\<not> armed (trace_wperf_events_exit s) j" "\<not> krps_registered (probes (trace_wperf_events_exit s))"
    "files (trace_wperf_events_exit s) = files s" for s j
    by (simp_all add: trace_wperf_events_exit_def log_call_def armed_def)
  with init_loaded [OF assms, of K] show ?thesis by auto
qed

text \<open>
  When the kretprobes cannot be registered, loading fails with the jprobes still registered and
  every one of them armed, those of the disabled statistics too: the kernel would call handlers of
  a module it discards.
\<close>

theorem init_failure_leaves_jprobes:
  assumes "register_jprobes_ret L = 0" and "register_kretprobes_ret L \<noteq> 0"
  shows "\<exists>s'. trace_wperf_events_init L s = Inr (register_kretprobes_ret L, s') \<and>
    registered s' \<and> (\<forall>j. armed s' j) \<and> files s' = files s"
proof -
  have "armed (log_call Register_jprobes s) j" "registered (log_call Register_jprobes s)"
    "files (log_call Register_jprobes s) = files s" for j
    by (simp_all add: log_call_def armed_def registered_def)
  with assms show ?thesis by (auto simp: trace_wperf_events_init_def Let_def)
qed

text \<open>A kernel with debugfs mounted, each dentry a number.\<close>

definition ref_loader :: "int \<Rightarrow> loader" where
  "ref_loader kret = \<lparr>register_jprobes_ret = 0, register_kretprobes_ret = kret,
     debugfs_lookup = (\<lambda>n p. Some (length n)), debugfs_create_dir = (\<lambda>n p. Some (length n)),
     debugfs_create_file = (\<lambda>n p. Some (length n))\<rparr>"

theorem load_unload_witness:
  "\<exists>s'. trace_wperf_events_init (ref_loader 0) (static_data (ref_kapi 4096 8)) = Inr (0, s') \<and>
    armed s' Do_exit_jp \<and> \<not> armed s' Part_round_stats_jp \<and>
    length (files (trace_wperf_events_exit s')) = 6"
proof -
  have l: "loads (ref_loader 0)"
    by (simp add: loads_def ref_loader_def wperf_lookup_def)
  show ?thesis using load_unload [OF l, of "ref_kapi 4096 8"] by (auto simp: tx_jps_def)
qed

theorem init_failure_leaves_jprobes_witness:
  "\<exists>s'. trace_wperf_events_init (ref_loader (- ENOMEM)) (static_data (ref_kapi 4096 8)) = Inr (- 12, s') \<and>
    armed s' Tcp_sendmsg_jp"
  using init_failure_leaves_jprobes [of "ref_loader (- ENOMEM)" "static_data (ref_kapi 4096 8)"]
  by (auto simp: ref_loader_def ENOMEM_def)

end
