(* ===== verification/TraceEvents.thy ===== *)
theory TraceEvents
  imports KernelRef
begin

text \<open>
  The tracepoints of module/trace_wperf_events.h (what each writes into its slot of the ring
  buffer, and the line it prints) and the probe handlers of module/trace_wperf_events.c that
  feed them: scheduling, softirqs, futex, journal and socket lock.
\<close>

section \<open>The fields of a scheduling record\<close>

text \<open>
  \<open>in_which_ctx\<close>: a wait inside a softirq is recorded with the negated softirq number, a wakeup
  with the number itself.
\<close>

definition switch_ctx :: "kctx \<Rightarrow> wperf_data \<Rightarrow> int" where
  "switch_ctx c d =
     (if in_irq c then HARDIRQ
      else if serving_softirq c then - softirqs_nr d
      else PROCESS)"

definition wakeup_ctx :: "kctx \<Rightarrow> wperf_data \<Rightarrow> int" where
  "wakeup_ctx c d =
     (if in_irq c then HARDIRQ
      else if serving_softirq c then softirqs_nr d
      else PROCESS)"

text \<open>
  \<open>TP_fast_assign\<close> of each event, as the assignment sequence on the slot \<open>e\<close> it was given.
  \<open>memcpy\<close> takes \<open>TASK_COMM_LEN\<close> bytes of the source.
\<close>

definition copy_comm :: "kapi \<Rightarrow> string \<Rightarrow> string" where
  "copy_comm K src = take (task_comm_len K) src"

definition assign_switch_to ::
    "kapi \<Rightarrow> kctx \<Rightarrow> wperf_data \<Rightarrow> task \<Rightarrow> task \<Rightarrow> u64 \<Rightarrow> sched_entry \<Rightarrow> sched_entry" where
  "assign_switch_to K c d prev_p next_p tsc e =
     e\<lparr>e_type := WAIT, e_tsc := tsc,
       e_prev_comm := copy_comm K (t_comm prev_p), e_next_comm := copy_comm K (t_comm next_p),
       e_prev_pid := t_pid prev_p, e_next_pid := t_pid next_p,
       e_prev_state := t_state prev_p, e_next_state := t_state next_p,
       e_ctx := switch_ctx c d\<rparr>"

definition assign_try_to_wake_up ::
    "kapi \<Rightarrow> kctx \<Rightarrow> wperf_data \<Rightarrow> task \<Rightarrow> u64 \<Rightarrow> sched_entry \<Rightarrow> sched_entry" where
  "assign_try_to_wake_up K c d p tsc e =
     e\<lparr>e_type := WAKEUP, e_tsc := tsc,
       e_prev_comm := copy_comm K (t_comm (cur c)), e_next_comm := copy_comm K (t_comm p),
       e_prev_pid := t_pid (cur c), e_next_pid := t_pid p,
       e_prev_state := t_state (cur c), e_next_state := t_state p,
       e_ctx := wakeup_ctx c d\<rparr>"

definition assign_wake_up_new_task ::
    "kapi \<Rightarrow> kctx \<Rightarrow> task \<Rightarrow> u64 \<Rightarrow> sched_entry \<Rightarrow> sched_entry" where
  "assign_wake_up_new_task K c p tsc e =
     e\<lparr>e_type := CREATE, e_tsc := tsc,
       e_prev_comm := copy_comm K (t_comm (cur c)), e_next_comm := copy_comm K (t_comm p),
       e_prev_pid := t_pid (cur c), e_next_pid := t_pid p,
       e_prev_state := t_state (cur c), e_next_state := t_state p,
       e_ctx := PROCESS\<rparr>"

text \<open>
  \<open>do_exit\<close> takes a \<open>tsc\<close> and does not store it. Its \<open>memcpy\<close> reads \<open>TASK_COMM_LEN\<close> bytes from
  an eight byte literal, so the bytes after the NUL are whatever follows it in memory.
\<close>

definition assign_do_exit :: "kapi \<Rightarrow> kctx \<Rightarrow> u64 \<Rightarrow> sched_entry \<Rightarrow> sched_entry" where
  "assign_do_exit K c tsc e =
     e\<lparr>e_type := EXIT,
       e_prev_comm := copy_comm K (t_comm (cur c)),
       e_next_comm := copy_comm K (''swapper'' @ NUL # rodata_tail c),
       e_prev_pid := t_pid (cur c), e_next_pid := 0,
       e_prev_state := t_state (cur c), e_next_state := 0,
       e_ctx := PROCESS\<rparr>"

section \<open>The printed lines\<close>

definition sched_fields :: "sched_entry \<Rightarrow> string list" where
  "sched_fields e =
     [''type='' @ show_int (e_type e), '' tsc='' @ fmt_llu (e_tsc e),
      '' prev_comm='' @ cstr (e_prev_comm e), '' next_comm='' @ cstr (e_next_comm e),
      '' prev_pid='' @ show_int (e_prev_pid e), '' next_pid='' @ show_int (e_next_pid e),
      '' prev_state='' @ fmt_ld (e_prev_state e), '' next_state='' @ fmt_ld (e_next_state e),
      '' in_which_ctx='' @ show_int (e_ctx e)]"

definition print_switch_to :: "sched_entry \<Rightarrow> string" where
  "print_switch_to e = join CHR '','' (sched_fields e)"

definition print_try_to_wake_up :: "sched_entry \<Rightarrow> string" where
  "print_try_to_wake_up e = join CHR '','' (sched_fields e)"

definition print_wake_up_new_task :: "sched_entry \<Rightarrow> string" where
  "print_wake_up_new_task e = join CHR '','' (sched_fields e)"

text \<open>The format of \<open>do_exit\<close> has two blanks before \<open>prev_pid\<close>.\<close>

definition print_do_exit :: "sched_entry \<Rightarrow> string" where
  "print_do_exit e = join CHR '',''
     (take 4 (sched_fields e) @ [''  prev_pid='' @ show_int (e_prev_pid e)]
      @ drop 5 (sched_fields e))"

definition print_do_softirq_ret :: "string \<Rightarrow> u64 \<Rightarrow> u64 \<Rightarrow> string" where
  "print_do_softirq_ret prev_comm begin_time end_time = join CHR '',''
     [''prev_comm='' @ cstr prev_comm, '' begin_time='' @ fmt_llu begin_time,
      '' end_time='' @ fmt_llu end_time]"

definition print_common_event :: "int \<Rightarrow> u64 \<Rightarrow> string" where
  "print_common_event ty tsc =
     join CHR '','' [''type='' @ show_int ty, '' tsc='' @ fmt_llu tsc]"

definition print_journal_end_buffer_io_sync :: "bool \<Rightarrow> string" where
  "print_journal_end_buffer_io_sync b =
     ''in_serving_softirq='' @ show_int (if b then 1 else 0)"

section \<open>The probe handlers\<close>

definition emit :: "kctx \<Rightarrow> trace_rec \<Rightarrow> wperf \<Rightarrow> wperf" where
  "emit c r s = s\<lparr>ring := (ring s)(cpu_id c := ring s (cpu_id c) @ [r])\<rparr>"

abbreviation this_cpu :: "kctx \<Rightarrow> wperf \<Rightarrow> wperf_data" where
  "this_cpu c s \<equiv> cpu_data s (cpu_id c)"

definition set_this_cpu :: "kctx \<Rightarrow> wperf_data \<Rightarrow> wperf \<Rightarrow> wperf" where
  "set_this_cpu c d s = s\<lparr>cpu_data := (cpu_data s)(cpu_id c := d)\<rparr>"

definition on___switch_to_ent :: "kapi \<Rightarrow> kctx \<Rightarrow> task \<Rightarrow> task \<Rightarrow> wperf \<Rightarrow> wperf" where
  "on___switch_to_ent K c prev_p next_p s =
     emit c (Switch_to (assign_switch_to K c (this_cpu c s) prev_p next_p (rdtsc c) (stale c))) s"

definition on_try_to_wake_up_ent :: "kapi \<Rightarrow> kctx \<Rightarrow> task \<Rightarrow> wperf \<Rightarrow> wperf" where
  "on_try_to_wake_up_ent K c p s =
     emit c (Try_to_wake_up (assign_try_to_wake_up K c (this_cpu c s) p (rdtsc c) (stale c))) s"

definition on_wake_up_new_task_ent :: "kapi \<Rightarrow> kctx \<Rightarrow> task \<Rightarrow> wperf \<Rightarrow> wperf" where
  "on_wake_up_new_task_ent K c p s =
     emit c (Wake_up_new_task (assign_wake_up_new_task K c p (rdtsc c) (stale c))) s"

definition on_do_exit_ent :: "kapi \<Rightarrow> kctx \<Rightarrow> wperf \<Rightarrow> wperf" where
  "on_do_exit_ent K c s = emit c (Do_exit (assign_do_exit K c (rdtsc c) (stale c))) s"

text \<open>The two functions that \<open>_DECL_SOFTIRQ_KRP(nr, fn, symbol)\<close> declares.\<close>

definition on_softirq_ent :: "int \<Rightarrow> kctx \<Rightarrow> wperf \<Rightarrow> wperf" where
  "on_softirq_ent nr c s = set_this_cpu c ((this_cpu c s)\<lparr>softirqs_nr := nr\<rparr>) s"

definition on_softirq_ret :: "kctx \<Rightarrow> wperf \<Rightarrow> wperf" where
  "on_softirq_ret c s = set_this_cpu c ((this_cpu c s)\<lparr>softirqs_nr := NR_SOFTIRQS\<rparr>) s"

definition on___do_softirq_ent :: "kctx \<Rightarrow> wperf \<Rightarrow> wperf" where
  "on___do_softirq_ent c s = set_this_cpu c ((this_cpu c s)\<lparr>softirq_btime := rdtsc c\<rparr>) s"

definition on___do_softirq_ret :: "kapi \<Rightarrow> kctx \<Rightarrow> wperf \<Rightarrow> wperf" where
  "on___do_softirq_ret K c s =
     emit c (Do_softirq_ret (copy_comm K (t_comm (cur c))) (softirq_btime (this_cpu c s)) (rdtsc c)) s"

definition on_futex_wait_queue_me_ent :: "kctx \<Rightarrow> wperf \<Rightarrow> wperf" where
  "on_futex_wait_queue_me_ent c s = emit c (Futex_wait_queue_me 1 (rdtsc c)) s"

definition on_do_futex_ent :: "kctx \<Rightarrow> wperf \<Rightarrow> wperf" where
  "on_do_futex_ent c s = emit c (Do_futex 1 (rdtsc c)) s"

definition on_journal_end_buffer_io_sync_ent :: "kctx \<Rightarrow> wperf \<Rightarrow> wperf" where
  "on_journal_end_buffer_io_sync_ent c s = emit c (Journal_end_buffer_io_sync (serving_softirq c)) s"

definition on___lock_sock_ent :: "kctx \<Rightarrow> wperf \<Rightarrow> wperf" where
  "on___lock_sock_ent c s = emit c (Lock_sock 3 (rdtsc c)) s"

section \<open>Runs of the handlers\<close>

datatype kevent =
    K_switch_to task task
  | K_try_to_wake_up task
  | K_wake_up_new_task task
  | K_do_exit
  | K_softirq_ent softirq
  | K_softirq_ret softirq
  | K_do_softirq_ent
  | K_do_softirq_ret
  | K_futex_wait_queue_me
  | K_do_futex
  | K_journal_end_buffer_io_sync
  | K_lock_sock

text \<open>Which handler a probed kernel function leads to.\<close>

fun trace_step :: "kapi \<Rightarrow> kctx \<times> kevent \<Rightarrow> wperf \<Rightarrow> wperf" where
  "trace_step K (c, K_switch_to p n) s = on___switch_to_ent K c p n s"
| "trace_step K (c, K_try_to_wake_up p) s = on_try_to_wake_up_ent K c p s"
| "trace_step K (c, K_wake_up_new_task p) s = on_wake_up_new_task_ent K c p s"
| "trace_step K (c, K_do_exit) s = on_do_exit_ent K c s"
| "trace_step K (c, K_softirq_ent q) s = on_softirq_ent (softirq_nr q) c s"
| "trace_step K (c, K_softirq_ret q) s = on_softirq_ret c s"
| "trace_step K (c, K_do_softirq_ent) s = on___do_softirq_ent c s"
| "trace_step K (c, K_do_softirq_ret) s = on___do_softirq_ret K c s"
| "trace_step K (c, K_futex_wait_queue_me) s = on_futex_wait_queue_me_ent c s"
| "trace_step K (c, K_do_futex) s = on_do_futex_ent c s"
| "trace_step K (c, K_journal_end_buffer_io_sync) s = on_journal_end_buffer_io_sync_ent c s"
| "trace_step K (c, K_lock_sock) s = on___lock_sock_ent c s"

definition trace_run :: "kapi \<Rightarrow> (kctx \<times> kevent) list \<Rightarrow> wperf \<Rightarrow> wperf" where
  "trace_run K evs s = fold (trace_step K) evs s"

lemmas handler_defs =
  on___switch_to_ent_def on_try_to_wake_up_ent_def on_wake_up_new_task_ent_def
  on_do_exit_ent_def on_softirq_ent_def on_softirq_ret_def on___do_softirq_ent_def
  on___do_softirq_ret_def on_futex_wait_queue_me_ent_def on_do_futex_ent_def
  on_journal_end_buffer_io_sync_ent_def on___lock_sock_ent_def emit_def set_this_cpu_def

lemmas assign_defs =
  assign_switch_to_def assign_try_to_wake_up_def assign_wake_up_new_task_def assign_do_exit_def

lemma trace_run_simps [simp]:
  "trace_run K [] s = s"
  "trace_run K (x # evs) s = trace_run K evs (trace_step K x s)"
  "trace_run K (evs @ evs') s = trace_run K evs' (trace_run K evs s)"
  by (simp_all add: trace_run_def)

text \<open>Handlers of this theory write the per-CPU data and the ring buffer only.\<close>

lemma trace_step_frame [frame_simps]:
  "dnames (trace_step K x s) = dnames s" "dutils (trace_step K x s) = dutils s"
  "didx (trace_step K x s) = didx s" "denabled (trace_step K x s) = denabled s"
  "pid_filter (trace_step K x s) = pid_filter s" "tx_stats (trace_step K x s) = tx_stats s"
  "tx_enabled (trace_step K x s) = tx_enabled s" "probes (trace_step K x s) = probes s"
  "kbufs (trace_step K x s) = kbufs s" "files (trace_step K x s) = files s"
  by (cases "(K, x, s)" rule: trace_step.cases; simp add: handler_defs)+

section \<open>What the slot held before\<close>

text \<open>
  The records of a context switch, a wakeup and a new task do not depend on what the slot of
  the ring buffer held before: every field is assigned.
\<close>

theorem sched_records_fully_assigned:
  "assign_switch_to K c d p n t e = assign_switch_to K c d p n t e' \<and>
   assign_try_to_wake_up K c d p t e = assign_try_to_wake_up K c d p t e' \<and>
   assign_wake_up_new_task K c p t e = assign_wake_up_new_task K c p t e'"
  by (cases e; cases e') (simp add: assign_defs)

text \<open>
  The record of a task's exit depends on the old slot and not on the clock: two records made
  at any two times differ exactly in the time stamp, which is the one left in the slot.
\<close>

theorem do_exit_keeps_stale_time:
  "assign_do_exit K c t e = (assign_do_exit K c t' e')\<lparr>e_tsc := e_tsc e\<rparr>"
  by (cases e; cases e') (simp add: assign_defs)

text \<open>The name copied for the task that follows an exit prints as the literal, whatever follows it.\<close>

lemma swapper_prints:
  "8 \<le> task_comm_len K \<Longrightarrow> cstr (copy_comm K (''swapper'' @ NUL # tail)) = ''swapper''"
  by (simp add: copy_comm_def cstr_def take_Cons' numeral_eq_Suc)

section \<open>Each CPU sees its own events\<close>

definition on_cpu :: "nat \<Rightarrow> kctx \<times> kevent \<Rightarrow> bool" where
  "on_cpu n x \<longleftrightarrow> cpu_id (fst x) = n"

definition same_on :: "nat \<Rightarrow> wperf \<Rightarrow> wperf \<Rightarrow> bool" where
  "same_on n s s' \<longleftrightarrow> cpu_data s n = cpu_data s' n \<and> ring s n = ring s' n"

lemma trace_step_other: "\<not> on_cpu n x \<Longrightarrow> same_on n (trace_step K x s) s"
  by (cases "(K, x, s)" rule: trace_step.cases) (simp_all add: handler_defs on_cpu_def same_on_def)

lemma trace_step_same:
  "on_cpu n x \<Longrightarrow> same_on n s s' \<Longrightarrow> same_on n (trace_step K x s) (trace_step K x s')"
  by (cases "(K, x, s)" rule: trace_step.cases) (auto simp: handler_defs on_cpu_def same_on_def)

lemma trace_run_same_on:
  "same_on n s s' \<Longrightarrow> same_on n (trace_run K evs s) (trace_run K (filter (on_cpu n) evs) s')"
proof (induction evs arbitrary: s s')
  case Nil
  then show ?case by simp
next
  case (Cons x evs)
  show ?case
  proof (cases "on_cpu n x")
    case True
    with Cons show ?thesis by (auto intro: trace_step_same)
  next
    case False
    then have "same_on n (trace_step K x s) s'"
      using trace_step_other [OF False] Cons.prems by (simp add: same_on_def)
    with Cons.IH False show ?thesis by auto
  qed
qed

text \<open>
  C34: Non-interference between CPUs: what the handlers record on a CPU, and the per-CPU data they
  keep there, is the same in any interleaving with other CPUs as in the run of that CPU alone.
\<close>

theorem cpu_noninterference:
  "cpu_data (trace_run K evs s) n = cpu_data (trace_run K (filter (on_cpu n) evs) s) n \<and>
   ring (trace_run K evs s) n = ring (trace_run K (filter (on_cpu n) evs) s) n"
  using trace_run_same_on [of n s s K evs] by (simp add: same_on_def)

section \<open>Softirq numbers and intervals\<close>

definition softirq_switch :: "nat \<Rightarrow> kctx \<times> kevent \<Rightarrow> bool" where
  "softirq_switch n x \<longleftrightarrow> on_cpu n x \<and>
     (case snd x of K_softirq_ent q \<Rightarrow> True | K_softirq_ret q \<Rightarrow> True | _ \<Rightarrow> False)"

definition do_softirq_entry :: "nat \<Rightarrow> kctx \<times> kevent \<Rightarrow> bool" where
  "do_softirq_entry n x \<longleftrightarrow> on_cpu n x \<and> (case snd x of K_do_softirq_ent \<Rightarrow> True | _ \<Rightarrow> False)"

lemma softirqs_nr_kept:
  "\<forall>x \<in> set evs. \<not> softirq_switch n x \<Longrightarrow>
   softirqs_nr (cpu_data (trace_run K evs s) n) = softirqs_nr (cpu_data s n)"
proof (induction evs arbitrary: s)
  case Nil
  then show ?case by simp
next
  case (Cons x evs)
  then have "\<not> softirq_switch n x" by simp
  then have "softirqs_nr (cpu_data (trace_step K x s) n) = softirqs_nr (cpu_data s n)"
    by (cases "(K, x, s)" rule: trace_step.cases)
      (auto simp: handler_defs softirq_switch_def on_cpu_def)
  with Cons show ?case by simp
qed

lemma softirq_btime_kept:
  "\<forall>x \<in> set evs. \<not> do_softirq_entry n x \<Longrightarrow>
   softirq_btime (cpu_data (trace_run K evs s) n) = softirq_btime (cpu_data s n)"
proof (induction evs arbitrary: s)
  case Nil
  then show ?case by simp
next
  case (Cons x evs)
  then have "\<not> do_softirq_entry n x" by simp
  then have "softirq_btime (cpu_data (trace_step K x s) n) = softirq_btime (cpu_data s n)"
    by (cases "(K, x, s)" rule: trace_step.cases)
      (auto simp: handler_defs do_softirq_entry_def on_cpu_def)
  with Cons show ?case by simp
qed

text \<open>
  C35: A wakeup made while a softirq runs carries that softirq's number: after the entry of the
  softirq on a CPU, and any events in between that neither enter nor leave a softirq there, the
  last record of that CPU is the wakeup with the number in \<open>in_which_ctx\<close>.
\<close>

theorem wakeup_carries_softirq:
  assumes "cpu_id c' = cpu_id c" and "\<forall>x \<in> set evs. \<not> softirq_switch (cpu_id c) x"
    and "\<not> in_irq c'" and "serving_softirq c'"
  shows "\<exists>r e. ring (trace_run K ((c, K_softirq_ent q) # evs @ [(c', K_try_to_wake_up p)]) s) (cpu_id c)
      = r @ [Try_to_wake_up e] \<and> e_ctx e = softirq_nr q \<and> e_next_pid e = t_pid p"
  using assms(1,3,4) softirqs_nr_kept [OF assms(2)]
  by (simp add: handler_defs assign_defs wakeup_ctx_def)

text \<open>
  The interval of a softirq round: the record made when \<open>__do_softirq\<close> returns on a CPU holds
  the time of its entry on the same CPU and the time of the return, whatever other handlers ran
  in between and whatever the other CPUs did.
\<close>

theorem do_softirq_interval:
  assumes "cpu_id c' = cpu_id c" and "\<forall>x \<in> set evs. \<not> do_softirq_entry (cpu_id c) x"
  shows "\<exists>r. ring (trace_run K ((c, K_do_softirq_ent) # evs @ [(c', K_do_softirq_ret)]) s) (cpu_id c)
      = r @ [Do_softirq_ret (copy_comm K (t_comm (cur c'))) (rdtsc c) (rdtsc c')]"
  using assms(1) softirq_btime_kept [OF assms(2)] by (simp add: handler_defs)

theorem wakeup_carries_softirq_witness:
  "\<exists>r e. ring (trace_run (ref_kapi 64 8)
      [(ref_ctx 0 1 5, K_softirq_ent Net_rx), (ref_ctx 1 1 6, K_softirq_ret Timer),
       (ref_ctx 0 1 7, K_try_to_wake_up (ref_task ''db'' 3 1))] (static_data (ref_kapi 64 8))) 0
      = r @ [Try_to_wake_up e] \<and> e_ctx e = 3 \<and> e_next_pid e = 3"
  using wakeup_carries_softirq [of "ref_ctx 0 1 7" "ref_ctx 0 1 5"
      "[(ref_ctx 1 1 6, K_softirq_ret Timer)]" "ref_kapi 64 8" Net_rx "ref_task ''db'' 3 1"
      "static_data (ref_kapi 64 8)"]
  by (simp add: softirq_switch_def on_cpu_def)

theorem do_softirq_interval_witness:
  "\<exists>r m. ring (trace_run (ref_kapi 64 8)
      [(ref_ctx 0 1 5, K_do_softirq_ent), (ref_ctx 1 1 6, K_do_softirq_ent),
       (ref_ctx 0 1 7, K_do_softirq_ret)] (static_data (ref_kapi 64 8))) 0
      = r @ [Do_softirq_ret m 5 7]"
  using do_softirq_interval [of "ref_ctx 0 1 7" "ref_ctx 0 1 5"
      "[(ref_ctx 1 1 6, K_do_softirq_ent)]" "ref_kapi 64 8" "static_data (ref_kapi 64 8)"]
  by (auto simp: do_softirq_entry_def on_cpu_def)

section \<open>The range of \<open>in_which_ctx\<close>\<close>

definition sched_of :: "trace_rec \<Rightarrow> sched_entry option" where
  "sched_of r = (case r of Switch_to e \<Rightarrow> Some e | Try_to_wake_up e \<Rightarrow> Some e
     | Wake_up_new_task e \<Rightarrow> Some e | Do_exit e \<Rightarrow> Some e | _ \<Rightarrow> None)"

text \<open>What holds of every CPU: the softirq number and the contexts recorded so far are in range.\<close>

definition ctx_in_range :: "wperf \<Rightarrow> bool" where
  "ctx_in_range s \<longleftrightarrow> (\<forall>n. 0 \<le> softirqs_nr (cpu_data s n) \<and> softirqs_nr (cpu_data s n) \<le> NR_SOFTIRQS \<and>
     (\<forall>r \<in> set (ring s n). \<forall>e. sched_of r = Some e \<longrightarrow> - NR_SOFTIRQS \<le> e_ctx e \<and> e_ctx e \<le> PROCESS))"

lemma ctx_bounds:
  assumes "0 \<le> softirqs_nr d" and "softirqs_nr d \<le> NR_SOFTIRQS"
  shows "- NR_SOFTIRQS \<le> switch_ctx c d" "switch_ctx c d \<le> PROCESS"
    "- NR_SOFTIRQS \<le> wakeup_ctx c d" "wakeup_ctx c d \<le> PROCESS"
  using assms by (simp_all add: switch_ctx_def wakeup_ctx_def ctx_defs)

lemma process_bounds: "- NR_SOFTIRQS \<le> PROCESS" "0 \<le> NR_SOFTIRQS"
  by (simp_all add: ctx_defs)

lemma trace_step_ctx_in_range [inv_intros]: "ctx_in_range s \<Longrightarrow> ctx_in_range (trace_step K x s)"
  using softirq_nr_bounds
  by (cases "(K, x, s)" rule: trace_step.cases)
    (auto simp: handler_defs assign_defs ctx_in_range_def sched_of_def ctx_bounds process_bounds
      less_imp_le)

lemma static_ctx_in_range: "ctx_in_range (static_data K)"
  by (simp add: ctx_in_range_def static_data_def ctx_defs)

lemma trace_run_ctx_in_range: "ctx_in_range s \<Longrightarrow> ctx_in_range (trace_run K evs s)"
  by (induction evs arbitrary: s) (auto intro: inv_intros)

text \<open>
  From the loaded module on, in every run of the handlers, each recorded \<open>in_which_ctx\<close> lies
  between the negated number of softirqs and the code for process context.
\<close>

theorem recorded_ctx_bounds:
  assumes "r \<in> set (ring (trace_run K evs (static_data K)) n)" and "sched_of r = Some e"
  shows "- NR_SOFTIRQS \<le> e_ctx e \<and> e_ctx e \<le> PROCESS"
  using trace_run_ctx_in_range [OF static_ctx_in_range, of K evs] assms
  by (simp add: ctx_in_range_def)

theorem recorded_ctx_bounds_witness:
  "\<exists>e. Do_exit e \<in> set (ring (trace_run (ref_kapi 64 8) [(ref_ctx 0 1 5, K_do_exit)]
      (static_data (ref_kapi 64 8))) 0) \<and> e_ctx e \<le> PROCESS"
proof -
  let ?e = "assign_do_exit (ref_kapi 64 8) (ref_ctx 0 1 5) 5 ref_slot"
  have m: "Do_exit ?e \<in> set (ring (trace_run (ref_kapi 64 8) [(ref_ctx 0 1 5, K_do_exit)]
      (static_data (ref_kapi 64 8))) 0)"
    by (simp add: handler_defs)
  with recorded_ctx_bounds [OF m, of ?e] show ?thesis by (auto simp: sched_of_def)
qed

section \<open>Reading a printed line back\<close>

lemma show_int_no_comma [simp]: "CHR '','' \<notin> set (show_int i)"
  by (simp add: show_int_def)

lemma fmt_no_comma [simp]: "CHR '','' \<notin> set (fmt_ld w)" "CHR '','' \<notin> set (fmt_llu w)"
  by (simp_all add: fmt_ld_def fmt_llu_def)

lemma print_tokens:
  assumes "CHR '','' \<notin> set (cstr (e_prev_comm e))" and "CHR '','' \<notin> set (cstr (e_next_comm e))"
  shows "tokens CHR '','' (Some (print_switch_to e)) = sched_fields e"
    and "tokens CHR '','' (Some (print_do_exit e)) = (sched_fields e)[4 := CHR '' '' # sched_fields e ! 4]"
proof -
  show "tokens CHR '','' (Some (print_switch_to e)) = sched_fields e"
    unfolding print_switch_to_def
    by (rule tokens_join) (use assms in \<open>auto simp: sched_fields_def\<close>)
  let ?ss = "(sched_fields e)[4 := CHR '' '' # sched_fields e ! 4]"
  have "print_do_exit e = join CHR '','' ?ss"
    by (simp add: print_do_exit_def sched_fields_def numeral_eq_Suc)
  moreover have "tokens CHR '','' (Some (join CHR '','' ?ss)) = ?ss"
    by (rule tokens_join) (use assms in \<open>auto simp: sched_fields_def numeral_eq_Suc\<close>)
  ultimately show "tokens CHR '','' (Some (print_do_exit e)) = ?ss" by simp
qed

text \<open>
  A printed scheduling record can be cut back into its nine fields at the commas, provided
  neither task name contains a comma; the line of an exit differs in one more blank only.
\<close>

theorem printed_record_fields:
  assumes "CHR '','' \<notin> set (cstr (e_prev_comm e))" and "CHR '','' \<notin> set (cstr (e_next_comm e))"
  shows "tokens CHR '','' (Some (print_switch_to e)) = sched_fields e \<and>
         tokens CHR '','' (Some (print_do_exit e)) = (sched_fields e)[4 := CHR '' '' # sched_fields e ! 4]"
  by (intro conjI print_tokens assms)

theorem printed_record_fields_witness:
  "tokens CHR '','' (Some (print_switch_to ref_slot)) = sched_fields ref_slot"
  using printed_record_fields [of ref_slot] by (simp add: ref_slot_def cstr_def)

text \<open>
  A task name with a comma breaks the line apart: such a record has more than nine fields.
\<close>

theorem comma_in_name_splits:
  assumes "cstr (e_prev_comm e) = a @ CHR '','' # b" and "CHR '','' \<notin> set a" and "CHR '','' \<notin> set b"
    and "CHR '','' \<notin> set (cstr (e_next_comm e))"
  shows "length (tokens CHR '','' (Some (print_switch_to e))) = 10"
proof -
  let ?ss = "take 2 (sched_fields e) @ ['' prev_comm='' @ a, b] @ drop 3 (sched_fields e)"
  have "print_switch_to e = join CHR '','' ?ss"
    using assms(1) by (simp add: print_switch_to_def sched_fields_def numeral_eq_Suc)
  moreover have "tokens CHR '','' (Some (join CHR '','' ?ss)) = ?ss"
    using assms by (intro tokens_join) (auto simp: sched_fields_def numeral_eq_Suc)
  ultimately show ?thesis by (simp add: sched_fields_def)
qed

theorem comma_in_name_splits_witness:
  "length (tokens CHR '','' (Some (print_switch_to (ref_slot\<lparr>e_prev_comm := ''a,b''\<rparr>)))) = 10"
  using comma_in_name_splits [of "ref_slot\<lparr>e_prev_comm := ''a,b''\<rparr>" "''a''" "''b''"]
  by (simp add: ref_slot_def cstr_def)

end
