(* ===== verification/Machine.thy ===== *)
theory Machine
  imports DebugFs TraceEvents
begin

text \<open>
  The loaded module as a state machine: whatever order the kernel's probes and the users of the six
  files come in, which states are reached and that no call leaves its arrays or stops the kernel.
\<close>

section \<open>Calls\<close>

text \<open>The jprobe behind a traced function; the softirq functions have kretprobes instead.\<close>

fun event_jp :: "kevent \<Rightarrow> jprobe option" where
  "event_jp (K_switch_to p n) = Some Switch_to_jp"
| "event_jp (K_try_to_wake_up p) = Some Try_to_wake_up_jp"
| "event_jp (K_wake_up_new_task p) = Some Wake_up_new_task_jp"
| "event_jp K_do_exit = Some Do_exit_jp"
| "event_jp K_futex_wait_queue_me = Some Futex_wait_queue_me_jp"
| "event_jp K_do_futex = Some Do_futex_jp"
| "event_jp K_journal_end_buffer_io_sync = Some Journal_end_buffer_io_sync_jp"
| "event_jp K_lock_sock = Some Lock_sock_jp"
| "event_jp _ = None"

datatype mcall =
    Trace kctx kevent
  | Disk_stats u64 hd_struct hd_struct
  | Socket jprobe kctx u64
  | Write_enable ev_dir string int
  | Read_enable ev_dir nat int
  | Write_filter ev_dir io_env string int
  | Read_filter ev_dir io_env nat int
  | Read_output ev_dir io_env nat int
  | Write_output string int

text \<open>The state after a call; a probed function whose probe is not armed runs no handler.\<close>

fun run_call :: "kapi \<Rightarrow> mcall \<Rightarrow> wperf \<Rightarrow> wperf res" where
  "run_call K (Trace c e) s =
     (case event_jp e of
        Some j \<Rightarrow> Inr (if armed s j then trace_step K (c, e) s else s)
      | None \<Rightarrow> Inr (if krps_registered (probes s) then trace_step K (c, e) s else s))"
| "run_call K (Disk_stats now part part0) s =
     (if armed s Part_round_stats_jp then on_part_round_stats_ent K now part part0 s else Inr s)"
| "run_call K (Socket j c sz) s =
     (case tx_handler j of
        Some h \<Rightarrow> if armed s j then h c sz s else Inr s
      | None \<Rightarrow> Inr s)"
| "run_call K (Write_enable d ubuf pos) s =
     res_bind (enable_write_generic K (Some d) ubuf pos s) (\<lambda>(r, pos', s'). Inr s')"
| "run_call K (Read_enable d cnt pos) s =
     res_bind (enable_read_generic K (Some d) cnt pos s) (\<lambda>(r, out, pos', s'). Inr s')"
| "run_call K (Write_filter d E ubuf pos) s =
     res_bind (filter_write_generic K E (Some d) ubuf pos s) (\<lambda>(r, pos', s'). Inr s')"
| "run_call K (Read_filter d E cnt pos) s =
     res_bind (filter_read_generic K E (Some d) cnt pos s) (\<lambda>(r, out, pos', s'). Inr s')"
| "run_call K (Read_output d E cnt pos) s =
     res_bind (output_read_generic K E (Some d) cnt pos s) (\<lambda>(r, out, pos', s'). Inr s')"
| "run_call K (Write_output ubuf pos) s = (case output_write_generic ubuf pos s of (r, pos', s') \<Rightarrow> Inr s')"

text \<open>Calls as wholes, one after the other; FileRace, TxRace and AllFiles divide them.\<close>

fun run_calls :: "kapi \<Rightarrow> mcall list \<Rightarrow> wperf \<Rightarrow> wperf res" where
  "run_calls K [] s = Inr s"
| "run_calls K (c # cs) s = res_bind (run_call K c s) (run_calls K cs)"

text \<open>
  What the calls of a kernel and of careful users look like: disk names are C strings, pids are
  below the limit, a fresh sequence has a page, and a filter text names at most twenty devices or
  only pids below the limit. What a careless text does is the subject of the two overflow
  properties.
\<close>

fun careful_filter :: "kapi \<Rightarrow> ev_dir \<Rightarrow> string \<Rightarrow> bool" where
  "careful_filter K Disk_utils data \<longleftrightarrow> length (filter_tokens K data) \<le> MAX_DISK_NUM"
| "careful_filter K Tx_stat data \<longleftrightarrow> (\<forall>t \<in> set (filter_tokens K data).
     case kstrtoul K t of Inl e \<Rightarrow> True | Inr w \<Rightarrow> bitmap_start K w < pid_max_limit K)"

definition page_env :: "kapi \<Rightarrow> io_env \<Rightarrow> bool" where
  "page_env K E \<longleftrightarrow> (case seq_mem E of None \<Rightarrow> True | Some q \<Rightarrow> length (seq_buffer q) = page_size K)"

fun valid_call :: "kapi \<Rightarrow> mcall \<Rightarrow> bool" where
  "valid_call K (Disk_stats now part part0) \<longleftrightarrow> nul_free (dev_name (stats_part part part0))"
| "valid_call K (Socket j c sz) \<longleftrightarrow> 0 \<le> t_pid (cur c) \<and> nat (t_pid (cur c)) < pid_max_limit K"
| "valid_call K (Write_filter d E ubuf pos) \<longleftrightarrow> careful_filter K d (ubuf @ [NUL])"
| "valid_call K (Read_filter d E cnt pos) \<longleftrightarrow> page_env K E"
| "valid_call K (Read_output d E cnt pos) \<longleftrightarrow> page_env K E"
| "valid_call K _ \<longleftrightarrow> True"

text \<open>The documented behaviour of the kernel, and a page and a pid range as large as a kernel's.\<close>

definition kapi_ok :: "kapi \<Rightarrow> bool" where
  "kapi_ok K \<longleftrightarrow> seq_init_ok K \<and> printf_ok K \<and> strip_ok K \<and> 1024 \<le> page_size K \<and> pid_max_limit K \<le> 2 ^ 31"

lemma ref_kapi_is_ok: "kapi_ok (ref_kapi 4096 8)"
  using ref_printf_ok ref_init_ok [of 4096 8] ref_strip_ok by (simp add: kapi_ok_def)

section \<open>Reachable states\<close>

text \<open>The states that careful users reach by whole calls.\<close>

inductive mreach :: "kapi \<Rightarrow> wperf \<Rightarrow> bool" for K where
  loaded: "loads L \<Longrightarrow> trace_wperf_events_init L (static_data K) = Inr (0, s) \<Longrightarrow> mreach K s"
| call: "mreach K s \<Longrightarrow> valid_call K c \<Longrightarrow> run_call K c s = Inr s' \<Longrightarrow> mreach K s'"

text \<open>
  The invariant: the tables are well-formed, a statistic whose file \<open>enable\<close> is off has no armed
  probe, and the tracing probes are always armed.
\<close>

definition switches_ok :: "wperf \<Rightarrow> bool" where
  "switches_ok s \<longleftrightarrow> (armed s Part_round_stats_jp \<longrightarrow> denabled s) \<and>
     (\<forall>j \<in> set tx_jps. armed s j \<longrightarrow> tx_enabled s) \<and>
     (\<forall>j. j \<noteq> Part_round_stats_jp \<and> j \<notin> set tx_jps \<longrightarrow> armed s j)"

definition minv :: "kapi \<Rightarrow> wperf \<Rightarrow> bool" where
  "minv K s \<longleftrightarrow> stats_wf K s \<and> switches_ok s"

text \<open>A call that only appends to the probe log, or changes fields the invariant does not read.\<close>

lemma minv_same:
  "minv K s \<Longrightarrow> dnames s' = dnames s \<Longrightarrow> length (dutils s') = length (dutils s) \<Longrightarrow> didx s' = didx s \<Longrightarrow>
   denabled s' = denabled s \<Longrightarrow> tx_enabled s' = tx_enabled s \<Longrightarrow> pid_filter s' = pid_filter s \<Longrightarrow>
   length (tx_stats s') = length (tx_stats s) \<Longrightarrow> probes s' = probes s \<Longrightarrow> minv K s'"
  by (simp add: minv_def stats_wf_def disk_wf_def tx_wf_def switches_ok_def armed_def registered_def)

lemma minv_counters [simp]:
  "length us = length (dutils s) \<Longrightarrow> minv K (s\<lparr>dutils := us\<rparr>) = minv K s"
  "length us = length (tx_stats s) \<Longrightarrow> minv K (s\<lparr>tx_stats := us\<rparr>) = minv K s"
  by (simp_all add: minv_def stats_wf_def disk_wf_def tx_wf_def switches_ok_def armed_def registered_def)

text \<open>A call has an outcome and every outcome keeps the invariant.\<close>

definition keeps :: "kapi \<Rightarrow> (wperf \<Rightarrow> 'a res) \<Rightarrow> ('a \<Rightarrow> wperf) \<Rightarrow> wperf \<Rightarrow> bool" where
  "keeps K f st s \<longleftrightarrow> (\<exists>x. f s = Inr x \<and> minv K (st x))"

lemma keeps_trace: "minv K s \<Longrightarrow> keeps K (run_call K (Trace c e)) id s"
  by (auto simp: keeps_def split: option.splits intro: minv_same simp: frame_simps)

lemma keeps_disk_stats:
  assumes "minv K s" and "nul_free (dev_name (stats_part part part0))"
  shows "keeps K (run_call K (Disk_stats now part part0)) id s"
proof -
  let ?p = "stats_part part part0"
  have wf: "disk_wf s" using assms(1) by (simp add: minv_def stats_wf_def)
  then have "index_of (dev_name ?p) (names s) < length (dutils s)" if "dev_name ?p \<in> set (names s)"
    using index_of_less [OF that] length_names [OF wf] by (simp add: disk_wf_def)
  then show ?thesis
    using dev_idx_spec [OF wf assms(2)] assms(1)
    by (auto simp: keeps_def on_part_round_stats_ent_def stats_part_def Let_def)
qed

lemma keeps_socket:
  assumes "minv K s" and "0 \<le> t_pid (cur c)" and "nat (t_pid (cur c)) < pid_max_limit K"
  shows "keeps K (run_call K (Socket j c sz)) id s"
proof -
  have "tx_wf K s" using assms(1) by (simp add: minv_def stats_wf_def)
  from tx_account_spec [OF this assms(2,3), of sz] assms(1) show ?thesis
    using tx_handler_account [of j]
    by (auto simp: keeps_def split: option.splits)
qed

text \<open>The files \<open>enable\<close>.\<close>

lemma minv_enable:
  assumes "minv K s" and "v = 0 \<or> v = 1"
  shows "\<exists>s'. enable_ops_write d v s = Inr (0, s') \<and> minv K s'"
proof -
  obtain s' where s': "enable_ops_write d v s = Inr (0, s')" "stats_wf K s'" "dir_enabled d s' = (v = 1)"
    "\<forall>p \<in> set (dir_probes d). armed s' p \<longleftrightarrow> v = 1"
    "\<forall>p. p \<notin> set (dir_probes d) \<longrightarrow> armed s' p = armed s p"
    using ef.write_01 [of K s v d] assms by (auto simp: minv_def)
  have other: "tx_enabled s' = tx_enabled s" if "d = Disk_utils"
    using s'(1) assms(2) that by (auto simp: dutils_enable_write_def res_bind_Inr_iff Let_def)
  have other': "denabled s' = denabled s" if "d = Tx_stat"
    using s'(1) assms(2) that by (auto simp: tx_stats_enable_write_def Let_def)
  have ne: "\<forall>p \<in> set tx_jps. p \<noteq> Part_round_stats_jp" by (simp add: tx_jps_def)
  have "switches_ok s'"
    using s' assms(1) other other' ne by (cases d) (auto simp: minv_def switches_ok_def)
  with s' show ?thesis by (auto simp: minv_def)
qed

lemma keeps_write_enable: "minv K s \<Longrightarrow> keeps K (run_call K (Write_enable d ubuf pos)) id s"
  using minv_enable [of K s _ d]
  by (fastforce simp: keeps_def enable_write_generic_def split: sum.splits)

lemma keeps_read_enable: "minv K s \<Longrightarrow> keeps K (run_call K (Read_enable d cnt pos)) id s"
  by (cases d) (auto simp: keeps_def enable_read_generic_def dutils_enable_read_def
      tx_stats_enable_read_def Let_def split: prod.splits)

text \<open>The files \<open>filter\<close>.\<close>

lemma armed_disk_frame [simp]:
  "armed (s\<lparr>dnames := x\<rparr>) = armed s" "armed (s\<lparr>didx := n\<rparr>) = armed s"
  "registered (s\<lparr>dnames := x\<rparr>) = registered s" "registered (s\<lparr>didx := n\<rparr>) = registered s"
  by (simp_all add: armed_def registered_def fun_eq_iff)

lemma switch_tx_wf [simp]:
  "tx_wf K (enable_jprobe j s) = tx_wf K s" "tx_wf K (disable_jprobe j s) = tx_wf K s"
  by (simp_all add: tx_wf_def)

lemma store_all_total:
  "disk_wf s \<Longrightarrow> \<forall>t \<in> set ts. nul_free t \<Longrightarrow> didx s + length ts \<le> MAX_DISK_NUM \<Longrightarrow>
   \<exists>fine dn n. store_all ts s = Inr (fine, s\<lparr>dnames := dn, didx := n\<rparr>) \<and> disk_wf (s\<lparr>dnames := dn, didx := n\<rparr>)"
proof (induction ts arbitrary: s)
  case Nil
  then show ?case by (auto intro!: exI [of _ "dnames s"] exI [of _ "didx s"])
next
  case (Cons t ts)
  show ?case
  proof (cases "strlen t + 1 > MAX_DNAME_SIZE")
    case True
    with Cons.prems(1) show ?thesis by (auto intro!: exI [of _ "dnames s"] exI [of _ "didx s"])
  next
    case False
    with Cons.prems have "good_name t" by (auto simp: good_name_def)
    with Cons.prems obtain dn where dn: "store_name t s = Inr (s\<lparr>dnames := dn, didx := Suc (didx s)\<rparr>)"
      "disk_wf (s\<lparr>dnames := dn, didx := Suc (didx s)\<rparr>)"
      using store_name_spec [of s t] by auto
    from Cons.IH [OF dn(2)] Cons.prems(2,3) obtain fine dn' n where
      "store_all ts (s\<lparr>dnames := dn, didx := Suc (didx s)\<rparr>) = Inr (fine, s\<lparr>dnames := dn', didx := n\<rparr>)"
      "disk_wf (s\<lparr>dnames := dn', didx := n\<rparr>)" by auto
    with dn(1) False show ?thesis
      by (intro exI [of _ fine] exI [of _ dn'] exI [of _ n]) simp
  qed
qed

lemma watch_all_total:
  "\<forall>t \<in> set ts. \<forall>w. kstrtoul K t = Inr w \<longrightarrow> bitmap_start K w < length bs \<Longrightarrow>
   \<exists>fine bs'. watch_all K ts bs = Inr (fine, bs') \<and> length bs' = length bs"
proof (induction ts arbitrary: bs)
  case (Cons t ts)
  show ?case
  proof (cases "kstrtoul K t")
    case (Inl e)
    then show ?thesis by (intro exI [of _ False] exI [of _ bs]) simp
  next
    case (Inr w)
    with Cons.prems Cons.IH [of "bs[bitmap_start K w := True]"] show ?thesis
      by (auto simp: bitmap_set_one_def)
  qed
qed (simp add: exI [of _ True])

text \<open>What a write to a filter leaves when it stays in the arrays, however careless the text.\<close>

lemma store_all_kept:
  "store_all ts s = Inr (fine, s') \<Longrightarrow> disk_wf s \<Longrightarrow> \<forall>t \<in> set ts. nul_free t \<Longrightarrow>
   \<exists>dn n. s' = s\<lparr>dnames := dn, didx := n\<rparr> \<and> disk_wf s'"
proof (induction ts arbitrary: s)
  case Nil
  then show ?case by (auto intro!: exI [of _ "dnames s"] exI [of _ "didx s"])
next
  case (Cons t ts)
  show ?case
  proof (cases "strlen t + 1 > MAX_DNAME_SIZE")
    case True
    with Cons.prems(1,2) show ?thesis by (auto intro!: exI [of _ "dnames s"] exI [of _ "didx s"])
  next
    case False
    with Cons.prems(1) obtain s1 where s1: "store_name t s = Inr s1" "store_all ts s1 = Inr (fine, s')"
      by (auto simp: res_bind_Inr_iff)
    with Cons.prems(2) have "didx s < MAX_DISK_NUM" by (auto simp: store_name_def disk_wf_def split: if_splits)
    moreover have "good_name t" using False Cons.prems(3) by (auto simp: good_name_def)
    ultimately obtain dn where "s1 = s\<lparr>dnames := dn, didx := Suc (didx s)\<rparr>" "disk_wf s1"
      using store_name_spec [OF Cons.prems(2), of t] s1(1) by auto
    with Cons.IH [OF s1(2)] Cons.prems(3) show ?thesis by auto
  qed
qed

lemma watch_all_kept: "watch_all K ts bs = Inr (fine, bs') \<Longrightarrow> length bs' = length bs"
  by (induction ts arbitrary: bs) (auto simp: bitmap_set_one_def res_bind_Inr_iff split: sum.splits if_splits)

lemma disk_filter_kept:
  assumes "minv K s" and "strip_ok K" and "dutils_filter_write K kmem data s = Inr (r, s')"
  shows "minv K s'"
proof (cases kmem)
  case False
  with assms(1,3) show ?thesis by (simp add: dutils_filter_write_def)
next
  case True
  have wf: "disk_wf s" "stats_wf K s" "switches_ok s" using assms(1) by (auto simp: minv_def stats_wf_def)
  from assms(3) True obtain x where x: "store_all (filter_tokens K data) (filter_start s) = Inr x"
    by (auto simp: filter_write_unfold res_bind_Inr_iff)
  obtain fine s2 where "x = (fine, s2)" by (cases x)
  note r = x [unfolded this]
  have s': "s' = (if fine then (let s3 = if denabled s2 then enable_jprobe Part_round_stats_jp s2 else s2 in s3\<lparr>kbufs := kbufs s3 - 1\<rparr>) else s2)"
    using assms(3) True r by (cases fine) (simp_all add: filter_write_unfold Let_def)
  have "\<forall>t \<in> set (filter_tokens K data). nul_free t"
    using filter_tokens_nul_free [OF assms(2)] by blast
  with store_all_kept [OF r] wf obtain dn n where s2: "s2 = (filter_start s)\<lparr>dnames := dn, didx := n\<rparr>"
    and wf': "disk_wf s2" by auto
  let ?s3 = "if denabled s then enable_jprobe Part_round_stats_jp s2 else s2"
  have on: "armed s2 j \<longleftrightarrow> j \<noteq> Part_round_stats_jp \<and> armed s j" for j
    by (simp add: s2 filter_start_def jp.on_disable)
  have wf2: "stats_wf K s2"
    using wf wf' by (simp add: s2 stats_wf_def tx_wf_def filter_start_def jp.present_disable)
  have sw2: "switches_ok s2" and sw3: "switches_ok ?s3"
    using wf(3) wf2 on by (auto simp: switches_ok_def stats_wf_def jp.on_enable filter_start_def s2)
  have wf3: "stats_wf K ?s3"
    using wf2 by (simp add: stats_wf_def jp.present_enable)
  have kb: "minv K (s0\<lparr>kbufs := k\<rparr>)" if "stats_wf K s0" "switches_ok s0" for s0 k
    using that by (simp add: minv_def stats_wf_def disk_wf_def tx_wf_def switches_ok_def)
  have "denabled s2 = denabled s" by (simp add: s2 filter_start_def)
  with kb [OF wf3 sw3] sw2 wf2 s' show ?thesis by (cases fine) (simp_all add: minv_def Let_def)
qed

lemma tx_filter_kept:
  assumes "minv K s" and "tx_stats_filter_write K kmem data s = Inr (r, s')"
  shows "minv K s'"
proof (cases kmem)
  case False
  with assms show ?thesis by (simp add: tx_stats_filter_write_def)
next
  case True
  have wf: "tx_wf K s" "stats_wf K s" "switches_ok s" using assms(1) by (auto simp: minv_def stats_wf_def)
  from assms(2) True obtain x where x: "watch_all K (filter_tokens K data) (pid_filter s) = Inr x"
    by (auto simp: tx_filter_write_unfold res_bind_Inr_iff)
  obtain fine bs where "x = (fine, bs)" by (cases x)
  note r = x [unfolded this]
  have s': "s' = (let s2 = (tx_start s)\<lparr>pid_filter := bs\<rparr> in
       if fine then (if tx_enabled s then enable_tx_stat_probes s2 else s2) else s2\<lparr>pid_filter := bitmap_zero bs\<rparr>)"
    using assms(2) True r by (cases fine) (simp_all add: tx_filter_write_unfold Let_def)
  have len: "length bs = pid_max_limit K" using watch_all_kept [OF r] wf by (simp add: tx_wf_def)
  have base: "stats_wf K (tx_start s)" "denabled (tx_start s) = denabled s"
    using wf by (auto simp: stats_wf_def disk_wf_def tx_wf_def tx_start_def tx_switch_armed)
  have step: "minv K s'" if "length (pid_filter s') = pid_max_limit K" and "stats_wf K (s'\<lparr>pid_filter := pid_filter s\<rparr>)"
      and "\<forall>j. armed s' j \<longrightarrow> j \<in> set tx_jps \<and> tx_enabled s \<or> j \<notin> set tx_jps \<and> armed s j"
      and "\<forall>j. j \<notin> set tx_jps \<longrightarrow> armed s' j = armed s j"
      and "denabled s' = denabled s" and "tx_enabled s' = tx_enabled s" for s'
    using that wf by (auto simp: minv_def stats_wf_def disk_wf_def tx_wf_def switches_ok_def)
  let ?s2 = "(tx_start s)\<lparr>pid_filter := bs\<rparr>"
  have fine: "minv K (if tx_enabled s then enable_tx_stat_probes ?s2 else ?s2)"
    by (rule step) (use len base wf in \<open>auto simp: stats_wf_def disk_wf_def tx_wf_def tx_switch_armed\<close>)
  have "minv K (?s2\<lparr>pid_filter := bitmap_zero bs\<rparr>)"
    by (rule step) (use len base wf in \<open>auto simp: stats_wf_def disk_wf_def tx_wf_def bitmap_zero_def\<close>)
  with fine s' show ?thesis by (simp add: Let_def)
qed

lemma minv_disk_filter:
  assumes "minv K s" and "strip_ok K" and "careful_filter K Disk_utils data"
  shows "\<exists>r s'. filter_ops_write K kmem Disk_utils data s = Inr (r, s') \<and> minv K s'"
proof -
  have "\<forall>t \<in> set (filter_tokens K data). nul_free t"
    using filter_tokens_nul_free [OF assms(2)] by blast
  with store_all_total [of "filter_start s" "filter_tokens K data"] assms(1,3)
  obtain x where "store_all (filter_tokens K data) (filter_start s) = Inr x" by (auto simp: minv_def stats_wf_def)
  then have "\<exists>r s'. dutils_filter_write K kmem data s = Inr (r, s')"
    by (cases kmem; cases x) (simp_all add: filter_write_unfold Let_def, simp_all add: dutils_filter_write_def)
  with disk_filter_kept [OF assms(1,2)] show ?thesis by fastforce
qed

lemma minv_tx_filter:
  assumes "minv K s" and "careful_filter K Tx_stat data"
  shows "\<exists>r s'. filter_ops_write K kmem Tx_stat data s = Inr (r, s') \<and> minv K s'"
proof -
  have "\<forall>t \<in> set (filter_tokens K data). \<forall>w. kstrtoul K t = Inr w \<longrightarrow> bitmap_start K w < length (pid_filter s)"
    using assms by (auto simp: minv_def stats_wf_def tx_wf_def split: sum.splits)
  with watch_all_total [of "filter_tokens K data" K "pid_filter s"]
  obtain x where "watch_all K (filter_tokens K data) (pid_filter s) = Inr x" by blast
  then have "\<exists>r s'. tx_stats_filter_write K kmem data s = Inr (r, s')"
    by (cases kmem; cases x) (simp_all add: tx_filter_write_unfold Let_def, simp_all add: tx_stats_filter_write_def)
  with tx_filter_kept [OF assms(1)] show ?thesis by fastforce
qed

lemma keeps_write_filter:
  assumes "minv K s" and "kapi_ok K" and "careful_filter K d (ubuf @ [NUL])"
  shows "keeps K (run_call K (Write_filter d E ubuf pos)) id s"
proof -
  have "strip_ok K" using assms(2) by (simp add: kapi_ok_def)
  then obtain r s' where "filter_ops_write K (dup_mem E) d (ubuf @ [NUL]) s = Inr (r, s')" "minv K s'"
    using minv_disk_filter [OF assms(1), of "ubuf @ [NUL]" "dup_mem E"]
      minv_tx_filter [OF assms(1), of "ubuf @ [NUL]" "dup_mem E"] assms(3) by (cases d) auto
  with assms(1) show ?thesis by (auto simp: keeps_def filter_write_generic_def)
qed

text \<open>The reads.\<close>

lemma read_generic_keeps:
  assumes "minv K s" and "page_env K E"
    and "\<And>q. length (seq_buffer q) = page_size K \<Longrightarrow>
      \<exists>r q' s'. f d (trace_seq_init K q) s = Inr (r, q', s') \<and> minv K s'"
  shows "\<exists>r out pos' s'. read_generic K E f (Some d) cnt pos s = Inr (r, out, pos', s') \<and> minv K s'"
proof (cases "seq_mem E")
  case None
  with assms(1) show ?thesis by (simp add: read_generic_def)
next
  case (Some q)
  with assms(2) have "length (seq_buffer q) = page_size K" by (simp add: page_env_def)
  with assms(3) obtain r q' s' where "f d (trace_seq_init K q) s = Inr (r, q', s')" "minv K s'" by blast
  with Some assms(1) show ?thesis
    by (cases "simple_read_from_buffer K cnt pos (seq_text q')") (auto simp: read_generic_def)
qed

lemma keeps_read_filter:
  assumes "minv K s" and "kapi_ok K" and "page_env K E"
  shows "keeps K (run_call K (Read_filter d E cnt pos)) id s"
proof -
  have "\<exists>r q' s'. filter_ops_read K d (trace_seq_init K q) s = Inr (r, q', s') \<and> minv K s'"
    if "length (seq_buffer q) = page_size K" for q
    using disk_filter_read_line [of s K q] tx_filter_read_line [of K s q] assms that
    by (cases d) (auto simp: minv_def stats_wf_def kapi_ok_def)
  then obtain r out pos' s' where
    "read_generic K E (filter_ops_read K) (Some d) cnt pos s = Inr (r, out, pos', s')" "minv K s'"
    using read_generic_keeps [OF assms(1,3), of "filter_ops_read K" d cnt pos] by blast
  then show ?thesis by (simp add: keeps_def filter_read_generic_def)
qed

lemma minv_reads:
  assumes "minv K s" and "registered s'" and "s' = s\<lparr>probes := p\<rparr>"
    and "\<forall>j. armed s' j \<longleftrightarrow> (if j \<in> set (dir_probes d) then dir_enabled d s else armed s j)"
  shows "minv K s'"
proof -
  have "\<forall>p \<in> set tx_jps. p \<noteq> Part_round_stats_jp" by (simp add: tx_jps_def)
  with assms show ?thesis
    by (cases d) (auto simp: minv_def stats_wf_def disk_wf_def tx_wf_def switches_ok_def)
qed

lemma keeps_read_output:
  assumes "minv K s" and "kapi_ok K" and "page_env K E"
  shows "keeps K (run_call K (Read_output d E cnt pos)) id s"
proof -
  have "\<exists>r q' s'. output_ops_read K d (trace_seq_init K q) s = Inr (r, q', s') \<and> minv K s'"
    if q: "length (seq_buffer q) = page_size K" for q
  proof (cases d)
    case Disk_utils
    then obtain s' q' p where "output_ops_read K d (trace_seq_init K q) s = Inr (0, q', s')"
      "s' = s\<lparr>probes := p\<rparr>" "registered s'"
      "\<forall>j. armed s' j \<longleftrightarrow> (if j = Part_round_stats_jp then denabled s else armed s j)"
      using disk_output_read_page [of s K q] assms q by (auto simp: minv_def stats_wf_def kapi_ok_def)
    with minv_reads [OF assms(1), of s' p Disk_utils] show ?thesis by auto
  next
    case Tx_stat
    then obtain s' q' p where "output_ops_read K d (trace_seq_init K q) s = Inr (0, q', s')"
      "s' = s\<lparr>probes := p\<rparr>" "registered s'"
      "\<forall>j. armed s' j \<longleftrightarrow> (if j \<in> set tx_jps then tx_enabled s else armed s j)"
      using tx_output_read_page [of K s q] assms q by (auto simp: minv_def stats_wf_def kapi_ok_def)
    with minv_reads [OF assms(1), of s' p Tx_stat] show ?thesis by auto
  qed
  then obtain r out pos' s' where
    "read_generic K E (output_ops_read K) (Some d) cnt pos s = Inr (r, out, pos', s')" "minv K s'"
    using read_generic_keeps [OF assms(1,3), of "output_ops_read K" d cnt pos] by blast
  then show ?thesis by (simp add: keeps_def output_read_generic_def)
qed

lemma valid_call_keeps:
  assumes "minv K s" and "kapi_ok K" and "valid_call K c"
  shows "\<exists>s'. run_call K c s = Inr s' \<and> minv K s'"
proof -
  have "keeps K (run_call K c) id s"
  proof (cases c)
    case (Write_output ubuf pos)
    with assms(1) show ?thesis by (simp add: keeps_def output_write_generic_def)
  qed (use assms keeps_trace keeps_disk_stats keeps_socket keeps_write_enable keeps_read_enable
      keeps_write_filter keeps_read_filter keeps_read_output in \<open>simp_all only: valid_call.simps\<close>)
  then show ?thesis by (auto simp: keeps_def)
qed

text \<open>A call that has an outcome keeps the invariant, careless ones included.\<close>

lemma minv_bumped:
  "on_part_round_stats_ent K now part part0 s = Inr s' \<Longrightarrow> minv K s \<Longrightarrow> minv K s'"
  by (auto simp: on_part_round_stats_ent_def Let_def res_bind_Inr_iff split: if_splits)

lemma minv_socket: "tx_handler j = Some h \<Longrightarrow> h c sz s = Inr s' \<Longrightarrow> minv K s \<Longrightarrow> minv K s'"
  using tx_handler_account [of j h] by (auto simp: tx_account_def Let_def split: if_splits)

lemma read_generic_kept:
  assumes "read_generic K E f (Some d) cnt pos s = Inr (r, out, pos', s')" and "minv K s"
    and "\<And>q r q' s'. f d q s = Inr (r, q', s') \<Longrightarrow> minv K s'"
  shows "minv K s'"
proof (cases "pos = 0 \<and> seq_mem E \<noteq> None")
  case True
  then obtain q where q: "pos = 0" "seq_mem E = Some q" by blast
  with assms(1) obtain x where x: "f d (trace_seq_init K q) s = Inr x"
    by (auto simp: read_generic_def res_bind_Inr_iff)
  obtain r0 q' s0 where "x = (r0, q', s0)" by (cases x)
  note x = x [unfolded this]
  with assms(1) q have "s' = s0"
    by (cases "simple_read_from_buffer K cnt 0 (seq_text q')") (simp add: read_generic_def)
  with assms(3) [OF x] show ?thesis by simp
qed (use assms(1,2) in \<open>auto simp: read_generic_def split: if_splits\<close>)

lemma minv_output_read:
  assumes "minv K s" and "output_ops_read K d q s = Inr (r, q', s')"
  shows "minv K s'"
proof (cases d)
  case Disk_utils
  have reg: "registered s" using assms(1) by (simp add: minv_def stats_wf_def)
  let ?s1 = "disable_jprobe Part_round_stats_jp s"
  have s': "s' = (if denabled s then enable_jprobe Part_round_stats_jp ?s1 else ?s1)"
    using assms(2) Disk_utils by (auto simp: dutils_output_read_def Let_def res_bind_Inr_iff split: if_splits)
  then have "\<exists>p. s' = s\<lparr>probes := p\<rparr>" by (simp add: enable_jprobe_def disable_jprobe_def) blast
  moreover have "registered s'" using s' reg by (simp add: jp.present_enable jp.present_disable)
  moreover have "\<forall>j. armed s' j \<longleftrightarrow> (if j \<in> set (dir_probes Disk_utils) then dir_enabled Disk_utils s else armed s j)"
    using s' reg by (auto simp: jp.on_enable jp.on_disable jp.present_disable)
  ultimately show ?thesis using minv_reads [OF assms(1), of s' _ Disk_utils] by blast
next
  case Tx_stat
  have reg: "registered s" using assms(1) by (simp add: minv_def stats_wf_def)
  let ?s1 = "disable_tx_stat_probes s"
  have s': "s' = (if tx_enabled s then enable_tx_stat_probes ?s1 else ?s1)"
    using assms(2) Tx_stat by (auto simp: tx_stats_output_read_def Let_def res_bind_Inr_iff)
  then have "\<exists>p. s' = s\<lparr>probes := p\<rparr>"
    using fold_switch_frame(1) [of tx_jps ?s1] fold_switch_frame(2) [of tx_jps s]
    by (auto simp: enable_tx_stat_probes_def disable_tx_stat_probes_def)
  moreover have "registered s'" using s' reg by (simp add: tx_switch_armed)
  moreover have "\<forall>j. armed s' j \<longleftrightarrow> (if j \<in> set (dir_probes Tx_stat) then dir_enabled Tx_stat s else armed s j)"
    using s' reg by (auto simp: tx_switch_armed)
  ultimately show ?thesis using minv_reads [OF assms(1), of s' _ Tx_stat] by blast
qed

lemma run_call_kept:
  assumes "run_call K c s = Inr s'" and "minv K s" and "strip_ok K"
  shows "minv K s'"
proof (cases c)
  case (Trace kc e)
  with keeps_trace [OF assms(2), of kc e] assms(1) show ?thesis by (auto simp: keeps_def)
next
  case (Disk_stats now part part0)
  with assms show ?thesis by (auto split: if_splits intro: minv_bumped)
next
  case (Socket j kc sz)
  with assms show ?thesis by (auto split: if_splits option.splits intro: minv_socket)
next
  case (Write_enable d ubuf pos)
  with keeps_write_enable [OF assms(2), of d ubuf pos] assms(1) show ?thesis by (auto simp: keeps_def)
next
  case (Read_enable d cnt pos)
  with keeps_read_enable [OF assms(2), of d cnt pos] assms(1) show ?thesis by (auto simp: keeps_def)
next
  case (Write_filter d E ubuf pos)
  with assms disk_filter_kept [OF assms(2,3)] tx_filter_kept [OF assms(2)] show ?thesis
    by (cases d) (auto simp: filter_write_generic_def res_bind_Inr_iff split: if_splits)
next
  case (Read_filter d E cnt pos)
  with assms(1) obtain r out pos' where "read_generic K E (filter_ops_read K) (Some d) cnt pos s = Inr (r, out, pos', s')"
    by (auto simp: filter_read_generic_def res_bind_Inr_iff)
  then show ?thesis using assms(2) by (rule read_generic_kept) (cases d; use assms(2) in \<open>auto simp: res_bind_Inr_iff\<close>)
next
  case (Read_output d E cnt pos)
  with assms(1) obtain r out pos' where "read_generic K E (output_ops_read K) (Some d) cnt pos s = Inr (r, out, pos', s')"
    by (auto simp: output_read_generic_def res_bind_Inr_iff)
  then show ?thesis using assms(2) by (rule read_generic_kept) (rule minv_output_read [OF assms(2)])
next
  case (Write_output ubuf pos)
  with assms show ?thesis by (simp add: output_write_generic_def)
qed

lemma minv_loaded:
  assumes "loads L" and "trace_wperf_events_init L (static_data K) = Inr (0, s)"
  shows "minv K s"
  using init_loaded [OF assms(1), of K] assms(2) by (auto simp: minv_def switches_ok_def)

lemma run_calls_kept: "run_calls K cs s = Inr s' \<Longrightarrow> minv K s \<Longrightarrow> strip_ok K \<Longrightarrow> minv K s'"
  by (induction cs arbitrary: s) (auto simp: res_bind_Inr_iff intro: run_call_kept)

lemma run_calls_fault: "minv K s \<Longrightarrow> kapi_ok K \<Longrightarrow> run_calls K cs s = Inl e \<Longrightarrow> \<exists>c \<in> set cs. \<not> valid_call K c"
proof (induction cs arbitrary: s)
  case (Cons c cs)
  show ?case
  proof (cases "valid_call K c")
    case True
    from valid_call_keeps [OF Cons.prems(1,2) True] obtain s1 where "run_call K c s = Inr s1" "minv K s1" by blast
    with Cons.IH [of s1] Cons.prems(2,3) show ?thesis by auto
  qed simp
qed simp

lemma mreach_minv: "mreach K s \<Longrightarrow> kapi_ok K \<Longrightarrow> minv K s"
proof (induction rule: mreach.induct)
  case (loaded L s)
  then show ?case by (simp add: minv_loaded)
next
  case (call s c s')
  with valid_call_keeps [of K s c] show ?case by auto
qed

section \<open>Properties\<close>

text \<open>
  C8: After loading, whatever whole calls come, one after the other and in whatever order, with filter texts as careless as they may be:
  as long as no call has left an array or stopped the kernel, both tables are well-formed, a statistic that reads as disabled has no armed
  probe, and all the tracing probes are armed; and the first call that does is made only if one of the calls is not
  one of a careful user (a filter with more than twenty names or with a pid past the bitmap, a sending task with such a pid) or
  has an argument no kernel passes (a name with a NUL, a sequence without its page). Calls that run at the same time are not covered:
  between their steps a probe may be armed while its \<open>enable\<close> is off.
\<close>

theorem reachable_invariant:
  assumes "loads L" and "trace_wperf_events_init L (static_data K) = Inr (0, s0)" and "kapi_ok K"
  shows "case run_calls K cs s0 of
      Inl e \<Rightarrow> \<exists>c \<in> set cs. \<not> valid_call K c
    | Inr s \<Rightarrow> disk_wf s \<and> tx_wf K s \<and> registered s \<and>
        (armed s Part_round_stats_jp \<longrightarrow> denabled s) \<and> (\<forall>j \<in> set tx_jps. armed s j \<longrightarrow> tx_enabled s) \<and>
        (\<forall>j. j \<noteq> Part_round_stats_jp \<and> j \<notin> set tx_jps \<longrightarrow> armed s j)"
proof (cases "run_calls K cs s0")
  case (Inl e)
  with run_calls_fault [OF minv_loaded [OF assms(1,2)] assms(3)] show ?thesis by simp
next
  case (Inr s)
  have "strip_ok K" using assms(3) by (simp add: kapi_ok_def)
  from run_calls_kept [OF Inr minv_loaded [OF assms(1,2)] this] Inr show ?thesis
    by (auto simp: minv_def stats_wf_def switches_ok_def)
qed


text \<open>
  While a statistic is disabled, in any reachable state, its probed kernel functions leave the
  module's state as it is: nothing is counted.
\<close>

theorem disabled_counts_nothing:
  assumes "mreach K s" and "kapi_ok K"
  shows "(\<not> denabled s \<longrightarrow> run_call K (Disk_stats now part part0) s = Inr s) \<and>
    (\<not> tx_enabled s \<longrightarrow> run_call K (Socket j c sz) s = Inr s)"
proof -
  have "tx_handler j \<noteq> None \<Longrightarrow> j \<in> set tx_jps" using tx_handler_None [of j] by simp
  with mreach_minv [OF assms] show ?thesis
    by (auto simp: minv_def switches_ok_def split: option.splits)
qed

section \<open>Witnesses\<close>

lemma ref_loads: "loads (ref_loader 0)"
  by (simp add: loads_def ref_loader_def wperf_lookup_def)

text \<open>A state reached by loading the module and switching the transmit statistics on.\<close>

lemma ref_reach: "\<exists>s. mreach (ref_kapi 4096 8) s \<and> \<not> denabled s \<and> \<not> tx_enabled s"
  using init_loaded [OF ref_loads, of "ref_kapi 4096 8"] mreach.loaded [OF ref_loads] by blast

text \<open>A filter with a pid past the bitmap of eight, then a call of a probed function.\<close>

definition careless :: "mcall list" where
  "careless = [Write_filter Tx_stat \<lparr>seq_mem = None, page_mem = True, copy_ok = True, dup_mem = False\<rparr> ''9'' 0,
     Socket Tcp_sendmsg_jp (ref_ctx 0 3 0) 100]"

theorem reachable_invariant_witness:
  "\<exists>s0 s. trace_wperf_events_init (ref_loader 0) (static_data (ref_kapi 4096 8)) = Inr (0, s0) \<and>
     run_calls (ref_kapi 4096 8) careless s0 = Inr s \<and> disk_wf s \<and> armed s Switch_to_jp"
proof -
  obtain s0 where s0: "trace_wperf_events_init (ref_loader 0) (static_data (ref_kapi 4096 8)) = Inr (0, s0)" "\<not> tx_enabled s0"
    using init_loaded [OF ref_loads, of "ref_kapi 4096 8"] by blast
  with minv_loaded [OF ref_loads] have "\<not> armed s0 Tcp_sendmsg_jp" by (force simp: minv_def switches_ok_def tx_jps_def)
  then have "run_calls (ref_kapi 4096 8) careless s0 = Inr s0"
    by (simp add: careless_def filter_write_generic_def tx_stats_filter_write_def split: option.splits)
  with reachable_invariant [OF ref_loads s0(1) ref_kapi_is_ok, of careless] s0(1) show ?thesis by (auto simp: tx_jps_def)
qed


theorem disabled_counts_nothing_witness:
  "\<exists>s. mreach (ref_kapi 4096 8) s \<and>
     run_call (ref_kapi 4096 8) (Socket Tcp_sendmsg_jp (ref_ctx 0 3 0) 100) s = Inr s"
proof -
  obtain s where s: "mreach (ref_kapi 4096 8) s" "\<not> tx_enabled s" using ref_reach by blast
  from disabled_counts_nothing [OF s(1) ref_kapi_is_ok] s show ?thesis by blast
qed

end
