(* ===== verification/Session.thy ===== *)
theory Session
  imports Machine
begin

text \<open>
  A whole measurement with the disk counters, from the loading of the module to the line a user
  reads: the files, the switching of the probe, the handler and the printing together.
\<close>

text \<open>What one call of the probed function means for the table.\<close>

definition stats_bump :: "kapi \<Rightarrow> u64 \<times> hd_struct \<times> hd_struct \<Rightarrow> (string \<times> u64) list \<Rightarrow> (string \<times> u64) list" where
  "stats_bump K = (\<lambda>(now, part, part0) xs. let p = stats_part part part0 in
     if time_after K now (stamp p) \<and> part_in_flight p then bump (dev_name p) (now - stamp p) xs else xs)"

definition disk_session :: "kapi \<Rightarrow> io_env \<Rightarrow> string \<Rightarrow> (u64 \<times> hd_struct \<times> hd_struct) list \<Rightarrow> nat \<Rightarrow> wperf \<Rightarrow> read_res" where
  "disk_session K E text evs n s =
     res_bind (run_calls K (Write_filter Disk_utils E text 0 # Write_enable Disk_utils ''1'' 0
         # map (\<lambda>(now, part, part0). Disk_stats now part part0) evs) s)
       (output_read_generic K E (Some Disk_utils) n 0)"

lemma run_stats:
  "disk_wf s \<Longrightarrow> armed s Part_round_stats_jp \<Longrightarrow> \<forall>(now, part, part0) \<in> set evs. nul_free (dev_name (stats_part part part0)) \<Longrightarrow>
   \<exists>us. run_calls K (map (\<lambda>(now, part, part0). Disk_stats now part part0) evs) s = Inr (s\<lparr>dutils := us\<rparr>) \<and>
     disk_wf (s\<lparr>dutils := us\<rparr>) \<and> counters (s\<lparr>dutils := us\<rparr>) = fold (stats_bump K) evs (counters s)"
proof (induction evs arbitrary: s)
  case Nil
  then show ?case by (auto intro!: exI [of _ "dutils s"])
next
  case (Cons ev evs)
  obtain now part part0 where ev: "ev = (now, part, part0)" by (cases ev)
  with Cons.prems(3) have "nul_free (dev_name (stats_part part part0))" by simp
  from part_round_stats_bump [OF Cons.prems(1) this, of K now] obtain us where
    us: "on_part_round_stats_ent K now part part0 s = Inr (s\<lparr>dutils := us\<rparr>)" "disk_wf (s\<lparr>dutils := us\<rparr>)"
    "counters (s\<lparr>dutils := us\<rparr>) = stats_bump K ev (counters s)"
    by (auto simp: stats_bump_def ev)
  have "armed (s\<lparr>dutils := us\<rparr>) Part_round_stats_jp"
    using Cons.prems(2) by (simp add: armed_def)
  from Cons.IH [OF us(2) this] Cons.prems(2,3) obtain us' where
    "run_calls K (map (\<lambda>(now, part, part0). Disk_stats now part part0) evs) (s\<lparr>dutils := us\<rparr>) = Inr (s\<lparr>dutils := us'\<rparr>)"
    "disk_wf (s\<lparr>dutils := us'\<rparr>)"
    "counters (s\<lparr>dutils := us'\<rparr>) = fold (stats_bump K) evs (counters (s\<lparr>dutils := us\<rparr>))" by auto
  with us(1,3) Cons.prems(2) show ?case
    by (intro exI [of _ us']) (simp add: ev)
qed

text \<open>
  C2: End to end: after loading, a user who writes plain device names to the filter and 1 to
  \<open>enable\<close>, and later reads \<open>output\<close> with a buffer that holds the line, gets each device with the sum,
  modulo \<open>2 ^ 64\<close>, of the times that passed with requests in flight between, in the order of the
  filter; calls for other devices leave no trace.
\<close>

theorem disk_session_output:
  assumes "loads L" and "trace_wperf_events_init L (static_data K) = Inr (0, s)"
    and "kapi_ok K" and "simple_read_ok K" and "kstrtoul_from_user K ''1'' = Inr 1"
    and "seq_mem E = Some q" and "length (seq_buffer q) = page_size K"
    and "page_mem E" and "copy_ok E" and "dup_mem E"
    and "ns \<noteq> []" and "list_all plain_name ns" and "list_all fits_row ns" and "length ns \<le> MAX_DISK_NUM"
    and "length (join CHR '','' ns) + 1 < page_size K"
    and "\<forall>(now, part, part0) \<in> set evs. nul_free (dev_name (stats_part part part0))"
    and "length (list_line (map util_text (fold (stats_bump K) evs (map (\<lambda>m. (m, 0)) ns)))) \<le> n"
  shows "\<exists>s'. disk_session K E (join CHR '','' ns @ [NL]) evs n s =
    (let line = list_line (map util_text (fold (stats_bump K) evs (map (\<lambda>m. (m, 0)) ns)))
     in Inr (int (length line), line, int (length line), s'))"
proof -
  let ?data = "join CHR '','' ns @ [NL]"
  have K: "strip_ok K" "printf_ok K" "seq_init_ok K" "1024 \<le> page_size K"
    using assms(3) by (auto simp: kapi_ok_def)
  obtain s0 where s0: "trace_wperf_events_init L (static_data K) = Inr (0, s0)" "stats_wf K s0"
    "dutils s0 = replicate MAX_DISK_NUM 0" "\<not> denabled s0"
    using init_loaded [OF assms(1), of K] by blast
  with assms(2) have s: "disk_wf s" "registered s" "dutils s = replicate MAX_DISK_NUM 0" "minv K s"
    using minv_loaded [OF assms(1,2)] by (auto simp: stats_wf_def)
  have toks: "filter_tokens K (?data @ [NUL]) = ns"
    using filter_tokens_join [OF K(1) assms(11,12)] by (simp only: filter_tokens_NUL)
  obtain s1 where s1: "dutils_filter_write K True (?data @ [NUL]) s = Inr (0, s1)" "disk_wf s1" "names s1 = ns"
    "dutils s1 = dutils s"
    using filter_write_stores [OF s(1) K(1) s(2), of "?data @ [NUL]"] assms(13,14) unfolding toks by blast
  moreover have "careful_filter K Disk_utils (?data @ [NUL])" using assms(14) by (simp only: careful_filter.simps toks)
  ultimately have m1: "minv K s1"
    using minv_disk_filter [OF s(4) K(1), of "?data @ [NUL]" True] by auto
  let ?s2 = "enable_jprobe Part_round_stats_jp (s1\<lparr>denabled := True\<rparr>)"
  have s2: "disk_wf ?s2" "registered ?s2" "armed ?s2 Part_round_stats_jp" "denabled ?s2"
    using s1(2) m1
    by (auto simp: minv_def stats_wf_def disk_wf_def enable_jprobe_def armed_def registered_def)
  have "counters ?s2 = zip ns (replicate MAX_DISK_NUM 0)"
    using s1(3,4) s(3) by (simp add: counters_def) (simp add: names_def)
  also have "\<dots> = map (\<lambda>m. (m, 0)) ns"
    using assms(14) by (intro nth_equalityI) auto
  finally have c2: "counters ?s2 = map (\<lambda>m. (m, 0)) ns" .
  obtain us where us: "run_calls K (map (\<lambda>(now, part, part0). Disk_stats now part part0) evs) ?s2 = Inr (?s2\<lparr>dutils := us\<rparr>)"
    "disk_wf (?s2\<lparr>dutils := us\<rparr>)" "counters (?s2\<lparr>dutils := us\<rparr>) = fold (stats_bump K) evs (map (\<lambda>m. (m, 0)) ns)"
    using run_stats [OF s2(1,3) assms(16), of K] unfolding c2 by blast
  let ?s3 = "?s2\<lparr>dutils := us\<rparr>"
  have "registered ?s3" using s2(2) by (simp add: registered_def)
  from disk_output_read_page [OF us(2) this K(2,3) assms(7) K(4)] obtain s4 q' where
    out: "dutils_output_read K (trace_seq_init K q) ?s3 = Inr (0, q', s4)"
    "seq_text q' = list_line (map util_text (fold (stats_bump K) evs (map (\<lambda>m. (m, 0)) ns)))"
    unfolding us(3) by blast
  have f: "run_call K (Write_filter Disk_utils E ?data 0) s = Inr s1"
    using s1(1) assms(8-10,15) by (simp add: filter_write_generic_def)
  have e: "run_call K (Write_enable Disk_utils ''1'' 0) s1 = Inr ?s2"
    using assms(5) by (simp add: enable_write_generic_def dutils_enable_write_def Let_def)
  have "output_read_generic K E (Some Disk_utils) n 0 ?s3 =
      (let line = list_line (map util_text (fold (stats_bump K) evs (map (\<lambda>m. (m, 0)) ns)))
       in Inr (int (length line), line, int (length line), s4))"
    using assms(4,6,17) out by (simp add: output_read_generic_def read_generic_def simple_read_ok_def Let_def)
  then have "disk_session K E ?data evs n s =
      (let line = list_line (map util_text (fold (stats_bump K) evs (map (\<lambda>m. (m, 0)) ns)))
       in Inr (int (length line), line, int (length line), s4))"
    unfolding disk_session_def run_calls.simps f e us(1) res_bind_simps by simp
  then show ?thesis by blast
qed

theorem disk_session_output_witness:
  "\<exists>s s'. trace_wperf_events_init (ref_loader 0) (static_data (ref_kapi 4096 8)) = Inr (0, s) \<and>
    disk_session (ref_kapi 4096 8) \<lparr>seq_mem = Some ref_page, page_mem = True, copy_ok = True, dup_mem = True\<rparr>
      (''sda,sdb'' @ [NL])
      [(9, \<lparr>partno = 0, stamp = 4, dev_name = ''sdb'', part_in_flight = True\<rparr>,
           \<lparr>partno = 0, stamp = 4, dev_name = ''sdb'', part_in_flight = True\<rparr>)] 4096 s
    = Inr (12, ''sda=0,sdb=5'' @ [NL], 12, s')"
proof -
  let ?K = "ref_kapi 4096 8"
  let ?E = "\<lparr>seq_mem = Some ref_page, page_mem = True, copy_ok = True, dup_mem = True\<rparr>"
  let ?d = "\<lparr>partno = 0, stamp = 4, dev_name = ''sdb'', part_in_flight = True\<rparr>"
  obtain s where s: "trace_wperf_events_init (ref_loader 0) (static_data ?K) = Inr (0, s)"
    using init_loaded [OF ref_loads, of ?K] by blast
  have k: "kstrtoul_from_user ?K ''1'' = Inr 1"
    by (simp add: ref_strtoul_def is_digit_def read_nat_def digit_val_def)
  have d: "fmt_ld 5 = ''5''" "fmt_ld 0 = ''0''"
    by (simp add: fmt_ld_def show_int_def show_nat.simps digit_def, code_simp)+
  have b: "stats_bump ?K (9, ?d, ?d) [(''sda'', 0), (''sdb'', 0)] = [(''sda'', 0), (''sdb'', 5)]"
    by (simp add: stats_bump_def stats_part_def)
  have "\<exists>s'. disk_session ?K ?E (''sda,sdb'' @ [NL]) [(9, ?d, ?d)] 4096 s = Inr (12, ''sda=0,sdb=5'' @ [NL], 12, s')"
    using disk_session_output [where K = ?K and E = ?E and q = ref_page and ns = "[''sda'', ''sdb'']"
        and evs = "[(9, ?d, ?d)]" and n = 4096, OF ref_loads s ref_kapi_is_ok ref_simple_read_ok k]
    by (simp add: ref_page_def plain_name_def is_space_def fits_row_def MAX_DISK_NUM_def MAX_DNAME_SIZE_def
        stats_part_def b list_line_def util_text_def d nul_free_def)
  with s show ?thesis by blast
qed

end
