(* ===== verification/TxSession.thy ===== *)
theory TxSession
  imports Session
begin

text \<open>
  A whole measurement with the transmit statistics, from the filter to the line a user reads, in any state the
  module can reach with no pid watched.
\<close>

definition tx_session :: "kapi \<Rightarrow> io_env \<Rightarrow> string \<Rightarrow> (jprobe \<times> kctx \<times> u64) list \<Rightarrow> nat \<Rightarrow> wperf \<Rightarrow> read_res" where
  "tx_session K E text evs n s =
     res_bind (run_calls K (Write_filter Tx_stat E text 0 # Write_enable Tx_stat ''1'' 0
         # map (\<lambda>(j, c, sz). Socket j c sz) evs) s)
       (output_read_generic K E (Some Tx_stat) n 0)"

text \<open>What the calls of a pid into the socket layer sent.\<close>

definition sent_by :: "nat \<Rightarrow> (jprobe \<times> kctx \<times> u64) list \<Rightarrow> u64" where
  "sent_by p evs = sum_list [sz. (j, c, sz) \<leftarrow> evs, j \<in> set tx_jps \<and> nat (t_pid (cur c)) = p]"

definition tx_line :: "wperf \<Rightarrow> (jprobe \<times> kctx \<times> u64) list \<Rightarrow> nat list \<Rightarrow> string" where
  "tx_line s evs ns = join CHR '','' (map (\<lambda>p. show_nat p @ ''='' @ fmt_ld (tx_stats s ! p + sent_by p evs))
     (sorted_list_of_set (set ns))) @ [NL]"

lemma run_sockets: "run_calls K (map (\<lambda>(j, c, sz). Socket j c sz) evs) = tx_run evs"
proof (induction evs)
  case (Cons x evs)
  show ?case by (rule ext, cases x) (simp add: Cons split: option.splits)
qed (simp add: fun_eq_iff)

lemma sizes_all_armed: "\<forall>j \<in> set tx_jps. armed s j \<Longrightarrow> sum_list (sizes_of s p evs) = sent_by p evs"
  by (induction evs) (auto simp: sizes_of_def sent_by_def)

lemma mreach_calls:
  "run_calls K cs s = Inr s' \<Longrightarrow> mreach K s \<Longrightarrow> (\<And>c. c \<in> set cs \<Longrightarrow> valid_call K c) \<Longrightarrow> mreach K s'"
  by (induction cs arbitrary: s) (auto simp: res_bind_Inr_iff intro: mreach.call)

lemma tx_session_runs:
  assumes "mreach K s" and "kapi_ok K" and "watched s = {}"
    and "strtoul_ok K" and "bitmap_start_ok K" and "simple_read_ok K" and "kstrtoul_from_user K ''1'' = Inr 1"
    and "seq_mem E = Some q" and "length (seq_buffer q) = page_size K"
    and "page_mem E" and "copy_ok E" and "dup_mem E"
    and "ns \<noteq> []" and "\<forall>p \<in> set ns. p < pid_max_limit K"
    and "length (join CHR '','' (map show_nat ns)) + 1 < page_size K" and "pids_in_range K evs"
    and "length (tx_line s evs ns) + 1 < page_size K" and "length (tx_line s evs ns) \<le> n"
  shows "\<exists>s'. tx_session K E (join CHR '','' (map show_nat ns) @ [NL]) evs n s =
      Inr (int (length (tx_line s evs ns)), tx_line s evs ns, int (length (tx_line s evs ns)), s') \<and>
    watched s' = set ns \<and> mreach K s' \<and>
    (\<forall>p < pid_max_limit K. tx_stats s' ! p = tx_stats s ! p + (if p \<in> set ns then sent_by p evs else 0))"
proof -
  let ?data = "join CHR '','' (map show_nat ns) @ [NL]"
  have K: "strip_ok K" "printf_ok K" "seq_init_ok K" "64 \<le> page_size K" "pid_max_limit K \<le> 2 ^ 31"
    using assms(2) by (auto simp: kapi_ok_def)
  have wf: "tx_wf K s" "registered s" using mreach_minv [OF assms(1,2)] by (auto simp: minv_def stats_wf_def)
  have toks: "list_all2 (pid_token K) (filter_tokens K (?data @ [NUL])) ns"
    using pid_tokens_join [OF K(1) assms(4,5) K(5) assms(13,14)] by (simp only: filter_tokens_NUL)
  then have careful: "careful_filter K Tx_stat (?data @ [NUL])"
    by (fastforce simp: list_all2_conv_all_nth in_set_conv_nth pid_token_def simp del: append_assoc)
  from tx_filter_write_pids [OF wf toks] assms(3) obtain s1 where
    s1: "tx_stats_filter_write K True (?data @ [NUL]) s = Inr (0, s1)" "tx_wf K s1" "watched s1 = set ns"
      "tx_stats s1 = tx_stats s" by auto
  let ?s2 = "enable_tx_stat_probes (s1\<lparr>tx_enabled := True\<rparr>)" and ?socks = "map (\<lambda>(j, c, sz). Socket j c sz) evs"
  have f: "run_call K (Write_filter Tx_stat E ?data 0) s = Inr s1"
    using s1(1) assms(10-12,15) by (simp add: filter_write_generic_def)
  have e: "run_call K (Write_enable Tx_stat ''1'' 0) s1 = Inr ?s2"
    using assms(7) by (simp add: enable_write_generic_def tx_stats_enable_write_def Let_def)
  have r1: "mreach K s1" using mreach.call [OF assms(1) _ f] careful by simp
  then have r2: "mreach K ?s2" using mreach.call [OF r1 _ e] by simp
  have reg: "registered s1" using mreach_minv [OF r1 assms(2)] by (simp add: minv_def stats_wf_def)
  have s2: "tx_wf K ?s2" "watched ?s2 = set ns" "tx_stats ?s2 = tx_stats s" "\<forall>j \<in> set tx_jps. armed ?s2 j"
    using s1 reg by (simp_all add: tx_switch_armed watched_def tx_wf_def)
  obtain us where us: "tx_run evs ?s2 = Inr (?s2\<lparr>tx_stats := us\<rparr>)" "length us = pid_max_limit K"
    "\<forall>p < pid_max_limit K. us ! p = tx_stats s ! p + (if p \<in> set ns then sent_by p evs else 0)"
    using tx_run_spec [OF s2(1) assms(16)] unfolding s2(2,3) sizes_all_armed [OF s2(4)] by blast
  let ?s3 = "?s2\<lparr>tx_stats := us\<rparr>"
  have socks: "run_calls K ?socks ?s2 = Inr ?s3" unfolding run_sockets by (rule us(1))
  have r3: "mreach K ?s3" by (rule mreach_calls [OF socks r2]) (use assms(16) in \<open>auto simp: pids_in_range_def\<close>)
  have s3: "tx_wf K ?s3" "registered ?s3" "watched ?s3 = set ns"
    using mreach_minv [OF r3 assms(2)] s2(2) by (auto simp: minv_def stats_wf_def watched_def)
  obtain s4 q' p where out: "tx_stats_output_read K (trace_seq_init K q) ?s3 = Inr (0, q', s4)"
    "page_line (page_size K) (map (bytes_text ?s3) (sorted_list_of_set (set ns))) (seq_text q')" "s4 = ?s3\<lparr>probes := p\<rparr>"
    using tx_output_read_page [OF s3(1,2) K(2,3) assms(9) K(4,5)] unfolding s3(3) by blast
  have items: "map (bytes_text ?s3) (sorted_list_of_set (set ns)) =
      map (\<lambda>p. show_nat p @ ''='' @ fmt_ld (tx_stats s ! p + sent_by p evs)) (sorted_list_of_set (set ns))"
    using us(3) assms(14) by (auto simp: bytes_text_def)
  have "sorted_list_of_set (set ns) \<noteq> []" using assms(13) by simp
  with out(2) assms(17) have line: "seq_text q' = tx_line s evs ns"
    unfolding items by (auto simp: page_line_def tx_line_def)
  have read: "output_read_generic K E (Some Tx_stat) n 0 ?s3 =
      Inr (int (length (tx_line s evs ns)), tx_line s evs ns, int (length (tx_line s evs ns)), s4)"
    using assms(6,8,18) out(1) line by (simp add: output_read_generic_def read_generic_def simple_read_ok_def Let_def)
  then have "tx_session K E ?data evs n s =
      Inr (int (length (tx_line s evs ns)), tx_line s evs ns, int (length (tx_line s evs ns)), s4)"
    unfolding tx_session_def run_calls.simps f e socks res_bind_simps by simp
  moreover have "run_call K (Read_output Tx_stat E n 0) ?s3 = Inr s4" using read by simp
  then have "mreach K s4" using mreach.call [OF r3, of "Read_output Tx_stat E n 0"] assms(8,9) by (simp add: page_env_def)
  ultimately show ?thesis using us(3) s3(3) out(3) by (auto simp: watched_def)
qed

lemma sent_by_append [simp]: "sent_by p (evs @ evs') = sent_by p evs + sent_by p evs'"
  by (simp add: sent_by_def)

text \<open>
  C3: A measurement of transmissions: in any state the module can reach with no pid watched, a user who writes pids
  to the filter and 1 to \<open>enable\<close>, and later reads \<open>output\<close> with a buffer that holds the line, gets each of the pids
  once, in increasing order, with its counter from before plus the sizes of the calls it made into the socket layer,
  modulo \<open>2 ^ 64\<close>; the calls of other processes are not counted.
\<close>

theorem tx_session_output:
  assumes "mreach K s" and "kapi_ok K" and "watched s = {}"
    and "strtoul_ok K" and "bitmap_start_ok K" and "simple_read_ok K" and "kstrtoul_from_user K ''1'' = Inr 1"
    and "seq_mem E = Some q" and "length (seq_buffer q) = page_size K"
    and "page_mem E" and "copy_ok E" and "dup_mem E"
    and "ns \<noteq> []" and "\<forall>p \<in> set ns. p < pid_max_limit K"
    and "length (join CHR '','' (map show_nat ns)) + 1 < page_size K" and "pids_in_range K evs"
    and "length (tx_line s evs ns) + 1 < page_size K" and "length (tx_line s evs ns) \<le> n"
  shows "\<exists>s'. tx_session K E (join CHR '','' (map show_nat ns) @ [NL]) evs n s =
      Inr (int (length (tx_line s evs ns)), tx_line s evs ns, int (length (tx_line s evs ns)), s') \<and>
    watched s' = set ns \<and> mreach K s' \<and>
    (\<forall>p < pid_max_limit K. tx_stats s' ! p = tx_stats s ! p + (if p \<in> set ns then sent_by p evs else 0))"
  using assms by (rule tx_session_runs)

text \<open>
  C23: Switching the statistic off does not reset it: after one measurement, a write of 0 to \<open>enable\<close> and a second
  measurement of the same pids, the line shows the sums over both, although the pids had to be written again.
\<close>

theorem tx_session_continues:
  assumes "mreach K s" and "kapi_ok K" and "watched s = {}"
    and "strtoul_ok K" and "bitmap_start_ok K" and "simple_read_ok K"
    and "kstrtoul_from_user K ''1'' = Inr 1" and "kstrtoul_from_user K ''0'' = Inr 0"
    and "seq_mem E = Some q" and "length (seq_buffer q) = page_size K"
    and "page_mem E" and "copy_ok E" and "dup_mem E"
    and "ns \<noteq> []" and "\<forall>p \<in> set ns. p < pid_max_limit K"
    and "length (join CHR '','' (map show_nat ns)) + 1 < page_size K" and "pids_in_range K (evs1 @ evs2)"
    and "\<forall>l \<in> {tx_line s evs1 ns, tx_line s (evs1 @ evs2) ns}. length l + 1 < page_size K \<and> length l \<le> n"
  shows "\<exists>r l s1 s2 s3. tx_session K E (join CHR '','' (map show_nat ns) @ [NL]) evs1 n s = Inr (r, l, r, s1) \<and>
    run_call K (Write_enable Tx_stat ''0'' 0) s1 = Inr s2 \<and> watched s2 = {} \<and>
    tx_session K E (join CHR '','' (map show_nat ns) @ [NL]) evs2 n s2 =
      (let line = tx_line s (evs1 @ evs2) ns in Inr (int (length line), line, int (length line), s3))"
proof -
  have p: "pids_in_range K evs1" "pids_in_range K evs2" using assms(17) by (auto simp: pids_in_range_def)
  from assms(18) have fits: "length (tx_line s evs1 ns) + 1 < page_size K" "length (tx_line s evs1 ns) \<le> n"
    "length (tx_line s (evs1 @ evs2) ns) + 1 < page_size K" "length (tx_line s (evs1 @ evs2) ns) \<le> n" by simp_all
  from tx_session_runs [OF assms(1-7,9-16) p(1) fits(1,2)] obtain s1 where
    s1: "tx_session K E (join CHR '','' (map show_nat ns) @ [NL]) evs1 n s =
      Inr (int (length (tx_line s evs1 ns)), tx_line s evs1 ns, int (length (tx_line s evs1 ns)), s1)" "mreach K s1"
      "\<forall>p < pid_max_limit K. tx_stats s1 ! p = tx_stats s ! p + (if p \<in> set ns then sent_by p evs1 else 0)"
    by blast
  obtain s2 where s2: "run_call K (Write_enable Tx_stat ''0'' 0) s1 = Inr s2" "watched s2 = {}" "tx_stats s2 = tx_stats s1"
    using assms(8) by (simp add: enable_write_generic_def tx_stats_enable_write_def Let_def)
  have m2: "mreach K s2" using mreach.call [OF s1(2) _ s2(1)] by simp
  have line: "tx_line s2 evs2 ns = tx_line s (evs1 @ evs2) ns"
    using s1(3) s2(3) assms(15) by (auto simp: tx_line_def add.assoc intro!: arg_cong [of _ _ "join CHR '',''"])
  from tx_session_runs [OF m2 assms(2) s2(2) assms(4-7,9-16) p(2), unfolded line, OF fits(3,4)] obtain s3 where
    "tx_session K E (join CHR '','' (map show_nat ns) @ [NL]) evs2 n s2 =
      (let line = tx_line s (evs1 @ evs2) ns in Inr (int (length line), line, int (length line), s3))"
    unfolding Let_def by blast
  with s1(1) s2(1,2) show ?thesis by blast
qed

section \<open>Witnesses\<close>

text \<open>Process 7 sends 100 bytes in the first measurement, 5 in the second; process 3 is not listed.\<close>

lemma tx_loaded: "\<exists>s. mreach (ref_kapi 4096 8) s \<and> watched s = {} \<and> tx_stats s = replicate 8 0"
  using init_loaded [OF ref_loads, of "ref_kapi 4096 8"] mreach.loaded [OF ref_loads] by fastforce

lemma ref_digit: "kstrtoul_from_user (ref_kapi 4096 8) ''1'' = Inr 1" "kstrtoul_from_user (ref_kapi 4096 8) ''0'' = Inr 0"
  by (simp_all add: ref_strtoul_def is_digit_def read_nat_def digit_val_def)

lemma tx_texts: "fmt_ld 0 = ''0''" "fmt_ld 100 = ''100''" "fmt_ld 105 = ''105''"
  by (simp add: fmt_ld_def show_int_def show_nat.simps digit_def, code_simp)+

abbreviation ref_env :: io_env where
  "ref_env \<equiv> \<lparr>seq_mem = Some ref_page, page_mem = True, copy_ok = True, dup_mem = True\<rparr>"

definition ref_sends :: "(jprobe \<times> kctx \<times> u64) list" where
  "ref_sends = [(Tcp_sendmsg_jp, ref_ctx 0 7 0, 60), (Udp_sendmsg_jp, ref_ctx 1 3 0, 9), (Sock_sendmsg_jp, ref_ctx 1 7 0, 40)]"

lemma ref_sent:
  "sent_by p ref_sends = (if p = 7 then 100 else if p = 3 then 9 else 0)"
  "sent_by p [(Udp_sendpage_jp, ref_ctx 0 7 0, 5)] = (if p = 7 then 5 else 0)"
  "pids_in_range (ref_kapi 4096 8) (ref_sends @ [(Udp_sendpage_jp, ref_ctx 0 7 0, 5)])"
  by (auto simp: sent_by_def ref_sends_def tx_jps_def pids_in_range_def)

lemma ref_tx_lines:
  assumes "tx_stats s = replicate 8 0"
  shows "tx_line s ref_sends [7, 5] = ''5=0,7=100'' @ [NL]"
    "tx_line s (ref_sends @ [(Udp_sendpage_jp, ref_ctx 0 7 0, 5)]) [7, 5] = ''5=0,7=105'' @ [NL]"
  by (simp_all add: tx_line_def assms ref_sent ref_show tx_texts)

theorem tx_session_output_witness:
  "\<exists>s s'. mreach (ref_kapi 4096 8) s \<and>
    tx_session (ref_kapi 4096 8) ref_env (''7,5'' @ [NL]) ref_sends 4096 s = Inr (10, ''5=0,7=100'' @ [NL], 10, s')"
proof -
  obtain s where s: "mreach (ref_kapi 4096 8) s" "watched s = {}" "tx_stats s = replicate 8 0" using tx_loaded by blast
  have "pids_in_range (ref_kapi 4096 8) ref_sends" using ref_sent(3) by (simp add: pids_in_range_def)
  with tx_session_output [where K = "ref_kapi 4096 8" and E = ref_env and q = ref_page and ns = "[7, 5]" and evs = ref_sends
      and n = 4096, OF s(1) ref_kapi_is_ok s(2) ref_strtoul_ok ref_bitmap_start_ok ref_simple_read_ok ref_digit(1)]
  have "\<exists>s'. tx_session (ref_kapi 4096 8) ref_env (''7,5'' @ [NL]) ref_sends 4096 s = Inr (10, ''5=0,7=100'' @ [NL], 10, s')"
    by (auto simp: ref_tx_lines [OF s(3)] ref_show ref_page_def)
  with s(1) show ?thesis by blast
qed

theorem tx_session_continues_witness:
  "\<exists>s r l s1 s2 s3. tx_session (ref_kapi 4096 8) ref_env (''7,5'' @ [NL]) ref_sends 4096 s = Inr (r, l, r, s1) \<and>
    run_call (ref_kapi 4096 8) (Write_enable Tx_stat ''0'' 0) s1 = Inr s2 \<and> watched s2 = {} \<and>
    tx_session (ref_kapi 4096 8) ref_env (''7,5'' @ [NL]) [(Udp_sendpage_jp, ref_ctx 0 7 0, 5)] 4096 s2 =
      Inr (10, ''5=0,7=105'' @ [NL], 10, s3)"
proof -
  obtain s where s: "mreach (ref_kapi 4096 8) s" "watched s = {}" "tx_stats s = replicate 8 0" using tx_loaded by blast
  have join: "join CHR '','' (map show_nat [7, 5]) = ''7,5''" by (simp add: ref_show)
  have small: "\<forall>p \<in> set [7, 5]. p < pid_max_limit (ref_kapi 4096 8)" "[7, 5 :: nat] \<noteq> []"
    "length ''7,5'' + 1 < page_size (ref_kapi 4096 8)" "length (seq_buffer ref_page) = page_size (ref_kapi 4096 8)"
    "\<forall>l \<in> {tx_line s ref_sends [7, 5], tx_line s (ref_sends @ [(Udp_sendpage_jp, ref_ctx 0 7 0, 5)]) [7, 5]}.
       length l + 1 < page_size (ref_kapi 4096 8) \<and> length l \<le> 4096"
    by (simp_all add: ref_page_def ref_tx_lines [OF s(3)])
  have env: "seq_mem ref_env = Some ref_page" "page_mem ref_env" "io_env.copy_ok ref_env" "dup_mem ref_env" by simp_all
  from tx_session_continues [OF s(1) ref_kapi_is_ok s(2) ref_strtoul_ok ref_bitmap_start_ok ref_simple_read_ok ref_digit
      env(1) small(4) env(2-4) small(2,1), unfolded join, OF small(3) ref_sent(3) small(5)]
  obtain r l s1 s2 s3 where
    "tx_session (ref_kapi 4096 8) ref_env (''7,5'' @ [NL]) ref_sends 4096 s = Inr (r, l, r, s1)"
    "run_call (ref_kapi 4096 8) (Write_enable Tx_stat ''0'' 0) s1 = Inr s2" "watched s2 = {}"
    "tx_session (ref_kapi 4096 8) ref_env (''7,5'' @ [NL]) [(Udp_sendpage_jp, ref_ctx 0 7 0, 5)] 4096 s2 =
      Inr (10, ''5=0,7=105'' @ [NL], 10, s3)"
    by (auto simp: ref_tx_lines [OF s(3)])
  then show ?thesis by blast
qed

end
