(* ===== verification/FileTasks.thy ===== *)
theory FileTasks
  imports TxStats
begin

text \<open>
  What a group of debugfs files promises when its operations are cut into steps (FileRace, TxRace): writing
  \<open>filter\<close> and reading \<open>output\<close> hold a mutex while they switch probes off and on, and do not touch what the
  handlers count. The invariant of tasks that use such files follows here, once for every group; two groups
  that share the mutex and the data are a group again.
\<close>

section \<open>The contract\<close>

text \<open>
  \<open>off j pc\<close>: a task at \<open>pc\<close> has disabled probe \<open>j\<close> and not yet enabled it; \<open>arming j pc\<close>: it goes on to
  enable \<open>j\<close>; \<open>is_on w j\<close>: the switch of the statistic that \<open>j\<close> feeds is on.
\<close>

locale switched_files =
  fixes move :: "'pc \<Rightarrow> 'w \<Rightarrow> ('pc \<times> 'w) option"
    and holding in_switch :: "'pc \<Rightarrow> bool"
    and off arming :: "'j \<Rightarrow> 'pc \<Rightarrow> bool"
    and is_armed is_on :: "'w \<Rightarrow> 'j \<Rightarrow> bool"
  assumes move_holds: "move pc w = Some (pc', w') \<Longrightarrow> \<not> in_switch pc \<Longrightarrow> holding pc \<and> holding pc' \<and> \<not> in_switch pc'"
    and move_switch: "move pc w = Some (pc', w') \<Longrightarrow> \<not> in_switch pc \<Longrightarrow> is_on w' j = is_on w j"
    and move_off: "move pc w = Some (pc', w') \<Longrightarrow> \<not> in_switch pc \<Longrightarrow> off j pc' \<Longrightarrow> is_armed w' j \<Longrightarrow>
      off j pc \<and> is_armed w j"
    and move_arms: "move pc w = Some (pc', w') \<Longrightarrow> \<not> in_switch pc \<Longrightarrow> is_armed w' j \<Longrightarrow> is_armed w j \<or> arming j pc"
    and move_arming: "move pc w = Some (pc', w') \<Longrightarrow> \<not> in_switch pc \<Longrightarrow> arming j pc' \<Longrightarrow> arming j pc \<or> is_on w j"
    and off_holds: "off j pc \<or> arming j pc \<Longrightarrow> holding pc"
begin

text \<open>
  Where the tasks are, who has the mutex, and the data, while nobody writes \<open>enable\<close>; for the probes of \<open>J\<close>.
\<close>

definition tasks_inv :: "'j set \<Rightarrow> (nat \<Rightarrow> 'pc) \<Rightarrow> nat option \<Rightarrow> 'w \<Rightarrow> bool" where
  "tasks_inv J pcs m w \<longleftrightarrow> (\<forall>p. holding (pcs p) \<longleftrightarrow> m = Some p) \<and> (\<forall>p. \<not> in_switch (pcs p)) \<and>
     (\<forall>j \<in> J. (is_armed w j \<longrightarrow> is_on w j) \<and>
        (\<forall>p. (off j (pcs p) \<longrightarrow> \<not> is_armed w j) \<and> (arming j (pcs p) \<longrightarrow> is_on w j)))"

lemma inv_one: "tasks_inv J pcs m w \<Longrightarrow> off i (pcs p) \<Longrightarrow> off j (pcs q) \<Longrightarrow> q = p"
  unfolding tasks_inv_def using off_holds by (metis option.inject)

lemma inv_off: "tasks_inv J pcs m w \<Longrightarrow> j \<in> J \<Longrightarrow> off j (pcs p) \<Longrightarrow> \<not> is_armed w j"
  unfolding tasks_inv_def by blast

lemma inv_armed: "tasks_inv J pcs m w \<Longrightarrow> j \<in> J \<Longrightarrow> is_armed w j \<Longrightarrow> is_on w j"
  unfolding tasks_inv_def by blast

lemma inv_outside: "tasks_inv J pcs m w \<Longrightarrow> \<not> in_switch (pcs p)"
  unfolding tasks_inv_def by blast

text \<open>A task makes a step of its operation.\<close>

lemma inv_move:
  assumes "tasks_inv J pcs m w" and "move (pcs p) w = Some (pc, w')"
  shows "tasks_inv J (pcs(p := pc)) m w'"
proof -
  note n = inv_outside [OF assms(1)]
  note f = move_holds [OF assms(2) n] move_switch [OF assms(2) n] move_off [OF assms(2) n]
    move_arms [OF assms(2) n] move_arming [OF assms(2) n]
  have m: "m = Some p" using f(1) assms(1) by (simp add: tasks_inv_def)
  then have others: "\<not> holding (pcs q)" if "q \<noteq> p" for q using that assms(1) by (simp add: tasks_inv_def)
  then have "\<not> off j (pcs q)" "\<not> arming j (pcs q)" if "q \<noteq> p" for q j
    using that off_holds by blast+
  moreover have "\<not> is_armed w' j" if "j \<in> J" "off j pc" for j
    using f(3) [OF that(2)] inv_off [OF assms(1) that(1)] by blast
  moreover have "arming j pc \<Longrightarrow> is_on w' j" "is_armed w' j \<Longrightarrow> is_on w' j" if "j \<in> J" for j
    using f(2,4,5) that assms(1) unfolding tasks_inv_def by blast+
  ultimately show ?thesis using f(1) others m assms(1) unfolding tasks_inv_def by auto
qed

text \<open>A task enters a file operation, takes the mutex or gives it back.\<close>

lemma inv_set:
  assumes "tasks_inv J pcs m w" and "\<And>j. \<not> off j pc" and "\<And>j. \<not> arming j pc" and "\<not> in_switch pc"
    and "holding pc \<longleftrightarrow> m' = Some p" and "\<And>q. q \<noteq> p \<Longrightarrow> m' = Some q \<longleftrightarrow> m = Some q"
  shows "tasks_inv J (pcs(p := pc)) m' w"
  using assms unfolding tasks_inv_def by auto

text \<open>A handler changes neither probes nor switches.\<close>

lemma inv_data:
  "tasks_inv J pcs m w \<Longrightarrow> is_armed w' = is_armed w \<Longrightarrow> is_on w' = is_on w \<Longrightarrow> tasks_inv J pcs m w'"
  by (simp add: tasks_inv_def)

lemma inv_start:
  assumes "\<And>p. \<not> holding (pcs p)" and "\<And>p. \<not> in_switch (pcs p)" and "\<And>j. j \<in> J \<Longrightarrow> is_armed w j \<Longrightarrow> is_on w j"
  shows "tasks_inv J pcs None w"
proof -
  have "\<not> off j (pcs p)" "\<not> arming j (pcs p)" for j p using assms(1) off_holds by blast+
  with assms show ?thesis unfolding tasks_inv_def by simp
qed

end

section \<open>Counting at the same time\<close>

text \<open>\<open>add a w\<close>: the handlers' addition \<open>a\<close> is done.\<close>

locale counting_files = switched_files move holding in_switch off arming is_armed is_on
  for move :: "'pc \<Rightarrow> 'w \<Rightarrow> ('pc \<times> 'w) option" and holding in_switch :: "'pc \<Rightarrow> bool"
    and off arming :: "'j \<Rightarrow> 'pc \<Rightarrow> bool" and is_armed is_on :: "'w \<Rightarrow> 'j \<Rightarrow> bool" +
  fixes add :: "'a \<Rightarrow> 'w \<Rightarrow> 'w"
  assumes move_add: "move pc w = Some (pc', w') \<Longrightarrow> \<not> in_switch pc \<Longrightarrow> move pc (add a w) = Some (pc', add a w')"
    and add_frame: "is_armed (add a w) = is_armed w" "is_on (add a w) = is_on w"
    and add_comm: "add a (add b w) = add b (add a w)"
begin

lemma move_adds:
  "move pc w = Some (pc', w') \<Longrightarrow> \<not> in_switch pc \<Longrightarrow> move pc (fold add as w) = Some (pc', fold add as w')"
  by (induction as arbitrary: w w') (auto dest: move_add)

lemma adds_frame [simp]: "is_armed (fold add as w) = is_armed w" "is_on (fold add as w) = is_on w"
  by (induction as arbitrary: w) (auto simp: add_frame)

lemma adds_comm: "fold add as (add a w) = add a (fold add as w)"
proof (induction as arbitrary: w)
  case (Cons b as)
  then show ?case using add_comm [of b a w] by simp
qed simp

text \<open>One of the pending additions is done.\<close>

lemma adds_take:
  assumes "k < length as"
  shows "fold add (take k as @ drop (Suc k) as) (add (as ! k) w) = fold add as w"
  using id_take_nth_drop [OF assms] by (metis adds_comm fold_append fold_simps(2) o_apply)

end

text \<open>The additions of the module's handlers, to the time of a disk or to the bytes of a pid.\<close>

datatype addition = To_disk nat u64 | To_pid nat u64

fun add_in :: "addition \<Rightarrow> wperf \<Rightarrow> wperf" where
  "add_in (To_disk i d) w = w\<lparr>dutils := (dutils w)[i := dutils w ! i + d]\<rparr>"
| "add_in (To_pid p n) w = w\<lparr>tx_stats := (tx_stats w)[p := tx_stats w ! p + n]\<rparr>"

lemma list_add_comm:
  fixes xs :: "u64 list"
  shows "xs[i := xs ! i + d, j := xs[i := xs ! i + d] ! j + e] = xs[j := xs ! j + e, i := xs[j := xs ! j + e] ! i + d]"
proof (cases "i = j")
  case True
  then show ?thesis by (cases "j < length xs") (simp_all add: ac_simps list_update_beyond)
qed (simp add: list_update_swap)

lemma add_in_comm: "add_in a (add_in b w) = add_in b (add_in a w)"
  by (cases a; cases b) (simp_all add: list_add_comm)

text \<open>The switch that belongs to a probe.\<close>

definition stat_on :: "wperf \<Rightarrow> jprobe \<Rightarrow> bool" where
  "stat_on w j = (if j = Part_round_stats_jp then denabled w else j \<in> set tx_jps \<longrightarrow> tx_enabled w)"

lemma add_in_frame [simp]:
  "armed (add_in a w) = armed w" "stat_on (add_in a w) = stat_on w" "denabled (add_in a w) = denabled w"
  "tx_enabled (add_in a w) = tx_enabled w" "didx (add_in a w) = didx w" "dnames (add_in a w) = dnames w"
  "pid_filter (add_in a w) = pid_filter w" "kbufs (add_in a w) = kbufs w" "probes (add_in a w) = probes w"
  "length (dutils (add_in a w)) = length (dutils w)" "length (tx_stats (add_in a w)) = length (tx_stats w)"
  by (cases a; simp add: armed_def stat_on_def fun_eq_iff)+

section \<open>Two groups\<close>

definition either_move :: "('p \<Rightarrow> 'w \<Rightarrow> ('p \<times> 'w) option) \<Rightarrow> ('q \<Rightarrow> 'w \<Rightarrow> ('q \<times> 'w) option) \<Rightarrow>
    'p + 'q \<Rightarrow> 'w \<Rightarrow> (('p + 'q) \<times> 'w) option" where
  "either_move f g pc w = (case pc of
     Inl x \<Rightarrow> map_option (map_prod Inl id) (f x w) | Inr y \<Rightarrow> map_option (map_prod Inr id) (g y w))"

lemma either_move_simps [simp]:
  "either_move f g (Inl x) w = map_option (map_prod Inl id) (f x w)"
  "either_move f g (Inr y) w = map_option (map_prod Inr id) (g y w)"
  by (simp_all add: either_move_def)

locale two_groups =
  one: counting_files move1 holding1 in_switch1 off1 arming1 is_armed is_on add +
  other: counting_files move2 holding2 in_switch2 off2 arming2 is_armed is_on add
  for move1 :: "'p \<Rightarrow> 'w \<Rightarrow> ('p \<times> 'w) option" and holding1 in_switch1 :: "'p \<Rightarrow> bool"
    and off1 arming1 :: "'j \<Rightarrow> 'p \<Rightarrow> bool"
    and move2 :: "'q \<Rightarrow> 'w \<Rightarrow> ('q \<times> 'w) option" and holding2 in_switch2 :: "'q \<Rightarrow> bool"
    and off2 arming2 :: "'j \<Rightarrow> 'q \<Rightarrow> bool"
    and is_armed is_on :: "'w \<Rightarrow> 'j \<Rightarrow> bool" and add :: "'a \<Rightarrow> 'w \<Rightarrow> 'w"

sublocale two_groups \<subseteq> both: counting_files "either_move move1 move2" "case_sum holding1 holding2"
    "case_sum in_switch1 in_switch2" "\<lambda>j. case_sum (off1 j) (off2 j)" "\<lambda>j. case_sum (arming1 j) (arming2 j)"
    is_armed is_on add
proof (unfold_locales, goal_cases)
  case (1 pc w pc' w') then show ?case
    by (cases pc) (auto dest: one.move_holds other.move_holds)
next
  case (2 pc w pc' w' j) then show ?case
    by (cases pc) (auto dest: one.move_switch other.move_switch)
next
  case (3 pc w pc' w' j) then show ?case
    by (cases pc) (auto dest: one.move_off other.move_off)
next
  case (4 pc w pc' w' j) then show ?case
    by (cases pc) (auto dest: one.move_arms other.move_arms)
next
  case (5 pc w pc' w' j) then show ?case
    by (cases pc) (auto dest: one.move_arming other.move_arming)
next
  case (6 j pc) then show ?case
    using one.off_holds other.off_holds by (cases pc) auto
next
  case (7 pc w pc' w' a) then show ?case
    by (cases pc) (auto dest: one.move_add other.move_add)
qed (simp_all add: one.add_frame one.add_comm)

end
