(* ===== verification/FileRace.thy ===== *)
theory FileRace
  imports FileTasks
begin

text \<open>
  The files of the disk counters used at the same time (trace_wperf_events.c): writing \<open>filter\<close> and reading
  \<open>output\<close> hold \<open>event_mutex\<close>, but \<open>enable_write_generic\<close> gives the mutex back before it calls the operation.
  The operations are cut into their accesses to the static data, with any number of tasks in them and with
  the probe's handler in between whenever the probe is armed.
\<close>

section \<open>The operations in steps\<close>

text \<open>
  Where a task is: outside; in \<open>filter_write_generic\<close> and \<open>dutils_filter_write\<close> (F); in \<open>output_read_generic\<close>
  and \<open>dutils_output_read\<close> (O); in \<open>dutils_enable_write\<close> (E); about to give the mutex back.
\<close>

datatype file_pc =
    Rest
  | F_wait string | F_reset string | F_disable string | F_tokens "string option" | F_test | F_enable | F_free
  | O_wait | O_disable | O_head | O_print nat | O_test | O_enable
  | E_set u64 | E_switch | E_on | E_off | E_clear nat | E_reset
  | Give_back int

text \<open>
  One access, and where it leads; no step where an array would be left. \<open>E_switch\<close> reads the variable
  that \<open>E_set\<close> wrote. Taken as one step are \<open>kstrdup\<close> with \<open>didx = 0\<close> behind it, and \<open>didx++\<close> with the \<open>strncpy\<close> into the row. What
  \<open>output\<close> prints is left out, and so are reading \<open>filter\<close> and \<open>enable\<close>, which change nothing.
\<close>

fun file_move :: "kapi \<Rightarrow> file_pc \<Rightarrow> wperf \<Rightarrow> (file_pc \<times> wperf) option" where
  "file_move K (F_reset d) w = Some (F_disable d, w\<lparr>kbufs := Suc (kbufs w), didx := 0\<rparr>)"
| "file_move K (F_disable d) w =
     Some (F_tokens (Some (strstrip K (cstr d))), disable_jprobe Part_round_stats_jp w)"
| "file_move K (F_tokens r) w = (case strsep CHR '','' r of
     (None, _) \<Rightarrow> Some (F_test, w)
   | (Some token, r') \<Rightarrow>
       if token = [] then Some (F_tokens r', w)
       else if strlen token + 1 > MAX_DNAME_SIZE then Some (Give_back (- EINVAL), w)
       else (case store_name token w of Inl e \<Rightarrow> None | Inr w' \<Rightarrow> Some (F_tokens r', w')))"
| "file_move K F_test w = Some (if denabled w then F_enable else F_free, w)"
| "file_move K F_enable w = Some (F_free, enable_jprobe Part_round_stats_jp w)"
| "file_move K F_free w = Some (Give_back 0, w\<lparr>kbufs := kbufs w - 1\<rparr>)"
| "file_move K O_disable w = Some (O_head, disable_jprobe Part_round_stats_jp w)"
| "file_move K O_head w = Some (if didx w = 0 then O_test else O_print 0, w)"
| "file_move K (O_print i) w = Some (if Suc i < didx w then O_print (Suc i) else O_test, w)"
| "file_move K O_test w = Some (if denabled w then O_enable else Give_back 0, w)"
| "file_move K O_enable w = Some (Give_back 0, enable_jprobe Part_round_stats_jp w)"
| "file_move K (E_set val) w = Some (E_switch, w\<lparr>denabled := bool_at val\<rparr>)"
| "file_move K E_switch w = Some (if denabled w then E_on else E_off, w)"
| "file_move K E_on w = Some (Rest, enable_jprobe Part_round_stats_jp w)"
| "file_move K E_off w = Some (E_clear 0, disable_jprobe Part_round_stats_jp w)"
| "file_move K (E_clear i) w =
     (if i < didx w then if i < length (dutils w) then Some (E_clear (Suc i), w\<lparr>dutils := (dutils w)[i := 0]\<rparr>) else None
      else Some (E_reset, w))"
| "file_move K E_reset w = Some (Rest, w\<lparr>didx := 0\<rparr>)"
| "file_move K _ w = None"

section \<open>Tasks, the mutex and the handler\<close>

record file_sys =
  fs_data :: wperf
  fs_mutex :: "nat option"
  fs_at :: "nat \<Rightarrow> file_pc"

text \<open>
  Who goes next: a task enters a file operation, takes the mutex (with or without memory for \<open>kstrdup\<close>), makes
  an access, or gives the mutex back; or the probed function is called.
\<close>

datatype choice = Enter nat file_pc | Lock nat bool | Move nat | Unlock nat | Probed u64 hd_struct hd_struct

fun entry :: "file_pc \<Rightarrow> bool" where
  "entry (F_wait d) = True"
| "entry O_wait = True"
| "entry (E_set val) = True"
| "entry _ = False"

fun file_step :: "kapi \<Rightarrow> choice \<Rightarrow> file_sys \<Rightarrow> file_sys option" where
  "file_step K (Enter p pc) s =
     (if fs_at s p = Rest \<and> entry pc then Some (s\<lparr>fs_at := (fs_at s)(p := pc)\<rparr>) else None)"
| "file_step K (Lock p kmem) s =
     (if fs_mutex s \<noteq> None then None
      else case fs_at s p of
          F_wait d \<Rightarrow> Some (s\<lparr>fs_mutex := Some p,
            fs_at := (fs_at s)(p := if kmem then F_reset d else Give_back (- ENOMEM))\<rparr>)
        | O_wait \<Rightarrow> Some (s\<lparr>fs_mutex := Some p, fs_at := (fs_at s)(p := O_disable)\<rparr>)
        | _ \<Rightarrow> None)"
| "file_step K (Move p) s = (case file_move K (fs_at s p) (fs_data s) of None \<Rightarrow> None
     | Some (pc, w) \<Rightarrow> Some (s\<lparr>fs_data := w, fs_at := (fs_at s)(p := pc)\<rparr>))"
| "file_step K (Unlock p) s = (case fs_at s p of
     Give_back r \<Rightarrow> Some (s\<lparr>fs_mutex := None, fs_at := (fs_at s)(p := Rest)\<rparr>) | _ \<Rightarrow> None)"
| "file_step K (Probed now part part0) s =
     (if armed (fs_data s) Part_round_stats_jp
      then case on_part_round_stats_ent K now part part0 (fs_data s) of
          Inl e \<Rightarrow> None | Inr w \<Rightarrow> Some (s\<lparr>fs_data := w\<rparr>)
      else Some s)"

fun file_run :: "kapi \<Rightarrow> choice list \<Rightarrow> file_sys \<Rightarrow> file_sys option" where
  "file_run K [] s = Some s"
| "file_run K (c # cs) s = (case file_step K c s of None \<Rightarrow> None | Some s' \<Rightarrow> file_run K cs s')"

text \<open>Runs in which nobody writes \<open>enable\<close>.\<close>

fun writes_enable :: "choice \<Rightarrow> bool" where
  "writes_enable (Enter p (E_set val)) = True"
| "writes_enable _ = False"

section \<open>An operation alone\<close>

inductive moves :: "kapi \<Rightarrow> file_pc \<times> wperf \<Rightarrow> file_pc \<times> wperf \<Rightarrow> bool" for K where
  here: "moves K x x"
| move: "file_move K pc w = Some y \<Longrightarrow> moves K y z \<Longrightarrow> moves K (pc, w) z"

lemma moves_trans: "moves K x y \<Longrightarrow> moves K y z \<Longrightarrow> moves K x z"
  by (induction rule: moves.induct) (auto intro: moves.move)

lemma moves_one: "file_move K pc w = Some y \<Longrightarrow> moves K (pc, w) y"
  by (blast intro: moves.intros)

lemma tokens_moves:
  "dutils_filter_loop r w = Inr (fine, w') \<Longrightarrow>
   moves K (F_tokens r, w) (if fine then F_test else Give_back (- EINVAL), w')"
proof (induction r w arbitrary: rule: dutils_filter_loop.induct)
  case (1 r w)
  obtain tok r' where st: "strsep CHR '','' r = (tok, r')" by fastforce
  show ?case
  proof (cases tok)
    case None
    with st "1.prems" show ?thesis by (auto simp: dutils_filter_loop.simps [of r] intro: moves_one)
  next
    case (Some t)
    consider "t = []" | "t \<noteq> []" "strlen t + 1 > MAX_DNAME_SIZE" | "t \<noteq> []" "\<not> strlen t + 1 > MAX_DNAME_SIZE" by blast
    then show ?thesis
    proof cases
      case 1
      with st Some "1.prems" "1.IH"(1) [OF st [unfolded Some, symmetric] refl] show ?thesis
        by (auto simp: dutils_filter_loop.simps [of r] intro: moves.move)
    next
      case 2
      with st Some "1.prems" show ?thesis by (auto simp: dutils_filter_loop.simps [of r] intro: moves_one)
    next
      case 3
      with st Some "1.prems" obtain w1 where "store_name t w = Inr w1" "dutils_filter_loop r' w1 = Inr (fine, w')"
        by (auto simp: dutils_filter_loop.simps [of r] split: sum.splits)
      with st Some 3 "1.IH"(2) [OF st [unfolded Some, symmetric] refl, of w1] show ?thesis
        by (auto intro: moves.move)
    qed
  qed
qed

lemma filter_write_moves:
  assumes "dutils_filter_write K True d w = Inr (r, w')"
  shows "moves K (F_reset d, w) (Give_back r, w')"
proof -
  let ?w1 = "disable_jprobe Part_round_stats_jp (w\<lparr>kbufs := Suc (kbufs w), didx := 0\<rparr>)"
  from assms obtain fine w2 where l: "dutils_filter_loop (Some (strstrip K (cstr d))) ?w1 = Inr (fine, w2)"
    "if fine then r = 0 \<and> w' = (let w3 = (if denabled w2 then enable_jprobe Part_round_stats_jp w2 else w2)
        in w3\<lparr>kbufs := kbufs w3 - 1\<rparr>) else r = - EINVAL \<and> w' = w2"
    by (auto simp: dutils_filter_write_def Let_def res_bind_Inr_iff split: if_splits)
  have "moves K (F_reset d, w) (F_tokens (Some (strstrip K (cstr d))), ?w1)"
    by (rule moves.move, simp, rule moves_one) simp
  from moves_trans [OF this tokens_moves [OF l(1)]]
  have to_end: "moves K (F_reset d, w) (if fine then F_test else Give_back (- EINVAL), w2)" .
  have "moves K (F_test, w2) (Give_back r, w')" if fine
    using l(2) that by (cases "denabled w2") (auto simp: Let_def intro!: moves.move moves.here)
  with to_end l(2) show ?thesis by (cases fine) (auto intro: moves_trans)
qed

lemma clear_dutils_length: "clear_dutils n xs = Inr ys \<Longrightarrow> n \<le> length xs \<and> length ys = length xs"
  by (induction n arbitrary: ys) (auto simp: res_bind_Inr_iff split: if_splits)

lemma clear_dutils_Inr:
  "clear_dutils n xs = Inr ys \<Longrightarrow> n \<le> length xs \<and> ys = replicate n 0 @ drop n xs"
  using clear_dutils_length [of n xs ys] clear_dutils_spec [of n xs] by auto

lemma clear_moves:
  assumes "didx w \<le> length (dutils w)" and "i \<le> didx w"
  shows "moves K (E_clear i, w)
    (Rest, w\<lparr>dutils := take i (dutils w) @ replicate (didx w - i) 0 @ drop (didx w) (dutils w), didx := 0\<rparr>)"
  using assms
proof (induction "didx w - i" arbitrary: i w)
  case 0
  then have i: "didx w = i" by simp
  then have "moves K (E_clear i, w) (Rest, w\<lparr>didx := 0\<rparr>)"
    by (intro moves.move [OF _ moves_one [of K E_reset w]]) simp_all
  then show ?case using i by simp
next
  case (Suc n)
  let ?w = "w\<lparr>dutils := (dutils w)[i := 0]\<rparr>"
  have "i < didx w" "i < length (dutils w)" using Suc.hyps(2) Suc.prems by simp_all
  then have "file_move K (E_clear i) w = Some (E_clear (Suc i), ?w)" by simp
  moreover have "take (Suc i) ((dutils w)[i := 0]) @ replicate (didx w - Suc i) 0 @ drop (didx w) ((dutils w)[i := 0]) =
      take i (dutils w) @ replicate (didx w - i) 0 @ drop (didx w) (dutils w)"
    using Suc.hyps(2) \<open>i < didx w\<close> \<open>i < length (dutils w)\<close>
    by (simp add: take_Suc_conv_app_nth Suc_diff_Suc [symmetric])
  moreover have "moves K (E_clear (Suc i), ?w) (Rest, ?w\<lparr>dutils := take (Suc i) (dutils ?w) @
      replicate (didx ?w - Suc i) 0 @ drop (didx ?w) (dutils ?w), didx := 0\<rparr>)"
    by (rule Suc.hyps(1)) (use Suc.hyps(2) Suc.prems in simp_all)
  ultimately show ?case by (auto intro: moves.move)
qed

lemma enable_write_moves:
  assumes "dutils_enable_write val w = Inr (r, w')"
  shows "moves K (E_set val, w) (Rest, w')"
proof (cases "bool_at val")
  case True
  with assms show ?thesis
    by (auto simp: dutils_enable_write_def Let_def intro!: moves.move moves.here)
next
  case False
  let ?w = "disable_jprobe Part_round_stats_jp (w\<lparr>denabled := False\<rparr>)"
  have "moves K (E_set val, w) (E_clear 0, ?w)"
    using False by (auto intro!: moves.move moves.here)
  moreover from False assms obtain us where us: "clear_dutils (didx ?w) (dutils ?w) = Inr us"
    "w' = ?w\<lparr>dutils := us, didx := 0\<rparr>"
    by (auto simp: dutils_enable_write_def Let_def res_bind_Inr_iff)
  then have "didx ?w \<le> length (dutils ?w)" "us = replicate (didx ?w) 0 @ drop (didx ?w) (dutils ?w)"
    using clear_dutils_Inr by blast+
  with clear_moves [of ?w 0 K] us(2) have "moves K (E_clear 0, ?w) (Rest, w')" by simp
  ultimately show ?thesis by (rule moves_trans)
qed

lemma print_moves: "moves K (O_print i, w) (O_test, w)"
proof (induction "didx w - i" arbitrary: i)
  case 0
  then show ?case by (auto intro: moves_one)
next
  case (Suc n)
  then have "moves K (O_print (Suc i), w) (O_test, w)" by simp
  then show ?case by (cases "Suc i < didx w") (auto intro: moves.move moves_one)
qed

lemma output_read_moves:
  assumes "dutils_output_read K q w = Inr (r, q', w')"
  shows "moves K (O_disable, w) (Give_back r, w')"
proof -
  let ?w = "disable_jprobe Part_round_stats_jp w"
  have w': "r = 0" "w' = (if denabled ?w then enable_jprobe Part_round_stats_jp ?w else ?w)"
    using assms by (auto simp: dutils_output_read_def Let_def res_bind_Inr_iff split: if_splits)
  have "moves K (O_head, ?w) (O_test, ?w)"
    using print_moves [of K 0 ?w] by (cases "didx w = 0") (auto intro: moves.move moves_one)
  then have "moves K (O_disable, w) (O_test, ?w)" by (auto intro: moves.move)
  moreover have "moves K (O_test, ?w) (Give_back r, w')"
    using w' by (auto intro!: moves.move moves.here)
  ultimately show ?thesis by (rule moves_trans)
qed

section \<open>Without writes to \<open>enable\<close>\<close>

text \<open>A task that has the mutex, and one behind its call of \<open>disable_jprobe\<close> and before that of \<open>enable_jprobe\<close>.\<close>

fun holds :: "file_pc \<Rightarrow> bool" where
  "holds Rest = False" | "holds (F_wait d) = False" | "holds O_wait = False"
| "holds (E_set val) = False" | "holds E_switch = False" | "holds E_on = False" | "holds E_off = False"
| "holds (E_clear i) = False" | "holds E_reset = False"
| "holds _ = True"

fun inside :: "file_pc \<Rightarrow> bool" where
  "inside (F_tokens r) = True" | "inside F_test = True" | "inside F_enable = True"
| "inside O_head = True" | "inside (O_print i) = True" | "inside O_test = True" | "inside O_enable = True"
| "inside _ = False"

fun in_enable :: "file_pc \<Rightarrow> bool" where
  "in_enable (E_set val) = True" | "in_enable E_switch = True" | "in_enable E_on = True" | "in_enable E_off = True"
| "in_enable (E_clear i) = True" | "in_enable E_reset = True"
| "in_enable _ = False"

lemma store_name_frame: "store_name t w = Inr w' \<Longrightarrow> denabled w' = denabled w \<and> probes w' = probes w"
  by (auto simp: store_name_def split: if_splits)

lemma stats_ent_frame:
  "on_part_round_stats_ent K now part part0 w = Inr w' \<Longrightarrow> denabled w' = denabled w \<and> probes w' = probes w"
  by (auto simp: on_part_round_stats_ent_def Let_def res_bind_Inr_iff split: if_splits)

text \<open>A move of a task that does not write \<open>enable\<close>.\<close>

lemma file_move_facts:
  assumes "file_move K pc w = Some (pc', w')" and "\<not> in_enable pc"
  shows "holds pc \<and> holds pc' \<and> \<not> in_enable pc' \<and> denabled w' = denabled w \<and>
    (inside pc' \<longrightarrow> inside pc \<and> probes w' = probes w \<or> \<not> armed w' Part_round_stats_jp) \<and>
    (armed w' Part_round_stats_jp \<longrightarrow> armed w Part_round_stats_jp \<or> pc \<in> {F_enable, O_enable}) \<and>
    (pc' \<in> {F_enable, O_enable} \<longrightarrow> denabled w)"
proof (cases pc)
  case (F_tokens r)
  with assms show ?thesis
    by (auto simp: armed_def split: option.splits prod.splits if_splits sum.splits dest: store_name_frame)
qed (use assms in \<open>auto simp: armed_def enable_jprobe_def disable_jprobe_def split: if_splits\<close>)

text \<open>The group of files: the one probe it switches, and what its steps leave to the handlers.\<close>

definition disk_off :: "jprobe \<Rightarrow> file_pc \<Rightarrow> bool" where
  "disk_off j pc \<longleftrightarrow> j = Part_round_stats_jp \<and> inside pc"

definition disk_arming :: "jprobe \<Rightarrow> file_pc \<Rightarrow> bool" where
  "disk_arming j pc \<longleftrightarrow> j = Part_round_stats_jp \<and> pc \<in> {F_enable, O_enable}"

lemma store_name_other: "store_name t w = Inr w' \<Longrightarrow>
    tx_enabled w' = tx_enabled w \<and> store_name t (add_in a w) = Inr (add_in a w')"
  by (cases a) (auto simp: store_name_def split: if_splits)

lemma file_move_other:
  assumes "file_move K pc w = Some (pc', w')" and "\<not> in_enable pc"
  shows "tx_enabled w' = tx_enabled w \<and> (j \<noteq> Part_round_stats_jp \<longrightarrow> armed w' j = armed w j) \<and>
    file_move K pc (add_in a w) = Some (pc', add_in a w')"
proof (cases pc)
  case (F_tokens r)
  with assms show ?thesis
    by (auto simp: armed_def split: option.splits prod.splits if_splits sum.splits
        dest: store_name_frame store_name_other [of _ _ _ a])
qed (use assms in \<open>cases a; auto simp: armed_def enable_jprobe_def disable_jprobe_def split: if_splits\<close>)+

interpretation disk: counting_files "file_move K" holds in_enable disk_off disk_arming armed stat_on add_in for K
proof (unfold_locales, goal_cases)
  case (1 pc w pc' w')
  from file_move_facts [OF this] show ?case by blast
next
  case (2 pc w pc' w' j)
  from file_move_facts [OF this] file_move_other [OF this] show ?case by (simp add: stat_on_def)
next
  case (3 pc w pc' w' j)
  from file_move_facts [OF this(1,2)] 3(3,4) show ?case by (auto simp: disk_off_def armed_def)
next
  case (4 pc w pc' w' j)
  from file_move_facts [OF this(1,2)] file_move_other [OF 4(1,2), of j] 4(3) show ?case
    by (cases "j = Part_round_stats_jp") (auto simp: disk_arming_def)
next
  case (5 pc w pc' w' j)
  from file_move_facts [OF this(1,2)] 5(3) show ?case by (auto simp: disk_arming_def stat_on_def)
next
  case (6 j pc)
  then show ?case by (cases pc) (auto simp: disk_off_def disk_arming_def)
next
  case (7 pc w pc' w' a)
  then show ?case by (blast dest: file_move_other)
qed (simp_all add: add_in_comm)

abbreviation disk_inv :: "kapi \<Rightarrow> file_sys \<Rightarrow> bool" where
  "disk_inv K s \<equiv> disk.tasks_inv {Part_round_stats_jp} (fs_at s) (fs_mutex s) (fs_data s)"

lemma file_step_inv:
  assumes "file_step K c s = Some s'" and "\<not> writes_enable c" and "disk_inv K s"
  shows "disk_inv K s' \<and> denabled (fs_data s') = denabled (fs_data s)"
proof (cases c)
  case (Enter p pc)
  with assms have "pc = O_wait \<or> (\<exists>d. pc = F_wait d)" "fs_at s p = Rest" "s' = s\<lparr>fs_at := (fs_at s)(p := pc)\<rparr>"
    by (auto split: if_splits elim: entry.elims)
  with assms(3) show ?thesis
    by (auto intro!: disk.inv_set simp: disk_off_def disk_arming_def disk.tasks_inv_def dest: spec [of _ p])
next
  case (Lock p kmem)
  with assms show ?thesis
    by (auto intro!: disk.inv_set simp: disk_off_def disk_arming_def split: if_splits file_pc.splits)
next
  case (Move p)
  with assms(1) obtain pc w where m: "file_move K (fs_at s p) (fs_data s) = Some (pc, w)"
    "s' = s\<lparr>fs_data := w, fs_at := (fs_at s)(p := pc)\<rparr>"
    by (auto split: option.splits)
  with disk.inv_move [OF assms(3) m(1)] file_move_facts [OF m(1) disk.inv_outside [OF assms(3)]] show ?thesis by simp
next
  case (Unlock p)
  with assms(1) obtain r where u: "fs_at s p = Give_back r" "s' = s\<lparr>fs_mutex := None, fs_at := (fs_at s)(p := Rest)\<rparr>"
    by (auto split: file_pc.splits)
  with assms(3) have "fs_mutex s = Some p" by (auto simp: disk.tasks_inv_def dest: spec [of _ p])
  with u assms(3) show ?thesis by (auto intro!: disk.inv_set simp: disk_off_def disk_arming_def)
next
  case (Probed now part part0)
  with assms(1) have "s' = s \<or> (\<exists>w. on_part_round_stats_ent K now part part0 (fs_data s) = Inr w \<and> s' = s\<lparr>fs_data := w\<rparr>)"
    by (auto split: if_splits sum.splits)
  with assms(3) show ?thesis
    by (auto simp: armed_def stat_on_def disk.tasks_inv_def dest!: stats_ent_frame)
qed

lemma file_run_inv:
  "file_run K cs s = Some s' \<Longrightarrow> \<forall>c \<in> set cs. \<not> writes_enable c \<Longrightarrow> disk_inv K s \<Longrightarrow>
   disk_inv K s' \<and> denabled (fs_data s') = denabled (fs_data s)"
proof (induction cs arbitrary: s)
  case (Cons c cs)
  then obtain s1 where s1: "file_step K c s = Some s1" "file_run K cs s1 = Some s'" by (auto split: option.splits)
  with file_step_inv [OF s1(1)] Cons show ?case by simp
qed simp

text \<open>Nobody in a file operation.\<close>

definition quiet_files :: "wperf \<Rightarrow> file_sys" where
  "quiet_files w = \<lparr>fs_data = w, fs_mutex = None, fs_at = (\<lambda>_. Rest)\<rparr>"

lemma disk_inv_quiet: "(armed w Part_round_stats_jp \<longrightarrow> denabled w) \<Longrightarrow> disk_inv K (quiet_files w)"
  by (auto intro!: disk.inv_start simp: quiet_files_def stat_on_def)

section \<open>Properties\<close>

text \<open>
  The steps are those of the operations: when nobody interferes, a task that enters one of the three operations
  that change the data goes through its steps to the state and the result the operation has as a whole.
\<close>

theorem steps_are_operations:
  "(dutils_filter_write K True d w = Inr (r, w1) \<longrightarrow> moves K (F_reset d, w) (Give_back r, w1)) \<and>
   (dutils_output_read K q w = Inr (r, q', w2) \<longrightarrow> moves K (O_disable, w) (Give_back r, w2)) \<and>
   (dutils_enable_write val w = Inr (r, w3) \<longrightarrow> moves K (E_set val, w) (Rest, w3))"
  using filter_write_moves output_read_moves enable_write_moves by blast

text \<open>
  The mutex and the switching of the probe protect the table as long as nobody writes \<open>enable\<close>: however
  readers, writers of \<open>filter\<close> and calls of the probed function interleave, at most one task is between its calls
  that disable and enable the probe, and then the probe is not armed, so that no handler sees a table that is being
  written; and the probe is armed only while the statistic is enabled.
\<close>

theorem table_protected:
  assumes "file_run K cs (quiet_files w) = Some s" and "\<forall>c \<in> set cs. \<not> writes_enable c"
    and "armed w Part_round_stats_jp \<longrightarrow> denabled w"
  shows "(inside (fs_at s p) \<longrightarrow> \<not> armed (fs_data s) Part_round_stats_jp \<and> (\<forall>q. inside (fs_at s q) \<longrightarrow> q = p)) \<and>
    (armed (fs_data s) Part_round_stats_jp \<longrightarrow> denabled (fs_data s)) \<and> denabled (fs_data s) = denabled w"
proof -
  have q: "fs_data (quiet_files w) = w" by (simp add: quiet_files_def)
  from file_run_inv [OF assms(1,2) disk_inv_quiet [OF assms(3)]] q
  have inv: "disk_inv K s" "denabled (fs_data s) = denabled w" by simp_all
  have "armed (fs_data s) Part_round_stats_jp \<longrightarrow> denabled (fs_data s)"
    using disk.inv_armed [OF inv(1), of Part_round_stats_jp] by (simp add: stat_on_def)
  moreover have "\<not> armed (fs_data s) Part_round_stats_jp" if "inside (fs_at s p)"
    using disk.inv_off [OF inv(1), of Part_round_stats_jp p] that by (simp add: disk_off_def)
  moreover have "q = p" if "inside (fs_at s p)" "inside (fs_at s q)" for q
    using disk.inv_one [OF inv(1), of Part_round_stats_jp p Part_round_stats_jp q] that by (simp add: disk_off_def)
  ultimately show ?thesis using inv(2) by blast
qed

text \<open>The schedules of the witnesses, from a module whose disk statistic is enabled.\<close>

definition counting :: wperf where
  "counting = (static_data (ref_kapi 64 8))\<lparr>probes := [Register_jprobes], denabled := True\<rparr>"

lemma counting_armed: "armed counting Part_round_stats_jp" "denabled counting"
  by code_simp+

text \<open>Task 1 writes the names \<open>sda\<close> and \<open>sdb\<close>, up to where the first is stored.\<close>

definition half_written :: "choice list" where
  "half_written = [Enter 1 (F_wait ''sda,sdb''), Lock 1 True, Move 1, Move 1, Move 1]"

lemma half_run: "case file_run (ref_kapi 64 8) half_written (quiet_files counting) of
    Some s \<Rightarrow> inside (fs_at s 1) \<and> didx (fs_data s) = 1 | None \<Rightarrow> False"
  by code_simp

theorem table_protected_witness:
  "\<exists>s. file_run (ref_kapi 64 8) half_written (quiet_files counting) = Some s \<and> didx (fs_data s) = 1 \<and>
     \<not> armed (fs_data s) Part_round_stats_jp"
proof -
  obtain s where s: "file_run (ref_kapi 64 8) half_written (quiet_files counting) = Some s"
    "inside (fs_at s 1)" "didx (fs_data s) = 1"
    using half_run by (auto split: option.splits)
  have "\<forall>c \<in> set half_written. \<not> writes_enable c" by (simp add: half_written_def)
  from table_protected [OF s(1) this, of 1] s(2) counting_armed have "\<not> armed (fs_data s) Part_round_stats_jp" by blast
  with s(1,3) show ?thesis by blast
qed

theorem steps_are_operations_witness:
  "\<exists>r w. dutils_filter_write (ref_kapi 64 8) True ''sda'' counting = Inr (r, w) \<and>
     moves (ref_kapi 64 8) (F_reset ''sda'', counting) (Give_back r, w)"
proof -
  have "case dutils_filter_write (ref_kapi 64 8) True ''sda'' counting of Inr x \<Rightarrow> True | Inl e \<Rightarrow> False"
    by code_simp
  then obtain r w where "dutils_filter_write (ref_kapi 64 8) True ''sda'' counting = Inr (r, w)"
    by (auto split: sum.splits)
  with steps_are_operations [of "ref_kapi 64 8" "''sda''" counting r w] show ?thesis by blast
qed

text \<open>The steps of one task while the others rest.\<close>

lemma moves_run:
  assumes "moves K x y" and "x = (fs_at s q, fs_data s)" and "y = (pc, w)"
  shows "\<exists>n. file_run K (replicate n (Move q)) s = Some (s\<lparr>fs_data := w, fs_at := (fs_at s)(q := pc)\<rparr>)"
  using assms
proof (induction arbitrary: s rule: moves.induct)
  case (here x)
  then show ?case by (intro exI [of _ 0]) simp
next
  case (move pc0 w0 z u)
  let ?s = "s\<lparr>fs_data := snd z, fs_at := (fs_at s)(q := fst z)\<rparr>"
  have "z = (fs_at ?s q, fs_data ?s)" by simp
  from move.IH [OF this move.prems(2)] obtain n where
    "file_run K (replicate n (Move q)) ?s = Some (s\<lparr>fs_data := w, fs_at := (fs_at s)(q := pc)\<rparr>)"
    by (auto simp del: fun_upd_apply)
  with move.hyps(1) move.prems(1) show ?case by (intro exI [of _ "Suc n"], cases z) (simp del: fun_upd_apply)
qed

lemma file_run_append [simp]:
  "file_run K (cs @ ds) s = (case file_run K cs s of None \<Rightarrow> None | Some s' \<Rightarrow> file_run K ds s')"
  by (induction cs arbitrary: s) (auto split: option.splits)

lemma armed_enabled: "registered w \<Longrightarrow> armed (enable_jprobe Part_round_stats_jp w) Part_round_stats_jp"
  by (simp add: enable_jprobe_def armed_def registered_def)

text \<open>A whole write of 0, whatever the other tasks are in.\<close>

lemma zero_moves:
  assumes "\<not> bool_at val" and "didx w \<le> length (dutils w)"
  shows "moves K (E_set val, w) (Rest, (disable_jprobe Part_round_stats_jp (w\<lparr>denabled := False\<rparr>))\<lparr>
    dutils := replicate (didx w) 0 @ drop (didx w) (dutils w), didx := 0\<rparr>)"
proof -
  let ?w = "disable_jprobe Part_round_stats_jp (w\<lparr>denabled := False\<rparr>)"
  have "moves K (E_set val, w) (E_clear 0, ?w)"
    using assms(1) by (auto intro!: moves.move moves.here)
  moreover have "moves K (E_clear 0, ?w) (Rest, ?w\<lparr>dutils := replicate (didx w) 0 @ drop (didx w) (dutils w), didx := 0\<rparr>)"
    using clear_moves [of ?w 0 K] assms(2) by simp
  ultimately show ?thesis by (rule moves_trans)
qed

lemma write_of_zero:
  assumes "fs_at s q = Rest" and "\<not> bool_at val" and "didx (fs_data s) \<le> length (dutils (fs_data s))"
  shows "\<exists>n s'. file_run K (Enter q (E_set val) # replicate n (Move q)) s = Some s' \<and> fs_at s' = fs_at s \<and>
    fs_mutex s' = fs_mutex s \<and> \<not> denabled (fs_data s') \<and> didx (fs_data s') = 0 \<and>
    (registered (fs_data s) \<longrightarrow> registered (fs_data s'))"
proof -
  let ?s = "s\<lparr>fs_at := (fs_at s)(q := E_set val)\<rparr>"
  have "(E_set val, fs_data s) = (fs_at ?s q, fs_data ?s)" by simp
  from moves_run [OF zero_moves [OF assms(2,3), of K] this refl] obtain n w where
    "file_run K (replicate n (Move q)) ?s = Some (?s\<lparr>fs_data := w, fs_at := (fs_at ?s)(q := Rest)\<rparr>)"
    and w: "\<not> denabled w" "didx w = 0" "registered (fs_data s) \<longrightarrow> registered w"
    by (auto simp: registered_def disable_jprobe_def simp del: fun_upd_apply)
  moreover have "(fs_at ?s)(q := Rest) = fs_at s" using assms(1) by auto
  ultimately show ?thesis using assms(1) by (intro exI [of _ n]) simp
qed

text \<open>
  C28: Writing \<open>enable\<close> is not protected, in any state in which another task is in a file operation. Whenever a task is
  between its calls that disable and enable the probe, a task that writes 1 goes through without the mutex and
  leaves the probe armed, with the first still there and the table as far as that one has come. And whenever a task is at its call
  that enables the probe, a whole write of 0 can be done before the call; when the first has gone on and given
  the mutex back, both are outside, \<open>enable\<close> reads 0 and the probe is armed.
\<close>

theorem enable_races:
  assumes "registered (fs_data s)" and "fs_at s q = Rest"
  shows "(inside (fs_at s p) \<and> bool_at val \<longrightarrow>
      (\<exists>s'. file_run K (Enter q (E_set val) # replicate 3 (Move q)) s = Some s' \<and> fs_at s' = fs_at s \<and> fs_mutex s' = fs_mutex s \<and>
        armed (fs_data s') Part_round_stats_jp \<and> dnames (fs_data s') = dnames (fs_data s) \<and> didx (fs_data s') = didx (fs_data s))) \<and>
    (fs_at s p \<in> {F_enable, O_enable} \<and> \<not> bool_at val \<and> didx (fs_data s) \<le> length (dutils (fs_data s)) \<longrightarrow>
      (\<exists>m n s'. file_run K (Enter q (E_set val) # replicate m (Move q) @ replicate n (Move p) @ [Unlock p]) s = Some s' \<and>
        fs_at s' = (fs_at s)(p := Rest) \<and> fs_mutex s' = None \<and>
        \<not> denabled (fs_data s') \<and> armed (fs_data s') Part_round_stats_jp))"
proof (intro conjI impI; elim conjE)
  assume "inside (fs_at s p)" "bool_at val"
  have "armed (enable_jprobe Part_round_stats_jp (fs_data s\<lparr>denabled := True\<rparr>)) Part_round_stats_jp"
    using assms(1) by (intro armed_enabled) (simp add: registered_def)
  with assms(2) \<open>bool_at val\<close> show "\<exists>s'. file_run K (Enter q (E_set val) # replicate 3 (Move q)) s = Some s' \<and> fs_at s' = fs_at s \<and>
      fs_mutex s' = fs_mutex s \<and> armed (fs_data s') Part_round_stats_jp \<and>
      dnames (fs_data s') = dnames (fs_data s) \<and> didx (fs_data s') = didx (fs_data s)"
    by (auto simp: numeral_eq_Suc enable_jprobe_def)
next
  assume p: "fs_at s p \<in> {F_enable, O_enable}" and "\<not> bool_at val" "didx (fs_data s) \<le> length (dutils (fs_data s))"
  from write_of_zero [OF assms(2) this(2,3)] assms(1) obtain m s1 where
    m: "file_run K (Enter q (E_set val) # replicate m (Move q)) s = Some s1" "fs_at s1 = fs_at s" "\<not> denabled (fs_data s1)"
    "registered (fs_data s1)" by blast
  from p m(2-4) armed_enabled [OF m(4)] have "\<exists>n s'. file_run K (replicate n (Move p) @ [Unlock p]) s1 = Some s' \<and>
      fs_at s' = (fs_at s)(p := Rest) \<and> fs_mutex s' = None \<and> \<not> denabled (fs_data s') \<and> armed (fs_data s') Part_round_stats_jp"
    by (elim insertE) (auto intro: exI [of _ "Suc (Suc 0)"] exI [of _ "Suc 0"] simp: armed_def enable_jprobe_def)
  then obtain n s' where n: "file_run K (replicate n (Move p) @ [Unlock p]) s1 = Some s'" 
    "fs_at s' = (fs_at s)(p := Rest) \<and> fs_mutex s' = None \<and> \<not> denabled (fs_data s') \<and> armed (fs_data s') Part_round_stats_jp"
    by blast
  have "file_run K ((Enter q (E_set val) # replicate m (Move q)) @ replicate n (Move p) @ [Unlock p]) s = Some s'"
    unfolding file_run_append [of K "Enter q (E_set val) # replicate m (Move q)"] m(1) using n(1) by simp
  with n(2) show "\<exists>m n s'. file_run K (Enter q (E_set val) # replicate m (Move q) @ replicate n (Move p) @ [Unlock p]) s = Some s' \<and>
      fs_at s' = (fs_at s)(p := Rest) \<and> fs_mutex s' = None \<and> \<not> denabled (fs_data s') \<and> armed (fs_data s') Part_round_stats_jp"
    unfolding append_Cons by blast
qed

text \<open>Half of a filter written; and the whole of it up to the call that enables the probe.\<close>

lemma at_enable_run: "case file_run (ref_kapi 64 8) (half_written @ replicate 3 (Move 1)) (quiet_files counting) of
    Some s \<Rightarrow> fs_at s 1 = F_enable \<and> fs_at s 2 = Rest \<and> didx (fs_data s) = 2 \<and> length (dutils (fs_data s)) = 20 \<and>
      registered (fs_data s) | None \<Rightarrow> False"
  by code_simp

lemma half_run_registered: "case file_run (ref_kapi 64 8) half_written (quiet_files counting) of
    Some s \<Rightarrow> fs_at s 2 = Rest \<and> registered (fs_data s) | None \<Rightarrow> False"
  by code_simp

theorem enable_races_witness:
  "(\<exists>s. file_run (ref_kapi 64 8) (half_written @ Enter 2 (E_set 1) # replicate 3 (Move 2)) (quiet_files counting) = Some s \<and>
      inside (fs_at s 1) \<and> didx (fs_data s) = 1 \<and> armed (fs_data s) Part_round_stats_jp) \<and>
   (\<exists>m n s. file_run (ref_kapi 64 8) ((half_written @ replicate 3 (Move 1)) @ Enter 2 (E_set 0) # replicate m (Move 2) @ replicate n (Move 1) @ [Unlock 1])
        (quiet_files counting) = Some s \<and>
      fs_at s 1 = Rest \<and> \<not> denabled (fs_data s) \<and> armed (fs_data s) Part_round_stats_jp)"
proof (intro conjI)
  obtain s where s: "file_run (ref_kapi 64 8) half_written (quiet_files counting) = Some s"
    "inside (fs_at s 1)" "didx (fs_data s) = 1" "fs_at s 2 = Rest" "registered (fs_data s)"
    using half_run half_run_registered by (auto split: option.splits)
  from enable_races [OF s(5,4), of 1 1 "ref_kapi 64 8"] s(1-3) show "\<exists>s. file_run (ref_kapi 64 8) (half_written @ Enter 2 (E_set 1) # replicate 3 (Move 2)) (quiet_files counting) = Some s \<and>
      inside (fs_at s 1) \<and> didx (fs_data s) = 1 \<and> armed (fs_data s) Part_round_stats_jp"
    by (auto simp: file_run_append simp del: file_run.simps)
next
  obtain s where s: "file_run (ref_kapi 64 8) (half_written @ replicate 3 (Move 1)) (quiet_files counting) = Some s"
    "fs_at s 1 = F_enable" "fs_at s 2 = Rest" "didx (fs_data s) \<le> length (dutils (fs_data s))" "registered (fs_data s)"
    using at_enable_run by (auto simp del: file_run_append replicate.simps split: option.splits)
  from enable_races [OF s(5,3), of 1 0 "ref_kapi 64 8"] s(2,4) obtain m n s' where
    "file_run (ref_kapi 64 8) (Enter 2 (E_set 0) # replicate m (Move 2) @ replicate n (Move 1) @ [Unlock 1]) s = Some s'"
    "fs_at s' = (fs_at s)(1 := Rest)" "\<not> denabled (fs_data s')" "armed (fs_data s') Part_round_stats_jp" by auto
  with s(1) show "\<exists>m n s. file_run (ref_kapi 64 8) ((half_written @ replicate 3 (Move 1)) @ Enter 2 (E_set 0) # replicate m (Move 2) @ replicate n (Move 1) @ [Unlock 1])
        (quiet_files counting) = Some s \<and>
      fs_at s 1 = Rest \<and> \<not> denabled (fs_data s) \<and> armed (fs_data s) Part_round_stats_jp"
    unfolding file_run_append [of "ref_kapi 64 8" "half_written @ replicate 3 (Move 1)"] s(1) option.case
    by (metis fun_upd_same)
qed

end
