(* ===== verification/TxRace.thy ===== *)
theory TxRace
  imports FileRace FileTasks
begin

text \<open>
  The files of the transmit statistics used at the same time (trace_wperf_events.c), in steps as in FileRace: the
  five probes are switched one after the other, and a filter that cannot be read leaves by its error path.
\<close>

section \<open>The operations in steps\<close>

text \<open>
  Where a task is: outside; in \<open>filter_write_generic\<close> and \<open>tx_stats_filter_write\<close> (F); in \<open>output_read_generic\<close>
  and \<open>tx_stats_output_read\<close> (O); in \<open>tx_stats_enable_write\<close> (E); about to give the mutex back. The number
  is that of the probe that is next, or of the bit.
\<close>

datatype tx_pc =
    Tx_rest
  | TF_wait string | TF_dup string | TF_disable string nat | TF_tokens "string option" | TF_err | TF_test | TF_enable nat
  | TO_wait | TO_disable nat | TO_print nat | TO_test | TO_enable nat
  | TE_set u64 | TE_switch | TE_on nat | TE_off nat | TE_zero
  | Tx_give_back int

text \<open>One access, and where it leads; no step where the bitmap would be left.\<close>

fun tx_move :: "kapi \<Rightarrow> tx_pc \<Rightarrow> wperf \<Rightarrow> (tx_pc \<times> wperf) option" where
  "tx_move K (TF_dup d) w = Some (TF_disable d 0, w\<lparr>kbufs := Suc (kbufs w)\<rparr>)"
| "tx_move K (TF_disable d k) w =
     Some (if k < length tx_jps then (TF_disable d (Suc k), disable_jprobe (tx_jps ! k) w)
       else (TF_tokens (Some (strstrip K (cstr d))), w))"
| "tx_move K (TF_tokens r) w = (case strsep CHR '','' r of
     (None, _) \<Rightarrow> Some (TF_test, w)
   | (Some token, r') \<Rightarrow>
       if token = [] then Some (TF_tokens r', w)
       else (case kstrtoul K token of Inl e \<Rightarrow> Some (TF_err, w)
         | Inr pid \<Rightarrow> (case bitmap_set_one K pid (pid_filter w) of Inl e \<Rightarrow> None
             | Inr bs \<Rightarrow> Some (TF_tokens r', w\<lparr>pid_filter := bs\<rparr>))))"
| "tx_move K TF_err w = Some (Tx_give_back (- EINVAL), w\<lparr>pid_filter := bitmap_zero (pid_filter w)\<rparr>)"
| "tx_move K TF_test w = Some (if tx_enabled w then TF_enable 0 else Tx_give_back 0, w)"
| "tx_move K (TF_enable k) w =
     Some (if k < length tx_jps then (TF_enable (Suc k), enable_jprobe (tx_jps ! k) w) else (Tx_give_back 0, w))"
| "tx_move K (TO_disable k) w =
     Some (if k < length tx_jps then (TO_disable (Suc k), disable_jprobe (tx_jps ! k) w) else (TO_print 0, w))"
| "tx_move K (TO_print n) w = Some (if n < length (pid_filter w) then TO_print (Suc n) else TO_test, w)"
| "tx_move K TO_test w = Some (if tx_enabled w then TO_enable 0 else Tx_give_back 0, w)"
| "tx_move K (TO_enable k) w =
     Some (if k < length tx_jps then (TO_enable (Suc k), enable_jprobe (tx_jps ! k) w) else (Tx_give_back 0, w))"
| "tx_move K (TE_set val) w = Some (TE_switch, w\<lparr>tx_enabled := bool_at val\<rparr>)"
| "tx_move K TE_switch w = Some (if tx_enabled w then TE_on 0 else TE_off 0, w)"
| "tx_move K (TE_on k) w =
     Some (if k < length tx_jps then (TE_on (Suc k), enable_jprobe (tx_jps ! k) w) else (Tx_rest, w))"
| "tx_move K (TE_off k) w =
     Some (if k < length tx_jps then (TE_off (Suc k), disable_jprobe (tx_jps ! k) w) else (TE_zero, w))"
| "tx_move K TE_zero w = Some (Tx_rest, w\<lparr>pid_filter := bitmap_zero (pid_filter w)\<rparr>)"
| "tx_move K _ w = None"

section \<open>An operation alone\<close>

inductive tx_moves :: "kapi \<Rightarrow> tx_pc \<times> wperf \<Rightarrow> tx_pc \<times> wperf \<Rightarrow> bool" for K where
  here: "tx_moves K x x"
| move: "tx_move K pc w = Some y \<Longrightarrow> tx_moves K y z \<Longrightarrow> tx_moves K (pc, w) z"

lemma tx_moves_trans: "tx_moves K x y \<Longrightarrow> tx_moves K y z \<Longrightarrow> tx_moves K x z"
  by (induction rule: tx_moves.induct) (auto intro: tx_moves.move)

lemma tx_moves_one: "tx_move K pc w = Some y \<Longrightarrow> tx_moves K (pc, w) y"
  by (blast intro: tx_moves.intros)

text \<open>A loop over the five probes, at any place of the code.\<close>

lemma probes_moves:
  assumes step: "\<And>k w. k < length tx_jps \<Longrightarrow> tx_move K (at_probe k) w = Some (at_probe (Suc k), f (tx_jps ! k) w)"
  shows "k \<le> length tx_jps \<Longrightarrow> tx_moves K (at_probe k, w) (at_probe (length tx_jps), fold f (drop k tx_jps) w)"
proof (induction "length tx_jps - k" arbitrary: k w)
  case 0
  then show ?case by (auto intro: tx_moves.here)
next
  case (Suc n)
  then have k: "k < length tx_jps" by simp
  with Suc.hyps(1) [of "Suc k" "f (tx_jps ! k) w"] Suc.hyps(2)
  have "tx_moves K (at_probe (Suc k), f (tx_jps ! k) w)
      (at_probe (length tx_jps), fold f (drop (Suc k) tx_jps) (f (tx_jps ! k) w))" by simp
  with step [OF k] show ?case by (auto simp: Cons_nth_drop_Suc [OF k, symmetric] intro: tx_moves.move)
qed

lemmas off_moves = probes_moves [where f = disable_jprobe and k = 0, simplified, folded disable_tx_stat_probes_def]
lemmas on_moves = probes_moves [where f = enable_jprobe and k = 0, simplified, folded enable_tx_stat_probes_def]

lemma tx_switching_moves:
  "tx_moves K (TF_disable d 0, w) (TF_tokens (Some (strstrip K (cstr d))), disable_tx_stat_probes w)"
  "tx_moves K (TF_enable 0, w) (Tx_give_back 0, enable_tx_stat_probes w)"
  "tx_moves K (TO_disable 0, w) (TO_print 0, disable_tx_stat_probes w)"
  "tx_moves K (TO_enable 0, w) (Tx_give_back 0, enable_tx_stat_probes w)"
  "tx_moves K (TE_on 0, w) (Tx_rest, enable_tx_stat_probes w)"
  "tx_moves K (TE_off 0, w) (TE_zero, disable_tx_stat_probes w)"
proof -
  note step = tx_moves_trans [OF _ tx_moves_one]
  show "tx_moves K (TF_disable d 0, w) (TF_tokens (Some (strstrip K (cstr d))), disable_tx_stat_probes w)"
    by (rule step [OF off_moves [of K "TF_disable d" w]]) simp_all
  show "tx_moves K (TF_enable 0, w) (Tx_give_back 0, enable_tx_stat_probes w)"
    by (rule step [OF on_moves [of K TF_enable w]]) simp_all
  show "tx_moves K (TO_disable 0, w) (TO_print 0, disable_tx_stat_probes w)"
    by (rule step [OF off_moves [of K TO_disable w]]) simp_all
  show "tx_moves K (TO_enable 0, w) (Tx_give_back 0, enable_tx_stat_probes w)"
    by (rule step [OF on_moves [of K TO_enable w]]) simp_all
  show "tx_moves K (TE_on 0, w) (Tx_rest, enable_tx_stat_probes w)"
    by (rule step [OF on_moves [of K TE_on w]]) simp_all
  show "tx_moves K (TE_off 0, w) (TE_zero, disable_tx_stat_probes w)"
    by (rule step [OF off_moves [of K TE_off w]]) simp_all
qed

lemma tx_tokens_moves:
  "tx_stats_filter_loop K r w = Inr (fine, w') \<Longrightarrow> tx_moves K (TF_tokens r, w) (if fine then TF_test else TF_err, w')"
proof (induction K r w rule: tx_stats_filter_loop.induct)
  case (1 K r w)
  obtain tok r' where st: "strsep CHR '','' r = (tok, r')" by fastforce
  show ?case
  proof (cases tok)
    case None
    with st "1.prems" show ?thesis by (auto simp: tx_stats_filter_loop.simps [of K r] intro: tx_moves_one)
  next
    case (Some t)
    note st = st [unfolded Some]
    show ?thesis
    proof (cases "t = []")
      case True
      with st "1.prems" "1.IH"(1) [OF st [symmetric] refl] show ?thesis
        by (auto simp: tx_stats_filter_loop.simps [of K r] intro: tx_moves.move)
    next
      case False
      show ?thesis
      proof (cases "kstrtoul K t")
        case (Inl e)
        with st False "1.prems" show ?thesis by (auto simp: tx_stats_filter_loop.simps [of K r] intro: tx_moves_one)
      next
        case (Inr pid)
        with st False "1.prems" obtain bs where bs: "bitmap_set_one K pid (pid_filter w) = Inr bs"
          "tx_stats_filter_loop K r' (w\<lparr>pid_filter := bs\<rparr>) = Inr (fine, w')"
          by (auto simp: tx_stats_filter_loop.simps [of K r] split: sum.splits)
        from "1.IH"(2) [OF st [symmetric] refl False Inr bs(1) bs(2)] st False Inr bs(1) show ?thesis
          by (auto intro: tx_moves.move)
      qed
    qed
  qed
qed

lemma tx_filter_write_moves:
  assumes "tx_stats_filter_write K True d w = Inr (r, w')"
  shows "tx_moves K (TF_dup d, w) (Tx_give_back r, w')"
proof -
  let ?w1 = "disable_tx_stat_probes (w\<lparr>kbufs := Suc (kbufs w)\<rparr>)"
  from assms obtain fine w2 where l: "tx_stats_filter_loop K (Some (strstrip K (cstr d))) ?w1 = Inr (fine, w2)"
    "if fine then r = 0 \<and> w' = (if tx_enabled w2 then enable_tx_stat_probes w2 else w2)
     else r = - EINVAL \<and> w' = w2\<lparr>pid_filter := bitmap_zero (pid_filter w2)\<rparr>"
    by (auto simp: tx_stats_filter_write_def Let_def res_bind_Inr_iff split: if_splits)
  have "tx_moves K (TF_dup d, w) (if fine then TF_test else TF_err, w2)"
    by (rule tx_moves.move, simp, rule tx_moves_trans [OF tx_switching_moves(1) tx_tokens_moves [OF l(1)]])
  moreover have "tx_moves K (if fine then TF_test else TF_err, w2) (Tx_give_back r, w')"
    using l(2) tx_switching_moves(2) [of K w2]
    by (cases fine; cases "tx_enabled w2") (auto intro: tx_moves.move tx_moves_one)
  ultimately show ?thesis by (rule tx_moves_trans)
qed

lemma tx_print_moves: "tx_moves K (TO_print n, w) (TO_test, w)"
proof (induction "length (pid_filter w) - n" arbitrary: n)
  case 0
  then show ?case by (auto intro: tx_moves_one)
next
  case (Suc m)
  then have "tx_moves K (TO_print (Suc n), w) (TO_test, w)" by simp
  then show ?case by (rule tx_moves.move [rotated]) (use Suc.hyps(2) in simp)
qed

lemma tx_output_read_moves:
  assumes "tx_stats_output_read K q w = Inr (r, q', w')"
  shows "tx_moves K (TO_disable 0, w) (Tx_give_back r, w')"
proof -
  let ?w = "disable_tx_stat_probes w"
  have w': "r = 0" "w' = (if tx_enabled ?w then enable_tx_stat_probes ?w else ?w)"
    using assms by (auto simp: tx_stats_output_read_def Let_def res_bind_Inr_iff)
  have "tx_moves K (TO_disable 0, w) (TO_test, ?w)"
    by (rule tx_moves_trans [OF tx_switching_moves(3) tx_print_moves])
  moreover have "tx_moves K (TO_test, ?w) (Tx_give_back r, w')"
    using w' tx_switching_moves(4) [of K ?w] by (auto intro: tx_moves.move tx_moves_one)
  ultimately show ?thesis by (rule tx_moves_trans)
qed

lemma tx_enable_write_moves:
  assumes "tx_stats_enable_write val w = (r, w')"
  shows "tx_moves K (TE_set val, w) (Tx_rest, w')"
proof -
  let ?w = "w\<lparr>tx_enabled := bool_at val\<rparr>"
  have "tx_moves K (TE_set val, w) (if bool_at val then TE_on 0 else TE_off 0, ?w)"
    by (auto intro!: tx_moves.move tx_moves.here)
  moreover have "tx_moves K (if bool_at val then TE_on 0 else TE_off 0, ?w) (Tx_rest, w')"
    using assms tx_switching_moves(5) [of K ?w] tx_moves_trans [OF tx_switching_moves(6) [of K ?w] tx_moves_one]
    by (auto simp: tx_stats_enable_write_def Let_def split: if_splits)
  ultimately show ?thesis by (rule tx_moves_trans)
qed

section \<open>The contract of the files\<close>

fun tx_holds :: "tx_pc \<Rightarrow> bool" where
  "tx_holds Tx_rest = False" | "tx_holds (TF_wait d) = False" | "tx_holds TO_wait = False"
| "tx_holds (TE_set val) = False" | "tx_holds TE_switch = False" | "tx_holds (TE_on k) = False"
| "tx_holds (TE_off k) = False" | "tx_holds TE_zero = False"
| "tx_holds _ = True"

fun tx_in_enable :: "tx_pc \<Rightarrow> bool" where
  "tx_in_enable (TE_set val) = True" | "tx_in_enable TE_switch = True" | "tx_in_enable (TE_on k) = True"
| "tx_in_enable (TE_off k) = True" | "tx_in_enable TE_zero = True"
| "tx_in_enable _ = False"

text \<open>The probes that are off while a task is at a place, and those it goes on to enable.\<close>

fun tx_off :: "jprobe \<Rightarrow> tx_pc \<Rightarrow> bool" where
  "tx_off j (TF_disable d k) = (j \<in> set (take k tx_jps))"
| "tx_off j (TF_tokens r) = (j \<in> set tx_jps)" | "tx_off j TF_err = (j \<in> set tx_jps)"
| "tx_off j TF_test = (j \<in> set tx_jps)" | "tx_off j (TF_enable k) = (j \<in> set (drop k tx_jps))"
| "tx_off j (TO_disable k) = (j \<in> set (take k tx_jps))" | "tx_off j (TO_print n) = (j \<in> set tx_jps)"
| "tx_off j TO_test = (j \<in> set tx_jps)" | "tx_off j (TO_enable k) = (j \<in> set (drop k tx_jps))"
| "tx_off j _ = False"

fun tx_arming :: "jprobe \<Rightarrow> tx_pc \<Rightarrow> bool" where
  "tx_arming j (TF_enable k) = (j \<in> set (drop k tx_jps))"
| "tx_arming j (TO_enable k) = (j \<in> set (drop k tx_jps))"
| "tx_arming j _ = False"

lemma tx_jps_take:
  "k < length tx_jps \<Longrightarrow> set (take (Suc k) tx_jps) = insert (tx_jps ! k) (set (take k tx_jps))"
  "k < length tx_jps \<Longrightarrow> set (drop k tx_jps) = insert (tx_jps ! k) (set (drop (Suc k) tx_jps))"
  "k < length tx_jps \<Longrightarrow> tx_jps ! k \<notin> set (drop (Suc k) tx_jps)"
proof -
  assume k: "k < length tx_jps"
  show "set (take (Suc k) tx_jps) = insert (tx_jps ! k) (set (take k tx_jps))"
    using k by (simp add: take_Suc_conv_app_nth)
  have "distinct (drop k tx_jps)" by (intro distinct_drop) (simp add: tx_jps_def)
  then show "set (drop k tx_jps) = insert (tx_jps ! k) (set (drop (Suc k) tx_jps))"
    "tx_jps ! k \<notin> set (drop (Suc k) tx_jps)"
    using Cons_nth_drop_Suc [OF k] by (metis list.simps(15), metis distinct.simps(2))
qed

lemma jprobe_switched:
  "armed (enable_jprobe i w) j \<Longrightarrow> armed w j \<or> j = i" "armed (disable_jprobe i w) j \<longleftrightarrow> j \<noteq> i \<and> armed w j"
  by (auto simp: armed_def enable_jprobe_def disable_jprobe_def split: if_splits)

text \<open>A step of a task that does not write \<open>enable\<close>.\<close>

lemma tx_move_facts:
  assumes "tx_move K pc w = Some (pc', w')" and "\<not> tx_in_enable pc"
  shows "tx_holds pc \<and> tx_holds pc' \<and> \<not> tx_in_enable pc'"
    and "stat_on w' = stat_on w"
    and "tx_move K pc (add_in a w) = Some (pc', add_in a w')"
proof -
  show "tx_holds pc \<and> tx_holds pc' \<and> \<not> tx_in_enable pc'"
  proof (cases pc)
    case (TF_tokens r)
    with assms show ?thesis by (auto split: option.splits prod.splits if_splits sum.splits)
  qed (use assms in \<open>auto split: if_splits\<close>)
  show "stat_on w' = stat_on w"
  proof (cases pc)
    case (TF_tokens r)
    with assms show ?thesis by (auto simp: stat_on_def fun_eq_iff split: option.splits prod.splits if_splits sum.splits)
  qed (use assms in \<open>auto simp: stat_on_def fun_eq_iff enable_jprobe_def disable_jprobe_def split: if_splits\<close>)
  show "tx_move K pc (add_in a w) = Some (pc', add_in a w')"
  proof (cases pc)
    case (TF_tokens r)
    with assms show ?thesis by (cases a) (auto split: option.splits prod.splits if_splits sum.splits)
  qed (use assms in \<open>cases a; auto simp: enable_jprobe_def disable_jprobe_def split: if_splits\<close>)+
qed

lemma tx_move_probes:
  assumes "tx_move K pc w = Some (pc', w')" and "\<not> tx_in_enable pc"
  shows "tx_off j pc' \<Longrightarrow> armed w' j \<Longrightarrow> tx_off j pc \<and> armed w j"
    and "armed w' j \<Longrightarrow> armed w j \<or> tx_arming j pc"
    and "tx_arming j pc' \<Longrightarrow> tx_arming j pc \<or> stat_on w j"
proof -
  have other: "Part_round_stats_jp \<notin> set tx_jps" by (simp add: tx_jps_def)
  show "armed w' j \<Longrightarrow> armed w j \<or> tx_arming j pc"
  proof (cases pc)
    case (TF_tokens r)
    moreover assume "armed w' j"
    ultimately show ?thesis using assms by (auto split: option.splits prod.splits if_splits sum.splits)
  qed (use assms in \<open>auto simp: tx_jps_take jprobe_switched(2) split: if_splits dest: jprobe_switched(1)\<close>)
  show "tx_arming j pc' \<Longrightarrow> tx_arming j pc \<or> stat_on w j"
  proof (cases pc)
    case (TF_tokens r)
    moreover assume "tx_arming j pc'"
    ultimately show ?thesis using assms by (auto split: option.splits prod.splits if_splits sum.splits)
  qed (use assms in \<open>auto simp: tx_jps_take stat_on_def other split: if_splits\<close>)
  show "tx_off j pc' \<Longrightarrow> armed w' j \<Longrightarrow> tx_off j pc \<and> armed w j"
  proof (cases pc)
    case (TF_tokens r)
    moreover assume "tx_off j pc'" "armed w' j"
    ultimately show ?thesis using assms by (auto split: option.splits prod.splits if_splits sum.splits)
  qed (use assms in \<open>auto simp: tx_jps_take jprobe_switched(2) split: if_splits dest: jprobe_switched(1)\<close>)
qed

lemma tx_off_holds: "tx_off j pc \<or> tx_arming j pc \<Longrightarrow> tx_holds pc"
  by (cases pc) auto

interpretation tx: counting_files "tx_move K" tx_holds tx_in_enable tx_off tx_arming armed stat_on add_in for K
  by unfold_locales
    (blast dest: tx_move_facts(1), simp add: tx_move_facts(2), (blast dest: tx_move_probes)+, rule tx_off_holds,
      assumption, rule tx_move_facts(3), simp_all add: add_in_comm)

end
