(* ===== verification/CounterRace.thy ===== *)
theory CounterRace
  imports DiskUtils "HOL-Library.Multiset"
begin

text \<open>
  The addition to a disk counter as the processor does it (\<open>dutils[idx] += now - part->stamp\<close> in
  \<open>on_part_round_stats_ent\<close>, with its comment "is this safe?"): nothing excludes the probe on two CPUs, so
  that the load of one addition and its store can have those of others between them.
\<close>

section \<open>The handler in three steps\<close>

text \<open>What a call adds, and to which counter; the steps of a CPU that is in the handler.\<close>

definition addition_of :: "kapi \<Rightarrow> u64 \<Rightarrow> hd_struct \<Rightarrow> hd_struct \<Rightarrow> wperf \<Rightarrow> (nat \<times> u64) option res" where
  "addition_of K now part part0 s =
     (let p = (if partno part \<noteq> 0 then part0 else part) in
      res_bind (dev_idx (dev_name p) s) (\<lambda>idx.
        if idx < 0 then Inr None
        else if time_after K now (stamp p) \<and> part_in_flight p
             then if nat idx < length (dutils s) then Inr (Some (nat idx, now - stamp p)) else Inl OutOfBounds
             else Inr None))"

datatype rmw = Idle | To_load nat u64 | To_store nat u64 u64

text \<open>\<open>To_store i d x\<close>: the value \<open>x\<close> was loaded from counter \<open>i\<close>, \<open>d\<close> is to be added.\<close>

record race =
  counter_of :: "u64 list"
  at_cpu :: "nat \<Rightarrow> rmw"
  finished :: "(nat \<times> u64) multiset"

text \<open>\<open>finished\<close> records the additions that have stored; no step looks at it.\<close>

inductive race_step :: "race \<Rightarrow> race \<Rightarrow> bool" where
  enter: "at_cpu s c = Idle \<Longrightarrow> i < length (counter_of s) \<Longrightarrow>
    race_step s (s\<lparr>at_cpu := (at_cpu s)(c := To_load i d)\<rparr>)"
| load: "at_cpu s c = To_load i d \<Longrightarrow>
    race_step s (s\<lparr>at_cpu := (at_cpu s)(c := To_store i d (counter_of s ! i))\<rparr>)"
| store: "at_cpu s c = To_store i d x \<Longrightarrow>
    race_step s (s\<lparr>counter_of := (counter_of s)[i := x + d], at_cpu := (at_cpu s)(c := Idle),
      finished := add_mset (i, d) (finished s)\<rparr>)"

inductive_cases race_stepE: "race_step s s'"

definition race_start :: "u64 list \<Rightarrow> race" where
  "race_start us = \<lparr>counter_of = us, at_cpu = (\<lambda>_. Idle), finished = {#}\<rparr>"

text \<open>The amounts added to one counter.\<close>

definition added :: "nat \<Rightarrow> (nat \<times> u64) multiset \<Rightarrow> u64 multiset" where
  "added i m = image_mset snd {#a \<in># m. fst a = i#}"

lemma added_simps [simp]:
  "added i {#} = {#}" "added i (add_mset (j, d) m) = (if i = j then add_mset d (added i m) else added i m)"
  by (simp_all add: added_def)

section \<open>Nothing is invented\<close>

text \<open>A value some of the finished additions lead to, and the invariant of a run.\<close>

definition explained :: "u64 \<Rightarrow> u64 multiset \<Rightarrow> u64 \<Rightarrow> bool" where
  "explained old m v \<longleftrightarrow> (\<exists>A. A \<subseteq># m \<and> v = old + sum_mset A)"

definition race_inv :: "u64 list \<Rightarrow> race \<Rightarrow> bool" where
  "race_inv us s \<longleftrightarrow> length (counter_of s) = length us \<and>
     (\<forall>i < length us. explained (us ! i) (added i (finished s)) (counter_of s ! i)) \<and>
     (\<forall>c i d x. at_cpu s c = To_store i d x \<longrightarrow> i < length us \<and> explained (us ! i) (added i (finished s)) x) \<and>
     (\<forall>c i d. at_cpu s c = To_load i d \<longrightarrow> i < length us)"

lemma explained_more: "explained old m v \<Longrightarrow> explained old (add_mset d m) v"
  unfolding explained_def by (metis add_mset_add_single mset_subset_eq_add_left subset_mset.order_trans)

lemma explained_add: "explained old m x \<Longrightarrow> explained old (add_mset d m) (x + d)"
proof -
  assume "explained old m x"
  then obtain A where "A \<subseteq># m" "x = old + sum_mset A" by (auto simp: explained_def)
  then have "add_mset d A \<subseteq># add_mset d m" "x + d = old + sum_mset (add_mset d A)" by (simp_all add: ac_simps)
  then show ?thesis unfolding explained_def by blast
qed

lemma race_step_inv:
  assumes "race_step s s'" and "race_inv us s"
  shows "race_inv us s'"
  using assms(1)
proof (cases rule: race_step.cases)
  case (enter c i d)
  with assms(2) show ?thesis by (auto simp: race_inv_def split: if_splits)
next
  case (load c i d)
  with assms(2) have "i < length us" unfolding race_inv_def by blast
  with load assms(2) show ?thesis by (auto simp: race_inv_def split: if_splits)
next
  case (store c i d x)
  let ?m = "added i (finished s)"
  have old: "length (counter_of s) = length us" "i < length us" "explained (us ! i) ?m x"
    using assms(2) store(2) by (auto simp: race_inv_def)
  have loads: "\<And>c i d. at_cpu s c = To_load i d \<Longrightarrow> i < length us" using assms(2) unfolding race_inv_def by blast
  have vals: "explained (us ! j) (added j (finished s')) (counter_of s' ! j)" if "j < length us" for j
    using assms(2) that old explained_add store(1) by (cases "j = i") (auto simp: race_inv_def)
  have pending: "k < length us \<and> explained (us ! k) (added k (finished s')) y"
    if "at_cpu s' b = To_store k e y" for b k e y
  proof -
    from that have "at_cpu s b = To_store k e y" using store(1) by (auto split: if_splits)
    with assms(2) have "k < length us" "explained (us ! k) (added k (finished s)) y" by (auto simp: race_inv_def)
    then show ?thesis using explained_more store(1) by auto
  qed
  have "length (counter_of s') = length us" using old(1) store(1) by simp
  moreover have "k < length us" if "at_cpu s' b = To_load k e" for b k e
    using that loads [of b k e] store(1) by (auto split: if_splits)
  ultimately show ?thesis using vals pending by (simp add: race_inv_def)
qed

lemma race_run_inv: "race_step\<^sup>*\<^sup>* (race_start us) s \<Longrightarrow> race_inv us s"
proof (induction rule: rtranclp_induct)
  case base
  have "explained v {#} v" for v by (auto simp: explained_def)
  then show ?case by (simp add: race_inv_def race_start_def)
next
  case (step s s')
  then show ?case by (blast intro: race_step_inv)
qed

section \<open>Properties\<close>

text \<open>
  C36: However the additions of several CPUs interleave, a counter never shows time that was not added:
  its value is always the starting value plus some of the finished additions to it.
\<close>

theorem race_never_invents:
  assumes "race_step\<^sup>*\<^sup>* (race_start us) s" and "i < length us"
  shows "\<exists>A. A \<subseteq># added i (finished s) \<and> counter_of s ! i = us ! i + sum_mset A"
  using race_run_inv [OF assms(1)] assms(2) by (simp add: race_inv_def explained_def)

text \<open>The steps of one call, not interrupted.\<close>

lemma alone_steps:
  assumes "at_cpu s c = Idle" and "i < length (counter_of s)"
  shows "race_step\<^sup>*\<^sup>* s (s\<lparr>counter_of := (counter_of s)[i := counter_of s ! i + d],
    finished := add_mset (i, d) (finished s)\<rparr>)"
proof -
  let ?s1 = "s\<lparr>at_cpu := (at_cpu s)(c := To_load i d)\<rparr>"
  let ?s2 = "?s1\<lparr>at_cpu := (at_cpu ?s1)(c := To_store i d (counter_of ?s1 ! i))\<rparr>"
  have "race_step s ?s1" using assms by (rule race_step.enter)
  moreover have "race_step ?s1 ?s2" by (rule race_step.load) simp
  moreover have "race_step ?s2 (?s2\<lparr>counter_of := (counter_of ?s2)[i := counter_of ?s1 ! i + d],
      at_cpu := (at_cpu ?s2)(c := Idle), finished := add_mset (i, d) (finished ?s2)\<rparr>)"
    by (rule race_step.store) simp
  ultimately have "race_step\<^sup>*\<^sup>* s (?s2\<lparr>counter_of := (counter_of ?s2)[i := counter_of ?s1 ! i + d],
      at_cpu := (at_cpu ?s2)(c := Idle), finished := add_mset (i, d) (finished ?s2)\<rparr>)" by auto
  moreover have "?s2\<lparr>counter_of := (counter_of ?s2)[i := counter_of ?s1 ! i + d],
      at_cpu := (at_cpu ?s2)(c := Idle), finished := add_mset (i, d) (finished ?s2)\<rparr> =
    s\<lparr>counter_of := (counter_of s)[i := counter_of s ! i + d], finished := add_mset (i, d) (finished s)\<rparr>"
    using assms(1) by (cases s) (auto simp: fun_eq_iff)
  ultimately show ?thesis by simp
qed

text \<open>
  The handler is the uninterrupted run of its three steps: when it finds something to add, it leaves
  in the counters what entering, loading and storing on one CPU leave, and it changes nothing else.
\<close>

theorem handler_is_atomic_run:
  assumes "addition_of K now part part0 s = Inr (Some (i, d))"
  shows "\<exists>r. on_part_round_stats_ent K now part part0 s = Inr (s\<lparr>dutils := counter_of r\<rparr>) \<and>
    race_step\<^sup>*\<^sup>* (race_start (dutils s)) r \<and> finished r = {#(i, d)#} \<and> at_cpu r = (\<lambda>_. Idle)"
proof -
  let ?r = "(race_start (dutils s))\<lparr>counter_of := (dutils s)[i := dutils s ! i + d], finished := {#(i, d)#}\<rparr>"
  from assms have "i < length (dutils s)"
    and "on_part_round_stats_ent K now part part0 s = Inr (s\<lparr>dutils := counter_of ?r\<rparr>)"
    by (auto simp: addition_of_def on_part_round_stats_ent_def Let_def res_bind_Inr_iff split: if_splits)
  moreover from this(1) alone_steps [of "race_start (dutils s)" 0 i d] have "race_step\<^sup>*\<^sup>* (race_start (dutils s)) ?r"
    by (simp add: race_start_def)
  ultimately show ?thesis by (intro exI [of _ ?r]) (simp add: race_start_def)
qed

text \<open>A table with one disk, whose partition has requests in flight since 4.\<close>

definition ex_table :: wperf where
  "ex_table = (static_data (ref_kapi 64 8))\<lparr>didx := 1,
     dnames := (''sda'' @ replicate 17 NUL) # replicate 19 (replicate 20 NUL)\<rparr>"

definition ex_part :: hd_struct where
  "ex_part = \<lparr>partno = 1, stamp = 0, dev_name = ''sda1'', part_in_flight = True\<rparr>"

definition ex_disk :: hd_struct where
  "ex_disk = \<lparr>partno = 0, stamp = 4, dev_name = ''sda'', part_in_flight = True\<rparr>"

lemma ex_addition: "addition_of (ref_kapi 64 8) 9 ex_part ex_disk ex_table = Inr (Some (0, 5))"
  by code_simp

theorem handler_is_atomic_run_witness:
  "\<exists>r :: race. on_part_round_stats_ent (ref_kapi 64 8) 9 ex_part ex_disk ex_table = Inr (ex_table\<lparr>dutils := counter_of r\<rparr>) \<and>
     finished r = {#(0, 5)#}"
  using handler_is_atomic_run [OF ex_addition] by blast

text \<open>
  The addition is not safe: for any two amounts there is a run in which two CPUs add them to
  the same counter, both finish, and the counter shows only one of them.
\<close>

theorem race_loses_time:
  assumes "i < length us"
  shows "\<exists>s. race_step\<^sup>*\<^sup>* (race_start us) s \<and> at_cpu s = (\<lambda>_. Idle) \<and>
    finished s = {#(i, d1), (i, d2)#} \<and> counter_of s ! i = us ! i + d1"
proof -
  let ?s = "race_start us"
  let ?s1 = "?s\<lparr>at_cpu := (at_cpu ?s)(0 := To_load i d1)\<rparr>"
  let ?s2 = "?s1\<lparr>at_cpu := (at_cpu ?s1)(0 := To_store i d1 (counter_of ?s1 ! i))\<rparr>"
  have "race_step ?s ?s1" by (rule race_step.enter) (simp_all add: race_start_def assms)
  moreover have "race_step ?s1 ?s2" by (rule race_step.load) simp
  moreover have "race_step\<^sup>*\<^sup>* ?s2 (?s2\<lparr>counter_of := (counter_of ?s2)[i := counter_of ?s2 ! i + d2],
      finished := add_mset (i, d2) (finished ?s2)\<rparr>)" (is "race_step\<^sup>*\<^sup>* _ ?s3")
    by (rule alone_steps [of _ 1]) (simp_all add: race_start_def assms)
  moreover have "race_step ?s3 (?s3\<lparr>counter_of := (counter_of ?s3)[i := us ! i + d1],
      at_cpu := (at_cpu ?s3)(0 := Idle), finished := add_mset (i, d1) (finished ?s3)\<rparr>)" (is "race_step _ ?s4")
    by (rule race_step.store) (simp add: race_start_def)
  ultimately have "race_step\<^sup>*\<^sup>* ?s ?s4" by (meson converse_rtranclp_into_rtranclp rtranclp.rtrancl_into_rtrancl)
  moreover have "at_cpu ?s4 = (\<lambda>_. Idle)" "finished ?s4 = {#(i, d1), (i, d2)#}" "counter_of ?s4 ! i = us ! i + d1"
    using assms by (auto simp: race_start_def fun_eq_iff)
  ultimately show ?thesis by blast
qed

theorem race_never_invents_witness:
  "\<exists>s. race_step\<^sup>*\<^sup>* (race_start [7]) s \<and> (\<exists>A. A \<subseteq># added 0 (finished s) \<and> counter_of s ! 0 = 7 + sum_mset A) \<and>
     finished s = {#(0, 3)#}"
proof -
  have "race_step\<^sup>*\<^sup>* (race_start [7]) ((race_start [7])\<lparr>counter_of := [10], finished := {#(0, 3)#}\<rparr>)"
    using alone_steps [of "race_start [7]" 0 0 3] by (simp add: race_start_def)
  moreover from race_never_invents [OF this, of 0]
  have "\<exists>A. A \<subseteq># added 0 {#(0, 3)#} \<and> 10 = 7 + sum_mset A" by (simp add: race_start_def)
  ultimately show ?thesis by (intro exI [of _ "(race_start [7])\<lparr>counter_of := [10], finished := {#(0, 3)#}\<rparr>"]) simp
qed

theorem race_loses_time_witness:
  "\<exists>s. race_step\<^sup>*\<^sup>* (race_start [100]) s \<and> finished s = {#(0, 3), (0, 5)#} \<and> counter_of s ! 0 = 103"
  using race_loses_time [of 0 "[100]" 3 5] by auto

end
