(* ===== verification/AllFiles.thy ===== *)
theory AllFiles
  imports TxRace CounterRace Machine
begin

text \<open>
  The six debugfs files of the module together, with their one mutex, and handlers that are still running
  when a file operation disables their probe: \<open>disable_jprobe\<close> does not wait for them, so that a handler's
  look-up in the table or the bitmap and its addition to a counter can have any steps of the files between them. The
  look-up and the addition are a step each; LookupRace and CounterRace divide them. An act that leaves an array has an outcome
  of its own; FileBounds says when there is none.
\<close>

section \<open>The handlers in two steps\<close>

datatype probed = Disk_call u64 hd_struct hd_struct | Tx_call jprobe kctx u64

fun probe_of :: "probed \<Rightarrow> jprobe" where
  "probe_of (Disk_call now part part0) = Part_round_stats_jp"
| "probe_of (Tx_call j c sz) = j"

fun real_call :: "probed \<Rightarrow> bool" where
  "real_call (Disk_call now part part0) = True"
| "real_call (Tx_call j c sz) = (j \<in> set tx_jps)"

text \<open>What the body shared by the five handlers adds: the test of the bit.\<close>

definition tx_addition_of :: "kctx \<Rightarrow> u64 \<Rightarrow> wperf \<Rightarrow> (nat \<times> u64) option res" where
  "tx_addition_of c sz s =
     (let pid = t_pid (cur c) in
      if pid < 0 \<or> length (pid_filter s) \<le> nat pid then Inl OutOfBounds
      else if pid_filter s ! nat pid
           then if nat pid < length (tx_stats s) then Inr (Some (nat pid, sz)) else Inl OutOfBounds
           else Inr None)"

text \<open>A handler up to its addition, and as a whole. Only the probes of these two statistics are called.\<close>

fun looks_up :: "kapi \<Rightarrow> probed \<Rightarrow> wperf \<Rightarrow> addition option res" where
  "looks_up K (Disk_call now part part0) w =
     res_bind (addition_of K now part part0 w) (\<lambda>a. Inr (map_option (\<lambda>(i, d). To_disk i d) a))"
| "looks_up K (Tx_call j c sz) w =
     res_bind (tx_addition_of c sz w) (\<lambda>a. Inr (map_option (\<lambda>(p, n). To_pid p n) a))"

fun handles :: "kapi \<Rightarrow> probed \<Rightarrow> wperf \<Rightarrow> wperf res" where
  "handles K (Disk_call now part part0) w = on_part_round_stats_ent K now part part0 w"
| "handles K (Tx_call j c sz) w = (case tx_handler j of Some h \<Rightarrow> h c sz w | None \<Rightarrow> Inr w)"

fun fits :: "addition \<Rightarrow> wperf \<Rightarrow> bool" where
  "fits (To_disk i d) w = (i < length (dutils w))"
| "fits (To_pid p n) w = (p < length (tx_stats w))"

text \<open>The two steps of a handler make the handler.\<close>

lemma handles_two_steps:
  assumes "real_call h"
  shows "handles K h w = res_bind (looks_up K h w) (\<lambda>a. Inr (case a of None \<Rightarrow> w | Some x \<Rightarrow> add_in x w))"
proof (cases h)
  case (Disk_call now part part0)
  then show ?thesis
    by (cases "dev_idx (dev_name (if partno part \<noteq> 0 then part0 else part)) w")
      (auto simp: on_part_round_stats_ent_def addition_of_def Let_def)
next
  case (Tx_call j c sz)
  with assms obtain f where f: "tx_handler j = Some f" using tx_handler_None [of j] by fastforce
  show ?thesis using tx_handler_account [OF f] f Tx_call by (simp add: tx_account_def tx_addition_of_def Let_def)
qed

section \<open>Tasks, the mutex and the handlers in flight\<close>

type_synonym any_pc = "file_pc + tx_pc"

record all_sys =
  as_data :: wperf
  as_mutex :: "nat option"
  as_at :: "nat \<Rightarrow> any_pc"
  flying :: "addition list"

text \<open>
  As in FileRace; \<open>Called\<close> is a whole call of a probed function, \<open>Starts\<close> one whose handler has looked up what to
  add, \<open>Adds k\<close> the addition of the handler number \<open>k\<close> of those.
\<close>

datatype act = Goes_in nat any_pc | Takes nat bool | Steps nat | Gives nat | Called probed | Starts probed | Adds nat

fun any_entry :: "any_pc \<Rightarrow> bool" where
  "any_entry (Inl pc) = entry pc"
| "any_entry (Inr (TF_wait d)) = True"
| "any_entry (Inr TO_wait) = True"
| "any_entry (Inr (TE_set val)) = True"
| "any_entry (Inr _) = False"

text \<open>Where a task goes when it gets the mutex, and when it gives it back.\<close>

fun locked_at :: "bool \<Rightarrow> any_pc \<Rightarrow> any_pc option" where
  "locked_at kmem (Inl (F_wait d)) = Some (Inl (if kmem then F_reset d else Give_back (- ENOMEM)))"
| "locked_at kmem (Inl O_wait) = Some (Inl O_disable)"
| "locked_at kmem (Inr (TF_wait d)) = Some (Inr (if kmem then TF_dup d else Tx_give_back (- ENOMEM)))"
| "locked_at kmem (Inr TO_wait) = Some (Inr (TO_disable 0))"
| "locked_at kmem _ = None"

fun unlocked_at :: "any_pc \<Rightarrow> any_pc option" where
  "unlocked_at (Inl (Give_back r)) = Some (Inl Rest)"
| "unlocked_at (Inr (Tx_give_back r)) = Some (Inr Tx_rest)"
| "unlocked_at _ = None"

abbreviation any_move :: "kapi \<Rightarrow> any_pc \<Rightarrow> wperf \<Rightarrow> (any_pc \<times> wperf) option" where
  "any_move K \<equiv> either_move (file_move K) (tx_move K)"

text \<open>Where a step would leave an array: the twenty-first name, a counter past the table, or a pid past the bitmap.\<close>

fun overflows :: "kapi \<Rightarrow> any_pc \<Rightarrow> wperf \<Rightarrow> bool" where
  "overflows K (Inl (F_tokens r)) w = (case strsep CHR '','' r of
     (Some token, r') \<Rightarrow> token \<noteq> [] \<and> strlen token + 1 \<le> MAX_DNAME_SIZE \<and> length (dnames w) \<le> didx w | _ \<Rightarrow> False)"
| "overflows K (Inl (E_clear i)) w = (i < didx w \<and> length (dutils w) \<le> i)"
| "overflows K (Inr (TF_tokens r)) w = (case strsep CHR '','' r of
     (Some token, r') \<Rightarrow> token \<noteq> [] \<and> (case kstrtoul K token of Inr pid \<Rightarrow> length (pid_filter w) \<le> bitmap_start K pid | _ \<Rightarrow> False)
   | _ \<Rightarrow> False)"
| "overflows K _ w = False"

text \<open>
  \<open>None\<close>: the act is not possible where the tasks are; \<open>Some (Inl OutOfBounds)\<close>: it leaves an array, and the
  system is not followed further; otherwise the state it leads to.
\<close>

fun all_step :: "kapi \<Rightarrow> act \<Rightarrow> all_sys \<Rightarrow> all_sys res option" where
  "all_step K (Goes_in p pc) s =
     (if as_at s p \<in> {Inl Rest, Inr Tx_rest} \<and> any_entry pc then Some (Inr (s\<lparr>as_at := (as_at s)(p := pc)\<rparr>)) else None)"
| "all_step K (Takes p kmem) s =
     (if as_mutex s \<noteq> None then None
      else map_option (\<lambda>pc. Inr (s\<lparr>as_mutex := Some p, as_at := (as_at s)(p := pc)\<rparr>)) (locked_at kmem (as_at s p)))"
| "all_step K (Steps p) s =
     (if overflows K (as_at s p) (as_data s) then Some (Inl OutOfBounds)
      else map_option (\<lambda>(pc, w). Inr (s\<lparr>as_data := w, as_at := (as_at s)(p := pc)\<rparr>)) (any_move K (as_at s p) (as_data s)))"
| "all_step K (Gives p) s =
     map_option (\<lambda>pc. Inr (s\<lparr>as_mutex := None, as_at := (as_at s)(p := pc)\<rparr>)) (unlocked_at (as_at s p))"
| "all_step K (Called h) s =
     (if \<not> real_call h then None
      else if \<not> armed (as_data s) (probe_of h) then Some (Inr s)
      else Some (res_bind (handles K h (as_data s)) (\<lambda>w. Inr (s\<lparr>as_data := w\<rparr>))))"
| "all_step K (Starts h) s =
     (if \<not> real_call h then None
      else if \<not> armed (as_data s) (probe_of h) then Some (Inr s)
      else Some (res_bind (looks_up K h (as_data s)) (\<lambda>x. Inr (case x of None \<Rightarrow> s
        | Some a \<Rightarrow> s\<lparr>flying := flying s @ [a]\<rparr>))))"
| "all_step K (Adds k) s =
     (if \<not> k < length (flying s) then None
      else if \<not> fits (flying s ! k) (as_data s) then Some (Inl OutOfBounds)
      else Some (Inr (s\<lparr>as_data := add_in (flying s ! k) (as_data s),
        flying := take k (flying s) @ drop (Suc k) (flying s)\<rparr>)))"

fun all_run :: "kapi \<Rightarrow> act list \<Rightarrow> all_sys \<Rightarrow> all_sys res option" where
  "all_run K [] s = Some (Inr s)"
| "all_run K (c # cs) s = (case all_step K c s of None \<Rightarrow> None | Some (Inl e) \<Rightarrow> Some (Inl e)
     | Some (Inr s') \<Rightarrow> all_run K cs s')"

lemma steps_Inr:
  assumes "all_step K (Steps p) s = Some (Inr s')"
  obtains pc w where "any_move K (as_at s p) (as_data s) = Some (pc, w)" "\<not> overflows K (as_at s p) (as_data s)"
    "s' = s\<lparr>as_data := w, as_at := (as_at s)(p := pc)\<rparr>"
  using assms by (auto split: if_splits)

lemma all_run_append [simp]:
  "all_run K (cs @ ds) s = (case all_run K cs s of None \<Rightarrow> None | Some (Inl e) \<Rightarrow> Some (Inl e)
     | Some (Inr s') \<Rightarrow> all_run K ds s')"
  by (induction cs arbitrary: s) (auto split: option.splits sum.splits)

text \<open>Acts that write \<open>enable\<close>.\<close>

fun enable_act :: "act \<Rightarrow> bool" where
  "enable_act (Goes_in p (Inl (E_set val))) = True"
| "enable_act (Goes_in p (Inr (TE_set val))) = True"
| "enable_act _ = False"

definition quiet :: "wperf \<Rightarrow> all_sys" where
  "quiet w = \<lparr>as_data = w, as_mutex = None, as_at = (\<lambda>_. Inl Rest), flying = []\<rparr>"

section \<open>The mutex and the switches\<close>

interpretation files: two_groups "file_move K" holds in_enable disk_off disk_arming
    "tx_move K" tx_holds tx_in_enable tx_off tx_arming armed stat_on add_in for K
  by unfold_locales

abbreviation any_holds :: "any_pc \<Rightarrow> bool" where "any_holds \<equiv> case_sum holds tx_holds"
abbreviation any_in_enable :: "any_pc \<Rightarrow> bool" where "any_in_enable \<equiv> case_sum in_enable tx_in_enable"

text \<open>A task at \<open>pc\<close> has probe \<open>j\<close> disabled.\<close>

definition any_off :: "jprobe \<Rightarrow> any_pc \<Rightarrow> bool" where
  "any_off j = case_sum (disk_off j) (tx_off j)"

abbreviation all_inv :: "jprobe set \<Rightarrow> kapi \<Rightarrow> all_sys \<Rightarrow> bool" where
  "all_inv J K s \<equiv> files.both.tasks_inv J (as_at s) (as_mutex s) (as_data s)"

text \<open>Places of a task that do not concern the probes.\<close>

definition aside :: "any_pc \<Rightarrow> bool" where
  "aside pc \<longleftrightarrow> \<not> any_in_enable pc \<and> (\<forall>j. \<not> case_sum (disk_off j) (tx_off j) pc \<and> \<not> case_sum (disk_arming j) (tx_arming j) pc)"

lemma aside_entry: "any_entry pc \<Longrightarrow> \<not> enable_act (Goes_in p pc) \<Longrightarrow> aside pc \<and> \<not> any_holds pc"
  by (induction pc rule: any_entry.induct)
    (auto simp: aside_def disk_off_def disk_arming_def elim: entry.elims)

lemma aside_locked: "locked_at kmem pc = Some pc' \<Longrightarrow> aside pc' \<and> any_holds pc'"
  by (induction kmem pc rule: locked_at.induct) (auto simp: aside_def disk_off_def disk_arming_def split: if_splits)

lemma aside_unlocked: "unlocked_at pc = Some pc' \<Longrightarrow> aside pc' \<and> \<not> any_holds pc' \<and> any_holds pc"
  by (induction pc rule: unlocked_at.induct) (auto simp: aside_def disk_off_def disk_arming_def)

lemma inv_aside:
  assumes "all_inv J K s" and "aside pc" and "any_holds pc \<longleftrightarrow> m = Some p" and "\<And>q. q \<noteq> p \<Longrightarrow> m = Some q \<longleftrightarrow> as_mutex s = Some q"
  shows "files.both.tasks_inv J ((as_at s)(p := pc)) m (as_data s)"
  by (rule files.both.inv_set [OF assms(1)]) (use assms(2-4) in \<open>auto simp: aside_def\<close>)

lemma inv_holder: "all_inv J K s \<Longrightarrow> any_holds (as_at s p) \<longleftrightarrow> as_mutex s = Some p"
  by (simp add: files.both.tasks_inv_def)

lemma handles_frame:
  assumes "handles K h w = Inr w'" and "real_call h"
  shows "w' = w \<or> (\<exists>a. w' = add_in a w)"
  using assms by (auto simp: handles_two_steps res_bind_Inr_iff split: option.splits)

lemma all_step_inv:
  assumes "all_step K c s = Some (Inr s')" and "\<not> enable_act c" and "all_inv J K s"
  shows "all_inv J K s'"
proof (cases c)
  case (Goes_in p pc)
  with assms have "as_at s p \<in> {Inl Rest, Inr Tx_rest}" "aside pc" "\<not> any_holds pc" "s' = s\<lparr>as_at := (as_at s)(p := pc)\<rparr>"
    using aside_entry [of pc p] by (auto split: if_splits)
  with inv_holder [OF assms(3), of p] show ?thesis by (auto intro!: inv_aside [OF assms(3)])
next
  case (Takes p kmem)
  with assms(1) show ?thesis by (auto split: if_splits dest!: aside_locked intro!: inv_aside [OF assms(3)])
next
  case (Steps p)
  obtain pc w where "any_move K (as_at s p) (as_data s) = Some (pc, w)"
    "s' = s\<lparr>as_data := w, as_at := (as_at s)(p := pc)\<rparr>"
    using steps_Inr [OF assms(1) [unfolded Steps]] by metis
  with files.both.inv_move [OF assms(3)] show ?thesis by simp
next
  case (Gives p)
  with assms(1) obtain pc where pc: "unlocked_at (as_at s p) = Some pc"
    "s' = s\<lparr>as_mutex := None, as_at := (as_at s)(p := pc)\<rparr>" by auto
  with aside_unlocked [OF pc(1)] inv_holder [OF assms(3), of p] show ?thesis
    by (auto intro!: inv_aside [OF assms(3)])
next
  case (Called h)
  with assms(1) have "as_at s' = as_at s" "as_mutex s' = as_mutex s"
    "as_data s' = as_data s \<or> (\<exists>a. as_data s' = add_in a (as_data s))"
    using handles_frame [of K h "as_data s"] by (auto simp: res_bind_Inr_iff split: if_splits)
  then show ?thesis by (auto intro: assms(3) files.both.inv_data [OF assms(3)])
next
  case (Starts h)
  with assms show ?thesis by (auto simp: res_bind_Inr_iff split: if_splits option.splits)
next
  case (Adds k)
  with assms(1) show ?thesis by (auto split: if_splits intro!: files.both.inv_data [OF assms(3)])
qed

lemma all_run_inv:
  "all_run K cs s = Some (Inr s') \<Longrightarrow> \<forall>c \<in> set cs. \<not> enable_act c \<Longrightarrow> all_inv J K s \<Longrightarrow> all_inv J K s'"
  by (induction cs arbitrary: s) (auto split: option.splits sum.splits intro: all_step_inv)

lemma all_inv_quiet: "switches_ok w \<Longrightarrow> all_inv UNIV K (quiet w)"
  by (simp add: quiet_def, rule files.both.inv_start) (auto simp: switches_ok_def stat_on_def)

lemma all_inv_calm: "all_inv {} K (quiet w)"
  by (simp add: quiet_def, rule files.both.inv_start) auto

section \<open>Handlers in flight\<close>

lemma looks_up_add [simp]: "looks_up K h (add_in a w) = looks_up K h w"
proof (cases h)
  case (Disk_call now part part0)
  have "dev_idx_from d (add_in a w) i = dev_idx_from d w i" for d i
    by (induction d w i rule: dev_idx_from.induct) (simp add: dev_idx_from.simps [of _ "add_in a _"] dev_idx_from.simps [of _ s for s])
  with Disk_call show ?thesis by (simp add: addition_of_def dev_idx_def Let_def cong: if_cong)
qed (simp add: tx_addition_of_def Let_def)

lemma overflows_add [simp]: "overflows K pc (add_in a w) = overflows K pc w"
  by (induction K pc w rule: overflows.induct) (auto split: option.splits prod.splits sum.splits)

lemma overflows_adds [simp]: "overflows K pc (fold add_in as w) = overflows K pc w"
  by (induction as arbitrary: w) simp_all

lemma looks_up_adds [simp]: "looks_up K h (fold add_in as w) = looks_up K h w"
  by (induction as arbitrary: w) simp_all

text \<open>The schedule with every handler done at once, and the state with every handler in flight landed.\<close>

fun at_once :: "act list \<Rightarrow> act list" where
  "at_once [] = []"
| "at_once (Starts h # cs) = Called h # at_once cs"
| "at_once (Adds k # cs) = at_once cs"
| "at_once (c # cs) = c # at_once cs"

definition landed :: "all_sys \<Rightarrow> all_sys" where
  "landed s = s\<lparr>as_data := fold add_in (flying s) (as_data s), flying := []\<rparr>"

lemma landed_fields [simp]:
  "as_at (landed s) = as_at s" "as_mutex (landed s) = as_mutex s" "flying (landed s) = []"
  "as_data (landed s) = fold add_in (flying s) (as_data s)"
  by (simp_all add: landed_def)

lemma called_step:
  assumes "all_step K (Called h) s = Some (Inr s')" and "armed (as_data s) (probe_of h)"
  obtains x where "real_call h" "looks_up K h (as_data s) = Inr x"
    "s' = s\<lparr>as_data := (case x of None \<Rightarrow> as_data s | Some a \<Rightarrow> add_in a (as_data s))\<rparr>"
  using assms by (auto simp: handles_two_steps res_bind_Inr_iff split: if_splits sum.splits)

lemma landed_step:
  assumes "all_step K c s = Some (Inr s')" and "\<not> enable_act c" and "all_inv {} K s"
  shows "all_run K (at_once [c]) (landed s) = Some (Inr (landed s'))"
proof (cases c)
  case (Steps p)
  obtain pc w where m: "any_move K (as_at s p) (as_data s) = Some (pc, w)"
    "s' = s\<lparr>as_data := w, as_at := (as_at s)(p := pc)\<rparr>" "\<not> overflows K (as_at s p) (as_data s)"
    using steps_Inr [OF assms(1) [unfolded Steps]] by metis
  from files.both.move_adds [OF m(1) files.both.inv_outside [OF assms(3)], of "flying s"] Steps m(2,3) show ?thesis
    by (simp add: landed_def)
next
  case (Called h)
  show ?thesis
  proof (cases "armed (as_data s) (probe_of h)")
    case True
    from called_step [OF assms(1) [unfolded Called] this] obtain x where x: "real_call h" "looks_up K h (as_data s) = Inr x"
      "s' = s\<lparr>as_data := (case x of None \<Rightarrow> as_data s | Some a \<Rightarrow> add_in a (as_data s))\<rparr>" .
    with Called True show ?thesis
      by (cases x) (simp_all add: landed_def handles_two_steps files.both.adds_comm)
  qed (use Called assms(1) in \<open>auto split: if_splits\<close>)
next
  case (Starts h)
  with assms(1) show ?thesis
    by (cases "looks_up K h (as_data s)")
      (auto simp: landed_def handles_two_steps split: if_splits option.splits)
next
  case (Adds k)
  with assms(1) files.both.adds_take [of k "flying s" "as_data s"] show ?thesis
    by (auto simp: landed_def split: if_splits)
qed (use assms in \<open>auto simp: landed_def split: if_splits\<close>)

lemma at_once_Cons: "at_once (c # cs) = at_once [c] @ at_once cs"
  by (cases c) simp_all

lemma landed_run:
  "all_run K cs s = Some (Inr s') \<Longrightarrow> \<forall>c \<in> set cs. \<not> enable_act c \<Longrightarrow> all_inv {} K s \<Longrightarrow>
   all_run K (at_once cs) (landed s) = Some (Inr (landed s'))"
proof (induction cs arbitrary: s)
  case (Cons c cs)
  then obtain s1 where s1: "all_step K c s = Some (Inr s1)" "all_run K cs s1 = Some (Inr s')" by (auto split: option.splits sum.splits)
  moreover have "\<not> enable_act c" using Cons.prems(2) by simp
  note landed_step [OF s1(1) this Cons.prems(3)] all_step_inv [OF s1(1) this Cons.prems(3)]
  ultimately show ?case using Cons at_once_Cons [of c cs] by simp
qed simp

text \<open>The counters, and the additions the handlers of a run go on to make, in the order in which the handlers start.\<close>

definition both_counters :: "wperf \<Rightarrow> u64 list \<times> u64 list" where
  "both_counters w = (dutils w, tx_stats w)"

fun starting :: "kapi \<Rightarrow> act \<Rightarrow> wperf \<Rightarrow> addition list" where
  "starting K (Called h) w = (if armed w (probe_of h) then case looks_up K h w of Inr (Some a) \<Rightarrow> [a] | _ \<Rightarrow> [] else [])"
| "starting K (Starts h) w = (if armed w (probe_of h) then case looks_up K h w of Inr (Some a) \<Rightarrow> [a] | _ \<Rightarrow> [] else [])"
| "starting K _ w = []"

fun started :: "kapi \<Rightarrow> act list \<Rightarrow> all_sys \<Rightarrow> addition list" where
  "started K [] s = []"
| "started K (c # cs) s = starting K c (as_data s) @ (case all_step K c s of Some (Inr s') \<Rightarrow> started K cs s' | _ \<Rightarrow> [])"

lemma counters_add: "both_counters w = both_counters w' \<Longrightarrow> both_counters (add_in a w) = both_counters (add_in a w')"
  by (cases a) (simp_all add: both_counters_def)

lemma counters_adds: "both_counters w = both_counters w' \<Longrightarrow> both_counters (fold add_in as w) = both_counters (fold add_in as w')"
proof (induction as arbitrary: w w')
  case (Cons a as)
  from Cons.IH [OF counters_add [OF Cons.prems]] show ?case by simp
qed simp

lemma file_move_counters: "file_move K pc w = Some (pc', w') \<Longrightarrow> \<not> in_enable pc \<Longrightarrow> both_counters w' = both_counters w"
  by (induction K pc w rule: file_move.induct)
    (auto simp: both_counters_def store_name_def enable_jprobe_def disable_jprobe_def
      split: option.splits prod.splits if_splits sum.splits)

lemma tx_move_counters: "tx_move K pc w = Some (pc', w') \<Longrightarrow> \<not> tx_in_enable pc \<Longrightarrow> both_counters w' = both_counters w"
  by (induction K pc w rule: tx_move.induct)
    (auto simp: both_counters_def enable_jprobe_def disable_jprobe_def
      split: option.splits prod.splits if_splits sum.splits)

lemma any_move_counters: "any_move K pc w = Some (pc', w') \<Longrightarrow> \<not> any_in_enable pc \<Longrightarrow> both_counters w' = both_counters w"
  by (cases pc) (auto dest: file_move_counters tx_move_counters)

lemma counted_step:
  assumes "all_step K c s = Some (Inr s')" and "\<not> enable_act c" and "all_inv {} K s"
  shows "both_counters (as_data (landed s')) = both_counters (fold add_in (starting K c (as_data s)) (as_data (landed s)))"
proof (cases c)
  case (Steps p)
  obtain pc w where m: "any_move K (as_at s p) (as_data s) = Some (pc, w)"
    "s' = s\<lparr>as_data := w, as_at := (as_at s)(p := pc)\<rparr>" "\<not> overflows K (as_at s p) (as_data s)"
    using steps_Inr [OF assms(1) [unfolded Steps]] by metis
  from counters_adds [OF any_move_counters [OF m(1) files.both.inv_outside [OF assms(3)]]] Steps m(2) show ?thesis
    by simp
next
  case (Called h)
  show ?thesis
  proof (cases "armed (as_data s) (probe_of h)")
    case True
    from called_step [OF assms(1) [unfolded Called] this] obtain x where x: "looks_up K h (as_data s) = Inr x"
      "s' = s\<lparr>as_data := (case x of None \<Rightarrow> as_data s | Some a \<Rightarrow> add_in a (as_data s))\<rparr>" .
    with Called True show ?thesis by (cases x) (simp_all add: files.both.adds_comm)
  qed (use Called assms(1) in \<open>auto split: if_splits\<close>)
next
  case (Starts h)
  with assms(1) show ?thesis by (auto split: if_splits sum.splits option.splits)
next
  case (Adds k)
  with assms(1) files.both.adds_take [of k "flying s" "as_data s"] show ?thesis by (auto split: if_splits)
qed (use assms in \<open>auto split: if_splits\<close>)

lemma counted_run:
  "all_run K cs s = Some (Inr s') \<Longrightarrow> \<forall>c \<in> set cs. \<not> enable_act c \<Longrightarrow> all_inv {} K s \<Longrightarrow>
   both_counters (as_data (landed s')) = both_counters (fold add_in (started K cs s) (as_data (landed s)))"
proof (induction cs arbitrary: s)
  case (Cons c cs)
  then obtain s1 where s1: "all_step K c s = Some (Inr s1)" "all_run K cs s1 = Some (Inr s')" by (auto split: option.splits sum.splits)
  have n: "\<not> enable_act c" using Cons.prems(2) by simp
  have "both_counters (as_data (landed s')) = both_counters (fold add_in (started K cs s1) (as_data (landed s1)))"
    using Cons.IH [OF s1(2) _ all_step_inv [OF s1(1) n Cons.prems(3)]] Cons.prems(2) by simp
  also have "\<dots> = both_counters (fold add_in (started K cs s1)
      (fold add_in (starting K c (as_data s)) (as_data (landed s))))"
    by (rule counters_adds, rule counted_step [OF s1(1) n Cons.prems(3)])
  finally show ?case using s1(1) by (simp del: landed_fields all_step.simps)
qed simp

section \<open>Bounds\<close>

lemma dev_idx_below: "didx s \<le> length (dnames s) \<Longrightarrow> \<exists>i < int (didx s). dev_idx_from d s k = Inr i"
proof (induction d s k rule: dev_idx_from.induct)
  case (1 d s k)
  then show ?case by (cases "k < didx s") (auto simp: dev_idx_from.simps [of d s k])
qed

text \<open>The sizes of the arrays, and the additions in flight.\<close>

definition sizes_ok :: "kapi \<Rightarrow> wperf \<Rightarrow> bool" where
  "sizes_ok K w \<longleftrightarrow> length (dnames w) = MAX_DISK_NUM \<and> length (dutils w) = MAX_DISK_NUM \<and> didx w \<le> MAX_DISK_NUM \<and> tx_wf K w"

definition flight_ok :: "kapi \<Rightarrow> all_sys \<Rightarrow> bool" where
  "flight_ok K s \<longleftrightarrow> sizes_ok K (as_data s) \<and> (\<forall>a \<in> set (flying s). fits a (as_data s))"

lemma fits_sizes: "sizes_ok K w \<Longrightarrow> fits a w = (case a of To_disk i d \<Rightarrow> i < MAX_DISK_NUM | To_pid p n \<Rightarrow> p < pid_max_limit K)"
  by (cases a) (simp_all add: sizes_ok_def tx_wf_def)

lemma sizes_ok_add [simp]: "sizes_ok K (add_in a w) = sizes_ok K w"
  by (simp add: sizes_ok_def tx_wf_def)

lemma fits_add [simp]: "fits a (add_in b w) = fits a w"
  by (cases a) simp_all

fun pid_ok :: "kapi \<Rightarrow> probed \<Rightarrow> bool" where
  "pid_ok K (Disk_call now part part0) = True"
| "pid_ok K (Tx_call j c sz) = (0 \<le> t_pid (cur c) \<and> nat (t_pid (cur c)) < pid_max_limit K)"

lemma looks_up_fits:
  assumes "sizes_ok K w" and "looks_up K h w = Inr (Some a)"
  shows "fits a w"
  using assms by (cases h) (auto simp: addition_of_def tx_addition_of_def Let_def res_bind_Inr_iff split: if_splits)

lemma looks_up_succeeds:
  assumes "sizes_ok K w" and "pid_ok K h"
  shows "\<exists>x. looks_up K h w = Inr x"
proof (cases h)
  case (Disk_call now part part0)
  from assms(1) dev_idx_below [of w "dev_name (if partno part \<noteq> 0 then part0 else part)" 0] obtain i where
    "i < int (didx w)" "dev_idx (dev_name (if partno part \<noteq> 0 then part0 else part)) w = Inr i"
    by (auto simp: sizes_ok_def dev_idx_def)
  with Disk_call assms(1) show ?thesis by (auto simp: addition_of_def sizes_ok_def Let_def)
next
  case (Tx_call j c sz)
  with assms show ?thesis by (auto simp: tx_addition_of_def sizes_ok_def tx_wf_def Let_def)
qed

lemma file_move_sizes: "file_move K pc w = Some (pc', w') \<Longrightarrow> sizes_ok K' w \<Longrightarrow> sizes_ok K' w'"
  by (induction K pc w rule: file_move.induct)
    (auto simp: sizes_ok_def tx_wf_def store_name_def enable_jprobe_def disable_jprobe_def
      split: option.splits prod.splits if_splits sum.splits)

lemma tx_move_sizes: "tx_move K pc w = Some (pc', w') \<Longrightarrow> sizes_ok K' w \<Longrightarrow> sizes_ok K' w'"
  by (induction K pc w rule: tx_move.induct)
    (auto simp: sizes_ok_def tx_wf_def bitmap_set_one_def bitmap_zero_def enable_jprobe_def disable_jprobe_def
      split: option.splits prod.splits if_splits sum.splits)

lemma any_move_sizes: "any_move K pc w = Some (pc', w') \<Longrightarrow> sizes_ok K' w \<Longrightarrow> sizes_ok K' w'"
  by (cases pc) (auto dest: file_move_sizes tx_move_sizes)

lemma flight_ok_step:
  assumes "all_step K c s = Some (Inr s')" and "flight_ok K s"
  shows "flight_ok K s'"
proof (cases c)
  case (Steps p)
  obtain pc w where m: "any_move K (as_at s p) (as_data s) = Some (pc, w)"
    "s' = s\<lparr>as_data := w, as_at := (as_at s)(p := pc)\<rparr>" "\<not> overflows K (as_at s p) (as_data s)"
    using steps_Inr [OF assms(1) [unfolded Steps]] by metis
  with any_move_sizes [OF m(1), of K] assms(2) have "sizes_ok K w" by (simp add: flight_ok_def)
  with m(2) assms(2) show ?thesis by (auto simp: flight_ok_def fits_sizes)
next
  case (Called h)
  with assms show ?thesis
    by (auto simp: flight_ok_def handles_two_steps res_bind_Inr_iff fits_sizes split: if_splits sum.splits option.splits)
next
  case (Starts h)
  with assms looks_up_fits [of K "as_data s" h] show ?thesis
    by (auto simp: flight_ok_def res_bind_Inr_iff split: if_splits option.splits)
next
  case (Adds k)
  have "set (take k (flying s) @ drop (Suc k) (flying s)) \<subseteq> set (flying s)"
    by (auto dest: in_set_takeD in_set_dropD)
  with assms(2) have "\<forall>a \<in> set (take k (flying s) @ drop (Suc k) (flying s)). fits a (as_data s)"
    unfolding flight_ok_def by blast
  with Adds assms show ?thesis by (auto simp: flight_ok_def split: if_splits)
qed (use assms in \<open>auto simp: flight_ok_def split: if_splits\<close>)

lemma flight_ok_run: "all_run K cs s = Some (Inr s') \<Longrightarrow> flight_ok K s \<Longrightarrow> flight_ok K s'"
  by (induction cs arbitrary: s) (auto split: option.splits sum.splits intro: flight_ok_step)

lemma flight_ok_quiet: "minv K w \<Longrightarrow> flight_ok K (quiet w)"
  by (simp add: flight_ok_def quiet_def sizes_ok_def minv_def stats_wf_def disk_wf_def)

section \<open>The mutex is given back\<close>

text \<open>How far a task that has the mutex is: the part of its operation, and the place in the part's loop.\<close>

fun to_go :: "any_pc \<Rightarrow> wperf \<Rightarrow> nat \<times> nat" where
  "to_go (Inl (F_reset d)) w = (9, 0)" | "to_go (Inl (F_disable d)) w = (8, 0)"
| "to_go (Inl (F_tokens r)) w = (7, rest_size r)" | "to_go (Inl F_test) w = (6, 0)"
| "to_go (Inl F_enable) w = (5, 0)" | "to_go (Inl F_free) w = (4, 0)"
| "to_go (Inl O_disable) w = (9, 0)" | "to_go (Inl O_head) w = (8, 0)"
| "to_go (Inl (O_print i)) w = (7, didx w - i)" | "to_go (Inl O_test) w = (6, 0)" | "to_go (Inl O_enable) w = (5, 0)"
| "to_go (Inr (TF_dup d)) w = (9, 0)" | "to_go (Inr (TF_disable d k)) w = (8, length tx_jps - k)"
| "to_go (Inr (TF_tokens r)) w = (7, rest_size r)" | "to_go (Inr TF_err) w = (6, 0)" | "to_go (Inr TF_test) w = (6, 0)"
| "to_go (Inr (TF_enable k)) w = (5, length tx_jps - k)"
| "to_go (Inr (TO_disable k)) w = (8, length tx_jps - k)" | "to_go (Inr (TO_print n)) w = (7, length (pid_filter w) - n)"
| "to_go (Inr TO_test) w = (6, 0)" | "to_go (Inr (TO_enable k)) w = (5, length tx_jps - k)"
| "to_go _ w = (0, 0)"

lemma holder_moves:
  assumes "any_holds pc" and "unlocked_at pc = None" and "\<not> overflows K pc w"
  shows "\<exists>pc' w'. any_move K pc w = Some (pc', w') \<and> (to_go pc' w', to_go pc w) \<in> less_than <*lex*> less_than"
proof (cases pc)
  case (Inl x)
  with assms show ?thesis
    by (cases x) (auto simp: store_name_def split: option.splits prod.splits dest: strsep_decreases [OF sym])
next
  case (Inr y)
  with assms show ?thesis
    by (cases y) (auto simp: bitmap_set_one_def split: option.splits prod.splits sum.splits
        dest: strsep_decreases [OF sym])
qed

lemma owner_releases:
  "all_inv {} K s \<Longrightarrow> as_mutex s = Some p \<Longrightarrow>
   \<exists>n s'. all_run K (replicate n (Steps p)) s = Some (Inr s') \<and> as_mutex s' = Some p \<and>
     (unlocked_at (as_at s' p) \<noteq> None \<or> overflows K (as_at s' p) (as_data s'))"
proof (induction "to_go (as_at s p) (as_data s)" arbitrary: s rule: wf_induct_rule [OF wf_lex_prod [OF wf_less_than wf_less_than]])
  case (1 s)
  have h: "any_holds (as_at s p)" using 1(2,3) inv_holder by simp
  show ?case
  proof (cases "unlocked_at (as_at s p) \<noteq> None \<or> overflows K (as_at s p) (as_data s)")
    case True
    with 1(3) show ?thesis by (intro exI [of _ 0] exI [of _ s]) simp
  next
    case False
    with holder_moves [OF h] obtain pc w where m: "any_move K (as_at s p) (as_data s) = Some (pc, w)"
      "(to_go pc w, to_go (as_at s p) (as_data s)) \<in> less_than <*lex*> less_than" by blast
    let ?s = "s\<lparr>as_data := w, as_at := (as_at s)(p := pc)\<rparr>"
    have st: "all_step K (Steps p) s = Some (Inr ?s)" using m(1) False by simp
    have "all_inv {} K ?s" by (rule all_step_inv [OF st _ 1(2)]) simp
    with 1(1) [of ?s] m(2) 1(3) obtain n s' where "all_run K (replicate n (Steps p)) ?s = Some (Inr s')" "as_mutex s' = Some p"
      "unlocked_at (as_at s' p) \<noteq> None \<or> overflows K (as_at s' p) (as_data s')" by auto
    with st show ?thesis by (intro exI [of _ "Suc n"] exI [of _ s']) (simp del: all_step.simps)
  qed
qed

section \<open>Properties\<close>

text \<open>
  C11: The mutex and the switching of the probes protect both statistics in every interleaving of the six files with each
  other and with the handlers in which nobody writes \<open>enable\<close>, from any state with the invariant of the loaded module (which
  every state it can reach has): a task that has disabled a probe and not yet enabled it has the mutex, no other task has switched off any probe, and that probe
  is not armed; and a probe is armed only while its statistic is on.
\<close>

theorem files_protected:
  assumes "minv K w" and "all_run K cs (quiet w) = Some (Inr s)" and "\<forall>c \<in> set cs. \<not> enable_act c"
  shows "(any_off j (as_at s p) \<longrightarrow> \<not> armed (as_data s) j \<and> as_mutex s = Some p \<and> (\<forall>q i. any_off i (as_at s q) \<longrightarrow> q = p)) \<and>
    (armed (as_data s) j \<longrightarrow> stat_on (as_data s) j)"
proof -
  have "switches_ok w" using assms(1) by (simp add: minv_def)
  from all_run_inv [OF assms(2,3) all_inv_quiet [OF this]] have inv: "all_inv UNIV K s" .
  have "any_off j pc \<Longrightarrow> any_holds pc" for pc using disk.off_holds tx.off_holds by (cases pc) (auto simp: any_off_def)
  moreover have "any_off i pc = case_sum (disk_off i) (tx_off i) pc" for i pc by (simp add: any_off_def)
  ultimately show ?thesis
    using inv_holder [OF inv, of p] files.both.inv_one [OF inv] files.both.inv_off [OF inv UNIV_I] files.both.inv_armed [OF inv UNIV_I]
    by metis
qed

text \<open>
  C13: A handler in flight, past its look-up, does no harm as long as nobody writes \<open>enable\<close>: if the look-ups of the handlers and their
  additions are separated by any steps of the files and of each other, the schedule in which every handler is done at once
  when it starts is possible too, with the same tasks at the same places, and its data are those of the first once the
  handlers in flight have added; the counters are then those from before plus what every handler that started found to
  add, nothing twice and nothing lost.
\<close>

theorem handlers_at_once:
  assumes "all_run K cs (quiet w) = Some (Inr s)" and "\<forall>c \<in> set cs. \<not> enable_act c"
  shows "(\<exists>s'. all_run K (at_once cs) (quiet w) = Some (Inr s') \<and> as_at s' = as_at s \<and> as_mutex s' = as_mutex s \<and> flying s' = [] \<and>
      as_data s' = fold add_in (flying s) (as_data s)) \<and>
    both_counters (fold add_in (flying s) (as_data s)) = both_counters (fold add_in (started K cs (quiet w)) w)"
proof -
  have "landed (quiet w) = quiet w" "as_data (quiet w) = w" by (simp_all add: landed_def quiet_def)
  with landed_run [OF assms all_inv_calm] counted_run [OF assms all_inv_calm] show ?thesis by auto
qed

text \<open>
  C37: The mutex is always given back: after any schedule without writes to \<open>enable\<close>, the task that has the mutex comes by
  its own steps, finitely many, to where it gives it back, unless a filter with too many names or a pid past
  the bitmap makes it leave an array.
\<close>

theorem mutex_given_back:
  assumes "all_run K cs (quiet w) = Some (Inr s)" and "\<forall>c \<in> set cs. \<not> enable_act c" and "as_mutex s = Some p"
  shows "\<exists>n s'. all_run K (replicate n (Steps p)) s = Some (Inr s') \<and>
    ((\<exists>s''. all_step K (Gives p) s' = Some (Inr s'') \<and> as_mutex s'' = None) \<or> overflows K (as_at s' p) (as_data s'))"
  using owner_releases [OF all_run_inv [OF assms(1,2) all_inv_calm] assms(3)] by fastforce

section \<open>Witnesses\<close>

text \<open>The module with both statistics on.\<close>

abbreviation K8 :: kapi where "K8 \<equiv> ref_kapi 64 8"

definition both_on :: wperf where
  "both_on = (static_data K8)\<lparr>probes := [Register_jprobes], denabled := True, tx_enabled := True\<rparr>"

lemma both_on_inv: "minv K8 both_on"
proof -
  have "disk_wf both_on" "tx_wf K8 both_on"
    using disk_wf_static [of K8] tx_wf_static [of K8] by (simp_all add: both_on_def disk_wf_def tx_wf_def)
  then show ?thesis by (simp add: minv_def stats_wf_def switches_ok_def registered_def armed_def) (simp add: both_on_def)
qed

text \<open>
  \<open>sda\<close> is watched. Task 1 writes \<open>sdb\<close> to the filter while a handler is in flight; task 2 waits for the mutex to write
  pids, and task 3 calls a probed function that finds its bit not set.
\<close>

definition ref_sda :: hd_struct where
  "ref_sda = \<lparr>partno = 0, stamp = 4, dev_name = ''sda'', part_in_flight = True\<rparr>"

definition watch :: "string \<Rightarrow> act list" where
  "watch d = [Goes_in 1 (Inl (F_wait d)), Takes 1 True] @ replicate 7 (Steps 1) @ [Gives 1]"

definition busy :: "act list" where
  "busy = watch ''sda'' @ [Starts (Disk_call 10 ref_sda ref_sda), Goes_in 2 (Inr (TF_wait ''7,3'')),
     Goes_in 1 (Inl (F_wait ''sdb'')), Takes 1 True, Steps 1, Steps 1, Starts (Tx_call Udp_sendpage_jp (ref_ctx 0 7 0) 9)]"

lemma busy_run: "case all_run K8 busy (quiet both_on) of
    Some (Inr s) \<Rightarrow> as_at s 1 = Inl (F_tokens (Some ''sdb'')) \<and> as_mutex s = Some 1 \<and> flying s = [To_disk 0 6] \<and>
      dutils (as_data s) ! 0 = 0 | _ \<Rightarrow> False"
  by code_simp

lemma busy_facts:
  obtains s where "all_run K8 busy (quiet both_on) = Some (Inr s)" "as_at s 1 = Inl (F_tokens (Some ''sdb''))"
    "as_mutex s = Some 1" "flying s = [To_disk 0 6]" "dutils (as_data s) ! 0 = 0"
  using busy_run by (auto split: option.splits sum.splits)

lemma busy_calm: "\<forall>c \<in> set busy. \<not> enable_act c"
  by (simp add: busy_def watch_def)

theorem files_protected_witness:
  "\<exists>s. all_run K8 busy (quiet both_on) = Some (Inr s) \<and> flying s \<noteq> [] \<and> \<not> armed (as_data s) Part_round_stats_jp \<and>
     (\<forall>i. \<not> any_off i (as_at s 2))"
proof -
  obtain s where s: "all_run K8 busy (quiet both_on) = Some (Inr s)" "as_at s 1 = Inl (F_tokens (Some ''sdb''))" "flying s = [To_disk 0 6]"
    by (rule busy_facts)
  have "any_off Part_round_stats_jp (as_at s 1)" using s(2) by (simp add: any_off_def disk_off_def)
  with files_protected [OF both_on_inv s(1) busy_calm, of Part_round_stats_jp 1]
  have "\<not> armed (as_data s) Part_round_stats_jp" "\<forall>i. \<not> any_off i (as_at s 2)" by auto
  with s(1,3) show ?thesis by auto
qed

theorem handlers_at_once_witness:
  "\<exists>s s'. all_run K8 busy (quiet both_on) = Some (Inr s) \<and> all_run K8 (at_once busy) (quiet both_on) = Some (Inr s') \<and>
     dutils (as_data s) ! 0 = 0 \<and> as_data s' = add_in (To_disk 0 6) (as_data s) \<and>
     both_counters (as_data s') = both_counters (fold add_in (started K8 busy (quiet both_on)) both_on)"
proof -
  obtain s where s: "all_run K8 busy (quiet both_on) = Some (Inr s)" "flying s = [To_disk 0 6]" "dutils (as_data s) ! 0 = 0"
    by (rule busy_facts)
  from handlers_at_once [OF s(1) busy_calm] s show ?thesis by auto
qed

theorem mutex_given_back_witness:
  "\<exists>s n s'. all_run K8 busy (quiet both_on) = Some (Inr s) \<and> as_mutex s = Some 1 \<and> all_run K8 (replicate n (Steps 1)) s = Some (Inr s') \<and>
     ((\<exists>s''. all_step K8 (Gives 1) s' = Some (Inr s'') \<and> as_mutex s'' = None) \<or> overflows K8 (as_at s' 1) (as_data s'))"
proof -
  obtain s where s: "all_run K8 busy (quiet both_on) = Some (Inr s)" "as_mutex s = Some 1" by (rule busy_facts)
  with mutex_given_back [OF s(1) busy_calm s(2)] show ?thesis by blast
qed

text \<open>
  C25: The steps are those of the operations: when nobody interferes, a task that enters one of the six operations that
  change the data of the two statistics goes through its steps to the state and the result that the operation has as a
  whole.
\<close>

theorem file_steps_are_operations:
  "(dutils_filter_write K True d w = Inr (r, w1) \<longrightarrow> moves K (F_reset d, w) (Give_back r, w1)) \<and>
   (dutils_output_read K q w = Inr (r, q', w2) \<longrightarrow> moves K (O_disable, w) (Give_back r, w2)) \<and>
   (dutils_enable_write val w = Inr (r, w3) \<longrightarrow> moves K (E_set val, w) (Rest, w3)) \<and>
   (tx_stats_filter_write K True d w = Inr (r, w4) \<longrightarrow> tx_moves K (TF_dup d, w) (Tx_give_back r, w4)) \<and>
   (tx_stats_output_read K q w = Inr (r, q', w5) \<longrightarrow> tx_moves K (TO_disable 0, w) (Tx_give_back r, w5)) \<and>
   (tx_stats_enable_write val w = (r, w6) \<longrightarrow> tx_moves K (TE_set val, w) (Tx_rest, w6))"
  by (intro conjI impI; (erule filter_write_moves | erule output_read_moves | erule enable_write_moves |
    erule tx_filter_write_moves | erule tx_output_read_moves | erule tx_enable_write_moves))

theorem file_steps_are_operations_witness:
  "\<exists>r w w'. dutils_filter_write K8 True ''sda'' both_on = Inr (r, w) \<and> moves K8 (F_reset ''sda'', both_on) (Give_back r, w) \<and>
     tx_stats_enable_write 0 both_on = (r, w') \<and> tx_moves K8 (TE_set 0, both_on) (Tx_rest, w')"
proof -
  have "case dutils_filter_write K8 True ''sda'' both_on of Inr (r, w) \<Rightarrow> r = 0 | Inl e \<Rightarrow> False" by code_simp
  then obtain w where d: "dutils_filter_write K8 True ''sda'' both_on = Inr (0, w)" by (auto split: sum.splits)
  obtain w' where t: "tx_stats_enable_write 0 both_on = (0, w')"
    by (auto simp: tx_stats_enable_write_def Let_def)
  have "moves K8 (F_reset ''sda'', both_on) (Give_back 0, w)"
    using file_steps_are_operations [of K8 "''sda''" both_on 0 w] d by blast
  moreover have "tx_moves K8 (TE_set 0, both_on) (Tx_rest, w')"
    using file_steps_are_operations [where val = 0 and w = both_on and r = 0] t by blast
  ultimately show ?thesis using d t by blast
qed

end
