(* ===== verification/FileBounds.thy ===== *)
theory FileBounds
  imports AllFiles
begin

text \<open>
  Who stays in the arrays when the files and the handlers interleave, writes to \<open>enable\<close> included: a filter text names at
  most twenty disks, or only pids below the limit, and the bytes are sent by such pids. Nothing in the code sees to
  the first: with one name more the write itself leaves the table.
\<close>

section \<open>Careful acts\<close>

text \<open>What Machine asks of whole calls, of the acts.\<close>

fun careful_act :: "kapi \<Rightarrow> act \<Rightarrow> bool" where
  "careful_act K (Goes_in p (Inl (F_wait d))) = careful_filter K Disk_utils d"
| "careful_act K (Goes_in p (Inr (TF_wait d))) = careful_filter K Tx_stat d"
| "careful_act K (Called h) = pid_ok K h"
| "careful_act K (Starts h) = pid_ok K h"
| "careful_act K _ = True"

text \<open>What is left of a filter text fits where a task is.\<close>

definition names_left :: "string option \<Rightarrow> nat" where
  "names_left r = length (filter (\<lambda>t. t \<noteq> []) (tokens CHR '','' r))"

definition pids_left :: "kapi \<Rightarrow> string option \<Rightarrow> bool" where
  "pids_left K r \<longleftrightarrow> (\<forall>t \<in> set (filter (\<lambda>t. t \<noteq> []) (tokens CHR '','' r)).
     case kstrtoul K t of Inl e \<Rightarrow> True | Inr pid \<Rightarrow> bitmap_start K pid < pid_max_limit K)"

fun room_at :: "kapi \<Rightarrow> any_pc \<Rightarrow> wperf \<Rightarrow> bool" where
  "room_at K (Inl (F_wait d)) w = careful_filter K Disk_utils d"
| "room_at K (Inl (F_reset d)) w = careful_filter K Disk_utils d"
| "room_at K (Inl (F_disable d)) w = (careful_filter K Disk_utils d \<and> didx w = 0)"
| "room_at K (Inl (F_tokens r)) w = (didx w + names_left r \<le> MAX_DISK_NUM)"
| "room_at K (Inr (TF_wait d)) w = careful_filter K Tx_stat d"
| "room_at K (Inr (TF_dup d)) w = careful_filter K Tx_stat d"
| "room_at K (Inr (TF_disable d k)) w = careful_filter K Tx_stat d"
| "room_at K (Inr (TF_tokens r)) w = pids_left K r"
| "room_at K pc w = True"

lemma left_next:
  assumes "strsep CHR '','' r = (Some t, r')"
  shows "names_left r = (if t = [] then 0 else 1) + names_left r'"
    and "pids_left K r \<longleftrightarrow> (t \<noteq> [] \<longrightarrow> (case kstrtoul K t of Inl e \<Rightarrow> True | Inr pid \<Rightarrow> bitmap_start K pid < pid_max_limit K)) \<and> pids_left K r'"
  using assms by (auto simp: names_left_def pids_left_def tokens.simps [of _ r])

lemma left_whole:
  "careful_filter K Disk_utils d \<longleftrightarrow> names_left (Some (strstrip K (cstr d))) \<le> MAX_DISK_NUM"
  "careful_filter K Tx_stat d \<longleftrightarrow> pids_left K (Some (strstrip K (cstr d)))"
  by (simp_all add: names_left_def pids_left_def filter_tokens_def written_names_def)

lemma room_no_overflow: "room_at K pc w \<Longrightarrow> sizes_ok K w \<Longrightarrow> \<not> overflows K pc w"
  by (induction K pc w rule: overflows.induct)
    (auto simp: sizes_ok_def tx_wf_def left_next split: option.splits prod.splits sum.splits)

text \<open>A step keeps the room of its task; another task's room depends on the table only while it has the mutex.\<close>

lemma room_move:
  assumes "any_move K pc w = Some (pc', w')" and "room_at K pc w"
  shows "room_at K pc' w'"
proof (cases pc)
  case (Inl x)
  with assms show ?thesis
    by (cases x) (auto simp del: careful_filter.simps simp: left_whole left_next store_name_def disable_jprobe_def split: option.splits prod.splits if_splits sum.splits)
next
  case (Inr y)
  with assms show ?thesis
    by (cases y) (auto simp del: careful_filter.simps simp: left_whole left_next split: option.splits prod.splits if_splits sum.splits)
qed

lemma room_other: "\<not> any_holds pc \<Longrightarrow> room_at K pc w' = room_at K pc w"
  by (induction K pc w rule: room_at.induct) simp_all

lemma room_didx: "didx w' \<le> didx w \<Longrightarrow> room_at K pc w \<Longrightarrow> room_at K pc w'"
  by (induction K pc w rule: room_at.induct) auto

text \<open>Only a task that has the mutex adds to the table, and no step of the others gets it.\<close>

lemma move_mutex:
  assumes "any_move K pc w = Some (pc', w')"
  shows "any_holds pc' = any_holds pc" and "\<not> any_holds pc \<Longrightarrow> didx w' \<le> didx w"
proof -
  show "any_holds pc' = any_holds pc"
  proof (cases pc)
    case (Inl x)
    with assms show ?thesis by (cases x) (auto split: option.splits prod.splits if_splits sum.splits)
  next
    case (Inr y)
    with assms show ?thesis by (cases y) (auto split: option.splits prod.splits if_splits sum.splits)
  qed
  show "\<not> any_holds pc \<Longrightarrow> didx w' \<le> didx w"
  proof (cases pc)
    case (Inl x)
    with assms show "\<not> any_holds pc \<Longrightarrow> didx w' \<le> didx w"
      by (cases x) (auto simp: enable_jprobe_def disable_jprobe_def split: if_splits)
  next
    case (Inr y)
    with assms show "\<not> any_holds pc \<Longrightarrow> didx w' \<le> didx w"
      by (cases y) (auto simp: enable_jprobe_def disable_jprobe_def split: if_splits)
  qed
qed

section \<open>Room in every interleaving\<close>

definition room_inv :: "kapi \<Rightarrow> all_sys \<Rightarrow> bool" where
  "room_inv K s \<longleftrightarrow> flight_ok K s \<and> (\<forall>p. any_holds (as_at s p) \<longleftrightarrow> as_mutex s = Some p) \<and>
     (\<forall>p. room_at K (as_at s p) (as_data s))"

lemma entry_room: "any_entry pc \<Longrightarrow> careful_act K (Goes_in p pc) \<Longrightarrow> \<not> any_holds pc \<and> room_at K pc w"
  by (induction pc rule: any_entry.induct) (auto elim: entry.elims)

lemma locked_room: "locked_at kmem pc = Some pc' \<Longrightarrow> room_at K pc w \<Longrightarrow> any_holds pc' \<and> room_at K pc' w"
  by (induction kmem pc rule: locked_at.induct) (auto split: if_splits)

lemma unlocked_room: "unlocked_at pc = Some pc' \<Longrightarrow> any_holds pc \<and> \<not> any_holds pc' \<and> room_at K pc' w"
  by (induction pc rule: unlocked_at.induct) auto

lemma room_data: "didx w' = didx w \<Longrightarrow> room_at K pc w' = room_at K pc w"
  by (induction K pc w rule: room_at.induct) simp_all

lemma room_step:
  assumes "room_inv K s" and "careful_act K c" and "all_step K c s = Some (Inr s')"
  shows "room_inv K s'"
proof -
  have f: "flight_ok K s'" using flight_ok_step [OF assms(3)] assms(1) by (simp add: room_inv_def)
  have m: "any_holds (as_at s p) \<longleftrightarrow> as_mutex s = Some p" and r: "room_at K (as_at s p) (as_data s)" for p
    using assms(1) by (simp_all add: room_inv_def)
  show ?thesis
  proof (cases c)
    case (Goes_in p pc)
    with assms(2,3) entry_room [of pc K p] have "as_at s p \<in> {Inl Rest, Inr Tx_rest}" "\<not> any_holds pc" "room_at K pc (as_data s)"
      "s' = s\<lparr>as_at := (as_at s)(p := pc)\<rparr>" by (auto split: if_splits)
    moreover from this(1) have "\<not> any_holds (as_at s p)" by auto
    ultimately show ?thesis using f m [of p] m r by (simp add: room_inv_def)
  next
    case (Takes p kmem)
    with assms(3) obtain pc where "as_mutex s = None" "locked_at kmem (as_at s p) = Some pc"
      "s' = s\<lparr>as_mutex := Some p, as_at := (as_at s)(p := pc)\<rparr>" by (auto split: if_splits)
    with f locked_room [of kmem "as_at s p" pc K "as_data s"] m r show ?thesis by (auto simp: room_inv_def)
  next
    case (Steps p)
    obtain pc w where st: "any_move K (as_at s p) (as_data s) = Some (pc, w)" "s' = s\<lparr>as_data := w, as_at := (as_at s)(p := pc)\<rparr>"
      using steps_Inr [OF assms(3) [unfolded Steps]] by metis
    have "room_at K (as_at s q) w" if "q \<noteq> p" for q
    proof (cases "any_holds (as_at s p)")
      case True
      with m [of p] m [of q] that have "\<not> any_holds (as_at s q)" by simp
      with room_other r [of q] show ?thesis by blast
    next
      case False
      with move_mutex(2) [OF st(1)] room_didx r [of q] show ?thesis by blast
    qed
    with f st(2) move_mutex(1) [OF st(1)] room_move [OF st(1) r] m show ?thesis by (simp add: room_inv_def)
  next
    case (Gives p)
    with assms(3) obtain pc where u: "unlocked_at (as_at s p) = Some pc" "s' = s\<lparr>as_mutex := None, as_at := (as_at s)(p := pc)\<rparr>"
      by auto
    with f unlocked_room [OF u(1), of K "as_data s"] m r show ?thesis by (auto simp: room_inv_def)
  next
    case (Called h)
    with assms(3) have "as_at s' = as_at s" "as_mutex s' = as_mutex s"
      "as_data s' = as_data s \<or> (\<exists>a. as_data s' = add_in a (as_data s))"
      using handles_frame [of K h "as_data s"] by (auto simp: res_bind_Inr_iff split: if_splits)
    then have "didx (as_data s') = didx (as_data s)" by auto
    from room_data [OF this] f m r \<open>as_at s' = as_at s\<close> \<open>as_mutex s' = as_mutex s\<close> show ?thesis by (simp add: room_inv_def)
  next
    case (Starts h)
    with assms(3) have "as_at s' = as_at s" "as_mutex s' = as_mutex s" "as_data s' = as_data s"
      by (auto simp: res_bind_Inr_iff split: if_splits option.splits)
    with f m r show ?thesis by (simp add: room_inv_def)
  next
    case (Adds k)
    with assms(3) have "as_at s' = as_at s" "as_mutex s' = as_mutex s" "didx (as_data s') = didx (as_data s)"
      by (auto split: if_splits)
    with room_data [OF this(3)] f m r show ?thesis by (simp add: room_inv_def)
  qed
qed

lemma room_no_fault:
  assumes "room_inv K s" and "careful_act K c"
  shows "all_step K c s \<noteq> Some (Inl e)"
proof -
  have z: "sizes_ok K (as_data s)" "\<forall>a \<in> set (flying s). fits a (as_data s)" using assms(1) by (simp_all add: room_inv_def flight_ok_def)
  show ?thesis
  proof (cases c)
    case (Steps p)
    with room_no_overflow [OF _ z(1)] assms(1) show ?thesis by (auto simp: room_inv_def)
  next
    case (Called h)
    with assms(2) looks_up_succeeds [OF z(1), of h] show ?thesis by (auto simp: handles_two_steps)
  next
    case (Starts h)
    with assms(2) looks_up_succeeds [OF z(1), of h] show ?thesis by auto
  next
    case (Adds k)
    with z(2) show ?thesis by auto
  qed (auto split: if_splits)
qed

lemma room_run:
  "room_inv K s \<Longrightarrow> \<forall>c \<in> set cs. careful_act K c \<Longrightarrow>
   all_run K cs s \<noteq> Some (Inl e) \<and> (\<forall>s'. all_run K cs s = Some (Inr s') \<longrightarrow> room_inv K s')"
proof (induction cs arbitrary: s)
  case (Cons c cs)
  from room_no_fault [OF Cons.prems(1), of c] room_step [OF Cons.prems(1), of c] Cons show ?case
    by (auto simp del: all_step.simps split: option.splits sum.splits)
qed simp

lemma room_quiet: "minv K w \<Longrightarrow> room_inv K (quiet w)"
  using flight_ok_quiet [of K w] by (simp add: room_inv_def) (simp add: quiet_def)


section \<open>One name too many\<close>

lemma steps_more: "all_step K (Steps p) s = Some (Inr s1) \<Longrightarrow> all_run K (replicate n (Steps p)) s1 = r \<Longrightarrow>
    all_run K (replicate (Suc n) (Steps p)) s = r"
  by (simp del: all_step.simps)

lemma loop_leaves_table:
  "dutils_filter_loop r w = Inl e \<Longrightarrow> as_at s p = Inl (F_tokens r) \<Longrightarrow> as_data s = w \<Longrightarrow>
   \<exists>n. all_run K (replicate n (Steps p)) s = Some (Inl OutOfBounds)"
proof (induction r w arbitrary: s rule: dutils_filter_loop.induct)
  case (1 r w)
  obtain tok r' where st: "strsep CHR '','' r = (tok, r')" by fastforce
  with "1.prems"(1) obtain t where t: "tok = Some t" by (cases tok) (auto simp: dutils_filter_loop.simps [of r])
  note st = st [unfolded t]
  from "1.prems"(1) st have short: "t \<noteq> [] \<Longrightarrow> \<not> strlen t + 1 > MAX_DNAME_SIZE"
    by (auto simp: dutils_filter_loop.simps [of r])
  let ?at = "\<lambda>w. s\<lparr>as_data := w, as_at := (as_at s)(p := Inl (F_tokens r'))\<rparr>"
  consider "t = []" | "t \<noteq> []" "length (dnames w) \<le> didx w" | w1 where "t \<noteq> []" "\<not> length (dnames w) \<le> didx w" "store_name t w = Inr w1"
    by (cases "store_name t w") (auto simp: store_name_def split: if_splits)
  then show ?case
  proof cases
    case 1
    with "1.prems" st have "dutils_filter_loop r' w = Inl e" by (simp add: dutils_filter_loop.simps [of r])
    from "1.IH"(1) [OF st [symmetric] refl 1 this, of "?at w"]
    obtain n where "all_run K (replicate n (Steps p)) (?at w) = Some (Inl OutOfBounds)" by auto
    moreover have "all_step K (Steps p) s = Some (Inr (?at w))" using 1 st "1.prems"(2,3) by simp
    ultimately show ?thesis by (blast intro: steps_more)
  next
    case 2
    with short st "1.prems"(2,3) have "all_run K (replicate 1 (Steps p)) s = Some (Inl OutOfBounds)" by simp
    then show ?thesis by blast
  next
    case 3
    with "1.prems" st short have "dutils_filter_loop r' w1 = Inl e" by (simp add: dutils_filter_loop.simps [of r])
    from "1.IH"(2) [OF st [symmetric] refl 3(1) short [OF 3(1)] 3(3) this, of "?at w1"]
    obtain n where "all_run K (replicate n (Steps p)) (?at w1) = Some (Inl OutOfBounds)" by auto
    moreover have "all_step K (Steps p) s = Some (Inr (?at w1))" using 3 short st "1.prems"(2,3) by simp
    ultimately show ?thesis by (blast intro: steps_more)
  qed
qed

text \<open>
  Without the limit the write itself leaves the table: a task that writes a text of which the first twenty-one names are
  short enough comes, by its own steps, to the one that stores the last of them behind the last row.
\<close>

theorem names_leave_table:
  assumes "minv K w" and "strip_ok K" and "filter_tokens K d = ts @ t # us"
    and "list_all fits_row (ts @ [t])" and "length ts = MAX_DISK_NUM"
  shows "\<exists>n. all_run K ([Goes_in p (Inl (F_wait d)), Takes p True] @ replicate n (Steps p)) (quiet w) = Some (Inl OutOfBounds)"
proof -
  let ?w1 = "disable_jprobe Part_round_stats_jp (w\<lparr>kbufs := Suc (kbufs w), didx := 0\<rparr>)"
  let ?s = "(quiet w)\<lparr>as_data := ?w1, as_mutex := Some p, as_at := (\<lambda>_. Inl Rest)(p := Inl (F_tokens (Some (strstrip K (cstr d)))))\<rparr>"
  have "disk_wf w" using assms(1) by (simp add: minv_def stats_wf_def)
  from disk_filter_write_overflow [OF this assms(2-5)]
  have "dutils_filter_loop (Some (strstrip K (cstr d))) ?w1 = Inl OutOfBounds"
    by (auto simp: dutils_filter_write_def Let_def res_bind_def split: sum.splits if_splits)
  from loop_leaves_table [OF this, of ?s p K] obtain n where
    "all_run K (replicate n (Steps p)) ?s = Some (Inl OutOfBounds)" by auto
  then have "all_run K ([Goes_in p (Inl (F_wait d)), Takes p True] @ replicate (Suc (Suc n)) (Steps p)) (quiet w) = Some (Inl OutOfBounds)"
    by (simp add: quiet_def fun_upd_def cong: if_cong)
  then show ?thesis by blast
qed

section \<open>Witness\<close>

lemma small_texts:
  "careful_filter K8 Disk_utils ''sda''" "careful_filter K8 Disk_utils ''sdb''" "careful_filter K8 Tx_stat ''7,3''"
proof -
  show "careful_filter K8 Disk_utils ''sda''" "careful_filter K8 Disk_utils ''sdb''"
    by (simp_all add: filter_tokens_def written_names_def tokens_last cstr_def is_space_def ref_strip_def MAX_DISK_NUM_def)
  have "strstrip K8 (cstr ''7,3'') = ''7,3''" by (simp add: cstr_def is_space_def ref_strip_def)
  then show "careful_filter K8 Tx_stat ''7,3''"
    using tokens_cons [of "CHR '',''" "''7''" "''3''"]
    by (simp add: filter_tokens_def written_names_def tokens_last ref_strtoul_def is_digit_def read_nat_def digit_val_def)
qed

lemma busy_careful: "\<forall>c \<in> set busy. careful_act K8 c"
  using small_texts by (simp add: busy_def watch_def del: careful_filter.simps)


end
