(* ===== verification/LookupRace.thy ===== *)
theory LookupRace
  imports FileBounds
begin

text \<open>
  The loop of \<open>dev_idx\<close> while the table changes under it: a handler that entered the loop before its probe was disabled
  goes on comparing while the filter is rewritten. What the other steps do between two comparisons is any sequence of
  tables: \<open>ws i\<close> is the table that comparison \<open>i\<close> reads.
\<close>

section \<open>The loop over changing tables\<close>

function dev_idx_over :: "string \<Rightarrow> (nat \<Rightarrow> wperf) \<Rightarrow> nat \<Rightarrow> int res" where
  "dev_idx_over dname ws i =
     (if i < didx (ws i)
      then if i < MAX_DISK_NUM
           then if strncmp dname (dnames (ws i) ! i) MAX_DNAME_SIZE = 0 then Inr (int i)
                else dev_idx_over dname ws (Suc i)
           else Inl OutOfBounds
      else Inr (- 1))"
  by pat_completeness auto
termination
  by (relation "measure (\<lambda>(d, ws, i). MAX_DISK_NUM - i)") auto

declare dev_idx_over.simps [simp del]

text \<open>Nothing changes: the loop of DiskUtils.\<close>

lemma dev_idx_over_same: "length (dnames w) = MAX_DISK_NUM \<Longrightarrow> dev_idx_over d (\<lambda>_. w) i = dev_idx_from d w i"
proof (induction d w i rule: dev_idx_from.induct)
  case (1 d w i)
  then show ?case by (simp add: dev_idx_over.simps [of d _ i] dev_idx_from.simps [of d w i])
qed

text \<open>Comparison \<open>i\<close> is made, and finds the name.\<close>

definition row_matches :: "string \<Rightarrow> wperf \<Rightarrow> nat \<Rightarrow> bool" where
  "row_matches d w i \<longleftrightarrow> i < didx w \<and> strncmp d (dnames w ! i) MAX_DNAME_SIZE = 0"

lemma dev_idx_over_spec:
  assumes "\<And>i. didx (ws i) \<le> MAX_DISK_NUM"
  shows "(\<exists>i. k \<le> i \<and> dev_idx_over d ws k = Inr (int i) \<and> row_matches d (ws i) i \<and> (\<forall>j. k \<le> j \<and> j < i \<longrightarrow> \<not> row_matches d (ws j) j)) \<or>
    (\<exists>n. k \<le> n \<and> dev_idx_over d ws k = Inr (- 1) \<and> didx (ws n) \<le> n \<and> (\<forall>j. k \<le> j \<and> j < n \<longrightarrow> \<not> row_matches d (ws j) j))"
  using assms
proof (induction d ws k rule: dev_idx_over.induct)
  case (1 d ws k)
  note le = 1(2)
  consider "didx (ws k) \<le> k" | "row_matches d (ws k) k" | "k < didx (ws k)" "\<not> row_matches d (ws k) k" by fastforce
  then show ?case
  proof cases
    case 1
    then show ?thesis by (auto simp: dev_idx_over.simps [of d ws k] intro!: disjI2 exI [of _ k])
  next
    case 2
    from 2 have "k < didx (ws k)" by (simp add: row_matches_def)
    then have "k < MAX_DISK_NUM" using le [of k] by (rule less_le_trans)
    with 2 show ?thesis
      by (auto simp: dev_idx_over.simps [of d ws k] row_matches_def intro!: disjI1 exI [of _ k])
  next
    case 3
    with le [of k] have step: "dev_idx_over d ws k = dev_idx_over d ws (Suc k)"
      by (simp add: dev_idx_over.simps [of d ws k] row_matches_def)
    have "k < MAX_DISK_NUM" "strncmp d (dnames (ws k) ! k) MAX_DNAME_SIZE \<noteq> 0"
      using 3 le [of k] by (auto simp: row_matches_def)
    note IH = 1(1) [OF 3(1) this le]
    have first: "(\<forall>j. Suc k \<le> j \<and> j < i \<longrightarrow> \<not> row_matches d (ws j) j) \<Longrightarrow> \<forall>j. k \<le> j \<and> j < i \<longrightarrow> \<not> row_matches d (ws j) j" for i
      using 3(2) by (metis Suc_leI le_neq_implies_less)
    from IH show ?thesis
    proof (elim disjE exE conjE)
      fix i assume "Suc k \<le> i" "dev_idx_over d ws (Suc k) = Inr (int i)" "row_matches d (ws i) i"
        "\<forall>j. Suc k \<le> j \<and> j < i \<longrightarrow> \<not> row_matches d (ws j) j"
      with first [of i] step show ?thesis by (intro disjI1 exI [of _ i]) simp
    next
      fix n assume "Suc k \<le> n" "dev_idx_over d ws (Suc k) = Inr (- 1)" "didx (ws n) \<le> n"
        "\<forall>j. Suc k \<le> j \<and> j < n \<longrightarrow> \<not> row_matches d (ws j) j"
      with first [of n] step show ?thesis by (intro disjI2 exI [of _ n]) simp
    qed
  qed
qed

text \<open>
  The code has no test of the row against the size of the table: the loop leaves it just when all twenty rows were in use, none of them
  had the name, and more than twenty are in use when it comes to the next.
\<close>

lemma dev_idx_over_leaves:
  "dev_idx_over d ws k = Inl OutOfBounds \<longleftrightarrow>
     (\<forall>i. k \<le> i \<and> i < MAX_DISK_NUM \<longrightarrow> i < didx (ws i) \<and> \<not> row_matches d (ws i) i) \<and>
     max k MAX_DISK_NUM < didx (ws (max k MAX_DISK_NUM))"
proof (induction d ws k rule: dev_idx_over.induct)
  case (1 d ws k)
  show ?case
  proof (cases "k < MAX_DISK_NUM")
    case False
    then show ?thesis by (auto simp: dev_idx_over.simps [of d ws k] max_def)
  next
    case True
    have all: "(\<forall>i. k \<le> i \<and> i < MAX_DISK_NUM \<longrightarrow> P i) \<longleftrightarrow> P k \<and> (\<forall>i. Suc k \<le> i \<and> i < MAX_DISK_NUM \<longrightarrow> P i)" for P
      using True by (metis Suc_leI le_eq_less_or_eq Suc_leD)
    have m: "max (Suc k) MAX_DISK_NUM = max k MAX_DISK_NUM" using True by (simp add: max_def)
    show ?thesis
    proof (cases "k < didx (ws k) \<and> \<not> row_matches d (ws k) k")
      case False
      with True show ?thesis by (subst all) (auto simp: dev_idx_over.simps [of d ws k] row_matches_def)
    next
      case stays: True
      then have "strncmp d (dnames (ws k) ! k) MAX_DNAME_SIZE \<noteq> 0" by (simp add: row_matches_def)
      with 1 [of] True stays have "dev_idx_over d ws k = Inl OutOfBounds \<longleftrightarrow>
          (\<forall>i. Suc k \<le> i \<and> i < MAX_DISK_NUM \<longrightarrow> i < didx (ws i) \<and> \<not> row_matches d (ws i) i) \<and>
          max k MAX_DISK_NUM < didx (ws (max k MAX_DISK_NUM))"
        unfolding m [symmetric] by (simp add: dev_idx_over.simps [of d ws k])
      with stays show ?thesis by (subst all) simp
    qed
  qed
qed

section \<open>Properties\<close>

text \<open>
  C27: A look-up stays in the table whatever happens to the table meanwhile, when the filters written name at most twenty disks: if every
  comparison reads a table that any interleaving of the files and the handlers with only such filters can leave, writes
  to \<open>enable\<close> included, the loop ends within the twenty rows; an index it gives is that of the first comparison that
  found the name, in a row in use when it was compared, and it gives up only where the table ended. If nothing
  changes meanwhile it is the look-up of one table. The limit is needed: over any tables, the loop leaves the array just when
  twenty rows in use did not match and more are in use.
\<close>

theorem lookup_in_any_race:
  assumes "minv K w" and "\<forall>i. \<exists>cs s. (\<forall>c \<in> set cs. careful_act K c) \<and> all_run K cs (quiet w) = Some (Inr s) \<and> ws i = as_data s"
  shows "((\<exists>i < MAX_DISK_NUM. dev_idx_over d ws 0 = Inr (int i) \<and> row_matches d (ws i) i \<and> (\<forall>j < i. \<not> row_matches d (ws j) j)) \<or>
      (\<exists>n \<le> MAX_DISK_NUM. dev_idx_over d ws 0 = Inr (- 1) \<and> didx (ws n) \<le> n \<and> (\<forall>j < n. \<not> row_matches d (ws j) j))) \<and>
    ((\<forall>i. ws i = ws 0) \<longrightarrow> dev_idx_over d ws 0 = dev_idx d (ws 0)) \<and>
    (\<forall>vs. dev_idx_over d vs 0 = Inl OutOfBounds \<longleftrightarrow>
      (\<forall>i < MAX_DISK_NUM. i < didx (vs i) \<and> \<not> row_matches d (vs i) i) \<and> MAX_DISK_NUM < didx (vs MAX_DISK_NUM))"
proof -
  have ok: "sizes_ok K (ws i)" for i
  proof -
    obtain cs s where "\<forall>c \<in> set cs. careful_act K c" "all_run K cs (quiet w) = Some (Inr s)" "ws i = as_data s" using assms(2) by blast
    with room_run [OF room_quiet [OF assms(1)], of cs] show ?thesis by (auto simp: room_inv_def flight_ok_def)
  qed
  then have le: "didx (ws i) \<le> MAX_DISK_NUM" for i by (simp add: sizes_ok_def)
  have same: "dev_idx_over d ws 0 = dev_idx d (ws 0)" if "\<forall>i. ws i = ws 0"
  proof -
    from that have "ws = (\<lambda>_. ws 0)" by auto
    with dev_idx_over_same [of "ws 0" d 0] ok [of 0] show ?thesis by (metis dev_idx_def sizes_ok_def)
  qed
  have "\<exists>i < MAX_DISK_NUM. dev_idx_over d ws 0 = Inr (int i) \<and> row_matches d (ws i) i \<and> (\<forall>j < i. \<not> row_matches d (ws j) j)"
    if "dev_idx_over d ws 0 = Inr (int i)" "row_matches d (ws i) i" "\<forall>j. 0 \<le> j \<and> j < i \<longrightarrow> \<not> row_matches d (ws j) j" for i
    using that le [of i] by (intro exI [of _ i]) (simp add: row_matches_def)
  moreover have "\<exists>n \<le> MAX_DISK_NUM. dev_idx_over d ws 0 = Inr (- 1) \<and> didx (ws n) \<le> n \<and> (\<forall>j < n. \<not> row_matches d (ws j) j)"
    if "dev_idx_over d ws 0 = Inr (- 1)" "didx (ws n) \<le> n" "\<forall>j. 0 \<le> j \<and> j < n \<longrightarrow> \<not> row_matches d (ws j) j" for n
    using that le [of MAX_DISK_NUM] by (intro exI [of _ "min n MAX_DISK_NUM"]) (auto simp: min_def)
  ultimately have "(\<exists>i < MAX_DISK_NUM. dev_idx_over d ws 0 = Inr (int i) \<and> row_matches d (ws i) i \<and> (\<forall>j < i. \<not> row_matches d (ws j) j)) \<or>
      (\<exists>n \<le> MAX_DISK_NUM. dev_idx_over d ws 0 = Inr (- 1) \<and> didx (ws n) \<le> n \<and> (\<forall>j < n. \<not> row_matches d (ws j) j))"
    using dev_idx_over_spec [where ws = ws and k = 0 and d = d, OF le] by blast
  moreover have "dev_idx_over d vs 0 = Inl OutOfBounds \<longleftrightarrow>
      (\<forall>i < MAX_DISK_NUM. i < didx (vs i) \<and> \<not> row_matches d (vs i) i) \<and> MAX_DISK_NUM < didx (vs MAX_DISK_NUM)" for vs
    using dev_idx_over_leaves [of d vs 0] by simp
  ultimately show ?thesis using same by blast
qed

text \<open>The filter \<open>sda,sdb\<close> is replaced by \<open>sdb,sda\<close> after a handler for \<open>sdb\<close> has compared the first row.\<close>

definition write_two :: "string \<Rightarrow> act list" where
  "write_two d = [Goes_in 1 (Inl (F_wait d)), Takes 1 True] @ replicate 8 (Steps 1) @ [Gives 1]"

definition data_after :: "act list \<Rightarrow> wperf" where
  "data_after cs = (case all_run K8 cs (quiet both_on) of Some (Inr s) \<Rightarrow> as_data s | _ \<Rightarrow> both_on)"

definition tables :: "nat \<Rightarrow> wperf" where
  "tables i = (if i = 0 then data_after (write_two ''sda,sdb'') else data_after (write_two ''sda,sdb'' @ write_two ''sdb,sda''))"

text \<open>
  Nobody writes \<open>enable\<close> and both filters list \<open>sdb\<close>, but the look-up does not find it and its time is not counted.
\<close>

theorem lookup_misses:
  "names (tables 0) = [''sda'', ''sdb''] \<and> names (tables 1) = [''sdb'', ''sda''] \<and> armed (tables 1) Part_round_stats_jp \<and>
   dev_idx_over ''sdb'' tables 0 = Inr (- 1) \<and> dev_idx ''sdb'' (tables 0) = Inr 1 \<and> dev_idx ''sdb'' (tables 1) = Inr 0"
  by code_simp

lemma two_texts: "careful_filter K8 Disk_utils ''sda,sdb''" "careful_filter K8 Disk_utils ''sdb,sda''"
proof -
  have "strstrip K8 (cstr ''sda,sdb'') = ''sda,sdb''" "strstrip K8 (cstr ''sdb,sda'') = ''sdb,sda''"
    by (simp_all add: cstr_def is_space_def ref_strip_def)
  then show "careful_filter K8 Disk_utils ''sda,sdb''" "careful_filter K8 Disk_utils ''sdb,sda''"
    using tokens_cons [of "CHR '',''" "''sda''" "''sdb''"] tokens_cons [of "CHR '',''" "''sdb''" "''sda''"]
    by (simp_all add: filter_tokens_def written_names_def tokens_last MAX_DISK_NUM_def)
qed

lemma data_after_reached:
  assumes "\<forall>c \<in> set cs. careful_act K8 c"
  shows "\<exists>cs' s. (\<forall>c \<in> set cs'. careful_act K8 c) \<and> all_run K8 cs' (quiet both_on) = Some (Inr s) \<and> data_after cs = as_data s"
proof (cases "\<exists>s. all_run K8 cs (quiet both_on) = Some (Inr s)")
  case True
  with assms show ?thesis by (auto simp: data_after_def)
next
  case False
  then have "data_after cs = as_data (quiet both_on)"
    by (auto simp: data_after_def quiet_def split: option.splits sum.splits)
  then show ?thesis by (intro exI [of _ "[]"] exI [of _ "quiet both_on"]) simp
qed

lemma tables_reached:
  "\<exists>cs s. (\<forall>c \<in> set cs. careful_act K8 c) \<and> all_run K8 cs (quiet both_on) = Some (Inr s) \<and> tables i = as_data s"
proof -
  have c: "\<forall>c \<in> set (write_two d). careful_act K8 c" if "careful_filter K8 Disk_utils d" for d
    using that by (auto simp: write_two_def simp del: careful_filter.simps)
  have "\<forall>c \<in> set (write_two ''sda,sdb'' @ write_two ''sdb,sda''). careful_act K8 c"
    using c [OF two_texts(1)] c [OF two_texts(2)] by auto
  from data_after_reached [OF this] data_after_reached [OF c [OF two_texts(1)]] show ?thesis
    unfolding tables_def by (cases "i = 0") simp_all
qed

theorem lookup_in_any_race_witness:
  "(\<exists>i < MAX_DISK_NUM. dev_idx_over ''sdb'' tables 0 = Inr (int i)) \<or> dev_idx_over ''sdb'' tables 0 = Inr (- 1)"
  using lookup_in_any_race [OF both_on_inv, of tables "''sdb''"] tables_reached by blast

end
