(* ===== verification/ResetRace.thy ===== *)
theory ResetRace
  imports AllFiles FileRace
begin

text \<open>
  A write of 0 to \<open>enable\<close> of the disk counters while a handler is past its look-up: \<open>dutils_enable_write\<close> disables the probe,
  clears the counters in use and empties the table, but does not wait for the handlers.
\<close>

section \<open>The steps of one task\<close>

lemma overflow_no_move: "overflows K (Inl pc) w \<Longrightarrow> file_move K pc w = None"
  by (cases pc) (auto simp: store_name_def split: option.splits prod.splits)

lemma moves_all_run:
  assumes "moves K x y" and "as_at s q = Inl (fst x)" and "as_data s = snd x" and "y = (pc, w)"
  shows "\<exists>n. all_run K (replicate n (Steps q)) s = Some (Inr (s\<lparr>as_data := w, as_at := (as_at s)(q := Inl pc)\<rparr>))"
  using assms
proof (induction arbitrary: s rule: moves.induct)
  case (here x)
  then have "(as_at s)(q := Inl pc) = as_at s" "as_data s = w" by auto
  then show ?case by (intro exI [of _ 0]) (simp del: fun_upd_apply)
next
  case (move pc0 w0 z u)
  let ?s = "s\<lparr>as_data := snd z, as_at := (as_at s)(q := Inl (fst z))\<rparr>"
  have "as_at ?s q = Inl (fst z)" "as_data ?s = snd z" by simp_all
  from move.IH [OF this move.prems(3)] obtain n where
    n: "all_run K (replicate n (Steps q)) ?s = Some (Inr (s\<lparr>as_data := w, as_at := (as_at s)(q := Inl pc)\<rparr>))"
    by (auto simp del: fun_upd_apply)
  have "\<not> overflows K (as_at s q) (as_data s)" using overflow_no_move [of K pc0 w0] move.hyps(1) move.prems(1,2) by auto
  then have "all_step K (Steps q) s = Some (Inr ?s)" using move.hyps(1) move.prems(1,2) by (cases z) simp
  with n show ?case by (intro exI [of _ "Suc n"]) (simp del: fun_upd_apply all_step.simps)
qed

text \<open>The filter, whether it can be read or not, does not touch the counters.\<close>

lemma loop_keeps_counters: "dutils_filter_loop r w = Inr (fine, w') \<Longrightarrow> dutils w' = dutils w"
proof (induction r w rule: dutils_filter_loop.induct)
  case (1 r w)
  then show ?case
    by (subst (asm) dutils_filter_loop.simps [of r w])
      (auto simp: store_name_def split: option.splits prod.splits if_splits sum.splits)
qed

lemma filter_keeps_counters:
  assumes "dutils_filter_write K kmem d w = Inr (r, w')"
  shows "dutils w' = dutils w"
proof (cases kmem)
  case True
  with assms obtain fine w2 where "dutils_filter_loop (Some (strstrip K (cstr d)))
      (disable_jprobe Part_round_stats_jp (w\<lparr>kbufs := Suc (kbufs w), didx := 0\<rparr>)) = Inr (fine, w2)" "dutils w' = dutils w2"
    by (auto simp: dutils_filter_write_def Let_def res_bind_Inr_iff enable_jprobe_def split: if_splits)
  with loop_keeps_counters show ?thesis by (fastforce simp: disable_jprobe_def)
qed (use assms in \<open>simp add: dutils_filter_write_def\<close>)

text \<open>
  C29: Writing 0 to \<open>enable\<close> does not reset the counters for certain. From any state of the interleaving in which the handler number \<open>k\<close> in
  flight has looked up a row \<open>i\<close> in use, a task outside all files can write 0 as a whole: it clears that counter, empties the table and
  switches the statistic off. The handler can still add: then nobody is in more operations than before, the statistic is
  off and the table empty, but the counter is the time it adds; and the next filter written finds that time there, whatever disk it
  names in that row.
\<close>

theorem reset_outlived:
  assumes "k < length (flying s)" and "flying s ! k = To_disk i d" and "i < didx (as_data s)"
    and "didx (as_data s) \<le> length (dutils (as_data s))" and "as_at s q = Inl Rest" and "\<not> bool_at val"
  shows "\<exists>n s1 s2. all_run K (Goes_in q (Inl (E_set val)) # replicate n (Steps q)) s = Some (Inr s1) \<and>
    as_at s1 = as_at s \<and> \<not> denabled (as_data s1) \<and> didx (as_data s1) = 0 \<and> dutils (as_data s1) ! i = 0 \<and>
    all_step K (Adds k) s1 = Some (Inr s2) \<and>
    as_at s2 = as_at s \<and> \<not> denabled (as_data s2) \<and> didx (as_data s2) = 0 \<and> dutils (as_data s2) ! i = d \<and>
    (\<forall>tx r w'. dutils_filter_write K True tx (as_data s2) = Inr (r, w') \<longrightarrow> dutils w' ! i = d)"
proof -
  let ?w = "(disable_jprobe Part_round_stats_jp (as_data s\<lparr>denabled := False\<rparr>))\<lparr>
    dutils := replicate (didx (as_data s)) 0 @ drop (didx (as_data s)) (dutils (as_data s)), didx := 0\<rparr>"
  let ?s = "s\<lparr>as_at := (as_at s)(q := Inl (E_set val))\<rparr>" and ?s1 = "s\<lparr>as_data := ?w\<rparr>"
  have "(as_at ?s)(q := Inl Rest) = as_at s" using assms(5) by auto
  moreover have "as_at ?s q = Inl (fst (E_set val, as_data s))" "as_data ?s = snd (E_set val, as_data s)" by simp_all
  ultimately obtain n where "all_run K (replicate n (Steps q)) ?s = Some (Inr ?s1)"
    using moves_all_run [OF zero_moves [OF assms(6,4), of K] _ _ refl, of ?s q] by (auto simp del: fun_upd_apply)
  then have n: "all_run K (Goes_in q (Inl (E_set val)) # replicate n (Steps q)) s = Some (Inr ?s1)" using assms(5) by simp
  let ?s2 = "?s1\<lparr>as_data := add_in (To_disk i d) ?w, flying := take k (flying s) @ drop (Suc k) (flying s)\<rparr>"
  have i: "i < length (dutils ?w)" "dutils ?w ! i = 0" using assms(3,4) by (simp_all add: nth_append)
  then have "all_step K (Adds k) ?s1 = Some (Inr ?s2)" using assms(1,2) by simp
  moreover have d: "dutils (as_data ?s2) ! i = d" using i by simp
  moreover have "dutils w' ! i = d" if "dutils_filter_write K True tx (as_data ?s2) = Inr (r, w')" for tx r w'
    using filter_keeps_counters [OF that] d by simp
  ultimately show ?thesis using n i by (intro exI [of _ n] exI [of _ ?s1] exI [of _ ?s2]) simp
qed

section \<open>Witness\<close>

text \<open>A handler has looked up \<open>sda\<close> when 0 is written to \<open>enable\<close>.\<close>

definition looked_up :: "act list" where
  "looked_up = watch ''sda'' @ [Starts (Disk_call 10 ref_sda ref_sda)]"

lemma looked_up_run: "case all_run K8 looked_up (quiet both_on) of
    Some (Inr s) \<Rightarrow> flying s = [To_disk 0 6] \<and> didx (as_data s) = 1 \<and> length (dutils (as_data s)) = 20 \<and>
      as_at s 2 = Inl Rest | _ \<Rightarrow> False"
  by code_simp

theorem reset_outlived_witness:
  "\<exists>n s. all_run K8 (looked_up @ (Goes_in 2 (Inl (E_set 0)) # replicate n (Steps 2)) @ [Adds 0]) (quiet both_on) = Some (Inr s) \<and>
     \<not> denabled (as_data s) \<and> didx (as_data s) = 0 \<and> dutils (as_data s) ! 0 = 6"
proof -
  obtain s where s: "all_run K8 looked_up (quiet both_on) = Some (Inr s)" "flying s = [To_disk 0 6]" "didx (as_data s) = 1"
    "length (dutils (as_data s)) = 20" "as_at s 2 = Inl Rest"
    using looked_up_run by (auto split: option.splits sum.splits)
  then obtain n s1 s2 where "all_run K8 (Goes_in 2 (Inl (E_set 0)) # replicate n (Steps 2)) s = Some (Inr s1)"
    "all_step K8 (Adds 0) s1 = Some (Inr s2)" "\<not> denabled (as_data s2)" "didx (as_data s2) = 0" "dutils (as_data s2) ! 0 = 6"
    using reset_outlived [of 0 s 0 6 2 0 K8] by auto
  with s(1) show ?thesis
    by (intro exI [of _ n] exI [of _ s2]) (simp only: all_run_append all_run.simps option.case sum.case simp_thms)
qed

end
