(* ===== verification/RecPaths.thy ===== *)
theory RecPaths
  imports CLib
begin

text \<open>
  The path builders of recorder/defs.h, each a \<open>snprintf\<close> into a buffer of \<open>MAX_PATH_LEN\<close> bytes,
  and what the paths they build name in a file system.
\<close>

section \<open>Building paths\<close>

definition MAX_PATH_LEN :: nat where "MAX_PATH_LEN = 100"

text \<open>The C string that \<open>snprintf\<close> leaves in a buffer of \<open>n\<close> bytes.\<close>

definition snprintf :: "nat \<Rightarrow> string \<Rightarrow> string" where
  "snprintf n t = take (n - 1) t"

text \<open>The paths that \<open>create_instance_dir\<close> and \<open>create_instance_output\<close> make directories at.\<close>

definition instance_dir :: "string \<Rightarrow> string \<Rightarrow> string" where
  "instance_dir base name = snprintf MAX_PATH_LEN (base @ ''/'' @ name)"

definition get_instance_input :: "string \<Rightarrow> string \<Rightarrow> string" where
  "get_instance_input base name = snprintf MAX_PATH_LEN (base @ ''/'' @ name @ ''/trace_pipe'')"

definition get_instance_bufsize :: "string \<Rightarrow> string \<Rightarrow> string" where
  "get_instance_bufsize base name = snprintf MAX_PATH_LEN (base @ ''/'' @ name @ ''/buffer_size_kb'')"

definition instance_output_dir :: "string \<Rightarrow> string \<Rightarrow> string" where
  "instance_output_dir base name = snprintf MAX_PATH_LEN (''/'' @ base @ ''/'' @ name)"

definition get_instance_output :: "string \<Rightarrow> string \<Rightarrow> string" where
  "get_instance_output base name = snprintf MAX_PATH_LEN (base @ ''/'' @ name @ ''/output'')"

definition get_instance_filter :: "string \<Rightarrow> string \<Rightarrow> string \<Rightarrow> string" where
  "get_instance_filter base inst event =
     snprintf MAX_PATH_LEN (base @ ''/'' @ inst @ ''/events/wperf/'' @ event @ ''/filter'')"

definition get_instance_enable :: "string \<Rightarrow> string \<Rightarrow> string \<Rightarrow> string" where
  "get_instance_enable base inst event =
     snprintf MAX_PATH_LEN (base @ ''/'' @ inst @ ''/events/wperf/'' @ event @ ''/enable'')"

lemmas path_defs = instance_dir_def get_instance_input_def get_instance_bufsize_def
  instance_output_dir_def get_instance_output_def get_instance_filter_def get_instance_enable_def

lemma snprintf_fits: "length t < n \<Longrightarrow> snprintf n t = t"
  by (simp add: snprintf_def)

lemma snprintf_length: "0 < n \<Longrightarrow> length (snprintf n t) < n"
  by (simp add: snprintf_def)

section \<open>What a path names\<close>

text \<open>The components of a path; empty ones and \<open>.\<close> name nothing.\<close>

definition piece :: "string \<Rightarrow> string list" where
  "piece c = (if c = [] \<or> c = ''.'' then [] else [c])"

fun comps_from :: "string \<Rightarrow> string \<Rightarrow> string list" where
  "comps_from acc [] = piece acc"
| "comps_from acc (c # cs) =
     (if c = CHR ''/'' then piece acc @ comps_from [] cs else comps_from (acc @ [c]) cs)"

definition comps :: "string \<Rightarrow> string list" where
  "comps p = comps_from [] p"

definition absolute :: "string \<Rightarrow> bool" where
  "absolute p \<longleftrightarrow> take 1 p = ''/''"

text \<open>The directories to walk from the root for a path, with a working directory for relative ones.\<close>

definition resolve :: "string list \<Rightarrow> string \<Rightarrow> string list" where
  "resolve cwd p = (if absolute p then [] else cwd) @ comps p"

lemma comps_from_slash: "comps_from acc (a @ CHR ''/'' # b) = comps_from acc a @ comps b"
  by (induction acc a rule: comps_from.induct) (simp_all add: comps_def)

lemma comps_slash: "comps (a @ CHR ''/'' # b) = comps a @ comps b"
  by (simp add: comps_def comps_from_slash)

lemma comps_from_plain: "CHR ''/'' \<notin> set n \<Longrightarrow> comps_from acc n = piece (acc @ n)"
  by (induction n arbitrary: acc) auto

lemma comps_plain: "CHR ''/'' \<notin> set n \<Longrightarrow> comps n = piece n"
  by (simp add: comps_def comps_from_plain)

lemma comps_root: "comps (CHR ''/'' # p) = comps p"
  using comps_slash [of "[]" p] by (simp add: comps_def piece_def)

text \<open>
  The recorder opens its output file in the directory it made for it when the output directory
  is an absolute path (or it runs in the root): the file lies in \<open>out/name\<close>, but the directory made
  is \<open>/out/name\<close>, which is another one for a relative \<open>out\<close>.
\<close>

theorem output_file_in_made_dir:
  assumes "out \<noteq> []" and "CHR ''/'' \<notin> set name" and "name \<noteq> []" and "name \<noteq> ''.''"
    and "length out + length name + 8 < MAX_PATH_LEN"
  shows "resolve cwd (get_instance_output out name) = resolve cwd (instance_output_dir out name) @ [''output'']
    \<longleftrightarrow> absolute out \<or> cwd = []"
proof -
  have outfile: "get_instance_output out name = out @ CHR ''/'' # name @ CHR ''/'' # ''output''"
    using assms(5) by (simp add: get_instance_output_def snprintf_fits)
  have made: "instance_output_dir out name = CHR ''/'' # out @ CHR ''/'' # name"
    using assms(5) by (simp add: instance_output_dir_def snprintf_fits)
  have "comps ''output'' = [''output'']" "comps name = [name]"
    using assms(2-4) by (simp_all add: comps_plain piece_def)
  then have "resolve cwd (get_instance_output out name)
      = (if absolute out then [] else cwd) @ comps out @ [name, ''output'']"
    and "resolve cwd (instance_output_dir out name) = comps out @ [name]"
    using assms(1) unfolding outfile made
    by (cases out; auto simp: resolve_def comps_slash comps_slash [of "_ # _", simplified] comps_root absolute_def)+
  then show ?thesis by auto
qed

theorem output_file_in_made_dir_witness:
  "resolve [''root''] (get_instance_output ''/tmp/wperf'' ''switch'')
     = resolve [''root''] (instance_output_dir ''/tmp/wperf'' ''switch'') @ [''output''] \<and>
   resolve [''root''] (get_instance_output ''out'' ''switch'')
     \<noteq> resolve [''root''] (instance_output_dir ''out'' ''switch'') @ [''output'']"
  using output_file_in_made_dir [of "''/tmp/wperf''" "''switch''" "[''root'']"]
    output_file_in_made_dir [of "''out''" "''switch''" "[''root'']"]
  by (simp add: MAX_PATH_LEN_def absolute_def)

end
