(* ===== verification/RecConfig.thy ===== *)
theory RecConfig
  imports RecPaths
begin

text \<open>
  The configuration of the recorder: \<open>struct config\<close> of recorder/defs.h, and recorder/main.c, which
  fills it from the command line with \<open>getopt\<close> and \<open>sscanf\<close> of the C library.
\<close>

section \<open>How the program can end early\<close>

text \<open>\<open>exit(n)\<close>, a failed \<open>assert\<close>, and behaviour C leaves undefined.\<close>

datatype halt = Exit int | Abort | Undefined fault

type_synonym 'a run = "halt + 'a"

section \<open>The C library's part\<close>

text \<open>
  \<open>getopt\<close> of the GNU library: options may stand in clusters and among other arguments, \<open>--\<close> ends
  them, and a letter with a colon in the option string takes the rest of its cluster or the next
  argument. Each result is the letter with its argument, \<open>?\<close> for what is not an option.
\<close>

fun takes_arg :: "string \<Rightarrow> char \<Rightarrow> bool option" where
  "takes_arg [] c = None"
| "takes_arg [o1] c = (if c = o1 then Some False else None)"
| "takes_arg (o1 # o2 # os) c =
     (if o1 = CHR '':'' then takes_arg (o2 # os) c
      else if c = o1 then Some (o2 = CHR '':'')
      else takes_arg (o2 # os) c)"

function getopt_word :: "string \<Rightarrow> string list \<Rightarrow> (char \<times> string option) list"
  and getopt_cluster :: "string \<Rightarrow> string \<Rightarrow> string list \<Rightarrow> (char \<times> string option) list" where
  "getopt_word optstring [] = []"
| "getopt_word optstring (w # ws) =
     (if w = ''--'' then []
      else if take 1 w = ''-'' \<and> w \<noteq> ''-'' then getopt_cluster optstring (tl w) ws
      else getopt_word optstring ws)"
| "getopt_cluster optstring [] ws = getopt_word optstring ws"
| "getopt_cluster optstring (c # cs) ws =
     (case (if c = CHR '':'' then None else takes_arg optstring c) of
        None \<Rightarrow> (CHR ''?'', None) # getopt_cluster optstring cs ws
      | Some False \<Rightarrow> (c, None) # getopt_cluster optstring cs ws
      | Some True \<Rightarrow>
          if cs \<noteq> [] then (c, Some cs) # getopt_word optstring ws
          else (case ws of
                  [] \<Rightarrow> [(CHR ''?'', None)]
                | w # ws' \<Rightarrow> (c, Some w) # getopt_word optstring ws'))"
  by pat_completeness auto
termination
  by (relation "measure (\<lambda>x. case x of Inl (os, ws) \<Rightarrow> 2 * length (concat ws) + 2 * length ws
        | Inr (os, cs, ws) \<Rightarrow> 2 * length cs + 2 * length (concat ws) + 2 * length ws + 1)") auto

text \<open>
  \<open>sscanf(s, "%" PRIu64, &v)\<close>: white space, a sign, decimal digits; too large a number gives the
  largest one, a minus negates modulo \<open>2 ^ 64\<close>. \<open>None\<close> when nothing was converted.
\<close>

definition c_space :: "char \<Rightarrow> bool" where
  "c_space c \<longleftrightarrow> c \<in> set [CHR '' '', CHR 0x09, CHR 0x0A, CHR 0x0B, CHR 0x0C, CHR 0x0D]"

definition scan_digits :: "string \<Rightarrow> nat option" where
  "scan_digits s = (let ds = takeWhile is_digit s in if ds = [] then None else Some (read_nat ds))"

definition scan_u64 :: "string \<Rightarrow> u64 option" where
  "scan_u64 s =
     (let t = dropWhile c_space s;
          neg = (take 1 t = ''-'');
          body = (if neg \<or> take 1 t = ''+'' then tl t else t)
      in case scan_digits body of
           None \<Rightarrow> None
         | Some n \<Rightarrow> Some (if 2 ^ 64 \<le> n then - 1 else if neg then - word_of_nat n else word_of_nat n))"

section \<open>The configuration\<close>

text \<open>
  Null pointers are \<open>None\<close>; \<open>instances_in\<close> and \<open>instances_out\<close> are arrays of \<open>instances_num\<close>
  strings that \<open>setup_event_instances\<close> fills, \<open>argv\<close> one of argument lists.
\<close>

record config =
  instances_in :: "string option list"
  instances_out :: "string option list"
  instances_num :: nat
  bufsize_kb :: string
  argv :: "string list option list"
  filter_expr :: "string option"
  disk_list :: "string option"
  nic_list :: "string option"
  timeout :: u64
  output_dir :: string

definition init_config :: "nat \<Rightarrow> config" where
  "init_config n =
     \<lparr>instances_in = replicate n None, instances_out = replicate n None, instances_num = n,
      bufsize_kb = ''4096'', argv = [], filter_expr = None, disk_list = None, nic_list = None,
      timeout = 90000, output_dir = ''/tmp/wperf''\<rparr>"

definition usage :: "'a run" where
  "usage = Inl (Exit 1)"

text \<open>One turn of the loop over the options.\<close>

fun parse_opt :: "char \<times> string option \<Rightarrow> config \<Rightarrow> config run" where
  "parse_opt (c, a) cf =
     (if c = CHR ''f'' then Inr (cf\<lparr>filter_expr := a\<rparr>)
      else if c = CHR ''P'' then
        (case scan_u64 (the a) of Some t \<Rightarrow> Inr (cf\<lparr>timeout := t\<rparr>) | None \<Rightarrow> usage)
      else if c = CHR ''d'' then Inr (cf\<lparr>disk_list := a\<rparr>)
      else if c = CHR ''n'' then Inr (cf\<lparr>nic_list := a\<rparr>)
      else if c = CHR ''o'' then Inr (cf\<lparr>output_dir := the a\<rparr>)
      else if c = CHR ''b'' then Inr (cf\<lparr>bufsize_kb := the a\<rparr>)
      else usage)"

fun parse_loop :: "(char \<times> string option) list \<Rightarrow> config \<Rightarrow> config run" where
  "parse_loop [] cf = Inr cf"
| "parse_loop (x # xs) cf = res_bind (parse_opt x cf) (parse_loop xs)"

definition opt_string :: string where
  "opt_string = ''f:P:hd:n:o:b:''"

text \<open>\<open>argv[0]\<close> is the program's name.\<close>

definition parse_opts :: "config \<Rightarrow> string list \<Rightarrow> config run" where
  "parse_opts cf args = parse_loop (getopt_word opt_string (tl args)) cf"

section \<open>Properties\<close>

text \<open>Arguments written as the option and then its value.\<close>

fun spelled :: "(char \<times> string) list \<Rightarrow> string list" where
  "spelled [] = []"
| "spelled ((c, v) # xs) = [CHR ''-'', c] # v # spelled xs"

text \<open>The value of the last option of a letter.\<close>

definition last_of :: "char \<Rightarrow> (char \<times> string) list \<Rightarrow> string option" where
  "last_of c xs = map_of (rev xs) c"

lemma last_of_simps [simp]:
  "last_of c [] = None"
  "last_of c ((d, v) # xs) = (case last_of c xs of None \<Rightarrow> if c = d then Some v else None | Some u \<Rightarrow> Some u)"
  by (auto simp: last_of_def map_add_def split: option.splits)

definition arg_letters :: string where
  "arg_letters = ''fPdnob''"

lemma takes_arg_letters: "c \<in> set arg_letters \<Longrightarrow> c \<noteq> CHR '':'' \<and> c \<noteq> CHR ''-'' \<and> takes_arg opt_string c = Some True"
  by (auto simp: arg_letters_def opt_string_def)

lemma getopt_spelled:
  "\<forall>(c, v) \<in> set xs. c \<in> set arg_letters \<Longrightarrow>
   getopt_word opt_string (spelled xs @ ws) = map (\<lambda>(c, v). (c, Some v)) xs @ getopt_word opt_string ws"
proof (induction xs)
  case (Cons x xs)
  obtain c v where x: "x = (c, v)" by (cases x)
  with Cons.prems takes_arg_letters [of c] Cons.IH show ?case by auto
qed simp

definition orelse :: "'a option \<Rightarrow> 'a \<Rightarrow> 'a" where
  "orelse x d = (case x of None \<Rightarrow> d | Some y \<Rightarrow> y)"

lemma parse_loop_spelled:
  "\<forall>(c, v) \<in> set xs. c \<in> set arg_letters \<and> (c = CHR ''P'' \<longrightarrow> scan_u64 v \<noteq> None) \<Longrightarrow>
   parse_loop (map (\<lambda>(c, v). (c, Some v)) xs) cf = Inr (cf
     \<lparr>bufsize_kb := orelse (last_of CHR ''b'' xs) (bufsize_kb cf),
      filter_expr := (if last_of CHR ''f'' xs = None then filter_expr cf else last_of CHR ''f'' xs),
      disk_list := (if last_of CHR ''d'' xs = None then disk_list cf else last_of CHR ''d'' xs),
      nic_list := (if last_of CHR ''n'' xs = None then nic_list cf else last_of CHR ''n'' xs),
      timeout := (case last_of CHR ''P'' xs of None \<Rightarrow> timeout cf | Some v \<Rightarrow> the (scan_u64 v)),
      output_dir := orelse (last_of CHR ''o'' xs) (output_dir cf)\<rparr>)"
proof (induction xs arbitrary: cf)
  case (Cons x xs)
  obtain c v where x: "x = (c, v)" by (cases x)
  with Cons.prems have "c \<in> {CHR ''f'', CHR ''P'', CHR ''d'', CHR ''n'', CHR ''o'', CHR ''b''}"
    by (auto simp: arg_letters_def)
  with Cons x show ?case
    by (elim insertE) (auto simp: orelse_def split: option.splits)
qed (simp add: orelse_def)

lemma parse_loop_append: "parse_loop (xs @ ys) = (\<lambda>cf. res_bind (parse_loop xs cf) (parse_loop ys))"
proof (induction xs)
  case (Cons x xs)
  show ?case
    by (rule ext) (simp only: append_Cons parse_loop.simps Cons.IH res_bind_assoc)
qed (simp add: fun_eq_iff)

lemma init_config_sel:
  "bufsize_kb (init_config n) = ''4096''" "filter_expr (init_config n) = None"
  "disk_list (init_config n) = None" "nic_list (init_config n) = None"
  "timeout (init_config n) = 90000" "output_dir (init_config n) = ''/tmp/wperf''"
  by (simp_all add: init_config_def)

text \<open>
  The command line, options spelled as a letter and a value: every field of the configuration
  holds the value of the last option for it, the others their defaults, among them a period of
  90000 and the directory \<open>/tmp/wperf\<close>; no pid filter has a default.
\<close>

theorem parse_opts_last_wins:
  assumes "\<forall>(c, v) \<in> set xs. c \<in> set arg_letters \<and> (c = CHR ''P'' \<longrightarrow> scan_u64 v \<noteq> None)"
  shows "parse_opts (init_config n) (prog # spelled xs) = Inr ((init_config n)
     \<lparr>bufsize_kb := orelse (last_of CHR ''b'' xs) ''4096'',
      filter_expr := last_of CHR ''f'' xs, disk_list := last_of CHR ''d'' xs,
      nic_list := last_of CHR ''n'' xs,
      timeout := (case last_of CHR ''P'' xs of None \<Rightarrow> 90000 | Some v \<Rightarrow> the (scan_u64 v)),
      output_dir := orelse (last_of CHR ''o'' xs) ''/tmp/wperf''\<rparr>)"
proof -
  have "getopt_word opt_string (spelled xs) = map (\<lambda>(c, v). (c, Some v)) xs"
    using getopt_spelled [of xs "[]"] assms by auto
  then have "parse_opts (init_config n) (prog # spelled xs) =
      parse_loop (map (\<lambda>(c, v). (c, Some v)) xs) (init_config n)"
    by (simp add: parse_opts_def)
  also note parse_loop_spelled [OF assms]
  finally show ?thesis by (simp add: init_config_sel cong: option.case_cong)
qed

text \<open>
  The option \<open>-p\<close>, which the help text names for the pids, is none that the
  recorder knows: after any good options it ends the program with the help text and status 1.
\<close>

theorem option_p_exits:
  assumes "\<forall>(c, v) \<in> set xs. c \<in> set arg_letters \<and> (c = CHR ''P'' \<longrightarrow> scan_u64 v \<noteq> None)"
  shows "parse_opts cf (prog # spelled xs @ ''-p'' # ws) = Inl (Exit 1)"
proof -
  have "getopt_word opt_string (''-p'' # ws) = (CHR ''?'', None) # getopt_word opt_string ws"
    by (simp add: opt_string_def)
  then have "getopt_word opt_string (spelled xs @ ''-p'' # ws) =
      map (\<lambda>(c, v). (c, Some v)) xs @ (CHR ''?'', None) # getopt_word opt_string ws"
    using getopt_spelled [of xs "''-p'' # ws"] assms by auto
  then show ?thesis
    by (simp add: parse_opts_def parse_loop_append parse_loop_spelled [OF assms] usage_def)
qed

theorem parse_opts_last_wins_witness:
  "\<exists>cf. parse_opts (init_config 2) [''recorder'', ''-f'', ''common_pid == 7'', ''-P'', ''500'', ''-P'', ''2x'', ''-d'', ''sda'']
     = Inr cf \<and> filter_expr cf = Some ''common_pid == 7'' \<and> timeout cf = 2 \<and> nic_list cf = None"
proof -
  have p: "scan_u64 ''2x'' = Some 2" "scan_u64 ''500'' \<noteq> None"
    by (simp_all add: scan_u64_def scan_digits_def is_digit_def c_space_def read_nat_def digit_val_def Let_def)
  with parse_opts_last_wins [of "[(CHR ''f'', ''common_pid == 7''), (CHR ''P'', ''500''), (CHR ''P'', ''2x''), (CHR ''d'', ''sda'')]" 2 "''recorder''"]
  show ?thesis by (simp add: arg_letters_def)
qed

theorem option_p_exits_witness:
  "parse_opts (init_config 2) [''recorder'', ''-o'', ''/tmp/x'', ''-p'', ''common_pid == 7''] = Inl (Exit 1)"
  using option_p_exits [of "[(CHR ''o'', ''/tmp/x'')]" "init_config 2" "''recorder''" "[''common_pid == 7'']"]
  by (simp add: arg_letters_def)


end
