(* ===== verification/RecEvents.thy ===== *)
theory RecEvents
  imports RecConfig "HOL-Library.Sublist"
begin

text \<open>
  Setting up and switching the traced events: the synchronous half of recorder/event.c. The calls
  into libuv are logged, and what they return is a parameter (\<open>uvapi\<close>) that may depend on all that
  was called before.
\<close>

section \<open>The system calls\<close>

text \<open>
  \<open>Open_rw\<close> opens a control file, \<open>Open_out\<close> creates an output file, \<open>Open_in\<close> asks for a pipe to
  be opened; \<open>Spawn\<close>, \<open>Kill\<close> and \<open>Close_process\<close> name a worker by its index, \<open>Signal_start\<close> says whether the handler
  is the one that cleans up.
\<close>

datatype sysop =
    Mkdir string
  | Open_rw string
  | Open_out string
  | Open_in string
  | Write_fd int string
  | Close_fd int
  | Spawn nat "string list"
  | Kill nat
  | Close_process nat
  | Signal_start bool
  | Signal_stop
  | Timer_start u64
  | Timer_stop

record uvapi =
  mkdir_ret :: "sysop list \<Rightarrow> string \<Rightarrow> int"
  open_ret :: "sysop list \<Rightarrow> string \<Rightarrow> int"
  write_ret :: "sysop list \<Rightarrow> int \<Rightarrow> string \<Rightarrow> int"
  close_ret :: "sysop list \<Rightarrow> int \<Rightarrow> int"
  spawn_ret :: "sysop list \<Rightarrow> nat \<Rightarrow> int"

definition UV_EEXIST :: int where "UV_EEXIST = - 17"

definition UV_EAGAIN :: int where "UV_EAGAIN = - 11"

text \<open>A computation gives the log after it; one that ends the program gives how, and the log.\<close>

type_synonym 'a uvrun = "(halt \<times> sysop list) + 'a"

section \<open>The tables of instances and events\<close>

definition basedir :: string where
  "basedir = ''/sys/kernel/debug/tracing/instances''"

definition instances :: "string list" where
  "instances = [''switch'', ''softirq'']"

definition event_instances :: nat where
  "event_instances = 2"

definition switch_events :: "string list" where
  "switch_events = [''__switch_to'', ''try_to_wake_up'', ''wake_up_new_task'', ''do_exit'']"

definition softirq_events :: "string list" where
  "softirq_events = [''__do_softirq_ret'']"

definition pevents :: "string list list" where
  "pevents = [switch_events, softirq_events]"

section \<open>Making the instances\<close>

definition make_dir :: "uvapi \<Rightarrow> string \<Rightarrow> sysop list \<Rightarrow> sysop list uvrun" where
  "make_dir V d log =
     (let r = mkdir_ret V log d; log' = log @ [Mkdir d] in
      if r = 0 \<or> r = UV_EEXIST then Inr log' else Inl (Abort, log'))"

definition create_instance_dir :: "uvapi \<Rightarrow> string \<Rightarrow> string \<Rightarrow> sysop list \<Rightarrow> sysop list uvrun" where
  "create_instance_dir V base name log = make_dir V (instance_dir base name) log"

definition create_instance_output :: "uvapi \<Rightarrow> string \<Rightarrow> string \<Rightarrow> sysop list \<Rightarrow> sysop list uvrun" where
  "create_instance_output V base name log = make_dir V (instance_output_dir base name) log"

text \<open>The turns of the loop for the given indices, \<open>p\<close> walking along the names.\<close>

fun setup_instances :: "uvapi \<Rightarrow> string \<Rightarrow> string list \<Rightarrow> nat list \<Rightarrow> config \<Rightarrow> sysop list
    \<Rightarrow> (config \<times> sysop list) uvrun" where
  "setup_instances V base p [] cf log = Inr (cf, log)"
| "setup_instances V base [] (i # is) cf log = Inl (Undefined NullDeref, log)"
| "setup_instances V base (n # p) (i # is) cf log =
     res_bind (create_instance_dir V base n log) (\<lambda>log1.
     res_bind (create_instance_output V (output_dir cf) n log1) (\<lambda>log2.
     if i < length (instances_in cf) \<and> i < length (instances_out cf)
     then setup_instances V base p is
            (cf\<lparr>instances_in := (instances_in cf)[i := Some (get_instance_input base n)],
                instances_out := (instances_out cf)[i := Some (get_instance_output (output_dir cf) n)]\<rparr>) log2
     else Inl (Undefined OutOfBounds, log2)))"

definition setup_event_instances :: "uvapi \<Rightarrow> config \<Rightarrow> string \<Rightarrow> string list \<Rightarrow> sysop list
    \<Rightarrow> (config \<times> sysop list) uvrun" where
  "setup_event_instances V cf base p log =
     res_bind (make_dir V (output_dir cf) log) (\<lambda>log'.
       setup_instances V base p [0..<instances_num cf] cf log')"

section \<open>Writing to the control files\<close>

text \<open>\<open>__write_debugfs\<close>.\<close>

definition do_write_debugfs :: "uvapi \<Rightarrow> string \<Rightarrow> string \<Rightarrow> sysop list \<Rightarrow> sysop list uvrun" where
  "do_write_debugfs V fname iov log =
     (let fd = open_ret V log fname; log1 = log @ [Open_rw fname] in
      if fd < 0 then Inl (Exit 1, log1)
      else let r = write_ret V log1 fd iov; log2 = log1 @ [Write_fd fd iov] in
      if r < 0 then Inl (Exit 1, log2)
      else let r = close_ret V log2 fd; log3 = log2 @ [Close_fd fd] in
      if r < 0 then Inl (Exit 1, log3) else Inr log3)"

fun write_events :: "uvapi \<Rightarrow> string \<Rightarrow> (string \<Rightarrow> string \<Rightarrow> string \<Rightarrow> string) \<Rightarrow> string \<Rightarrow> string list
    \<Rightarrow> sysop list \<Rightarrow> sysop list uvrun" where
  "write_events V iov get_fname inst [] log = Inr log"
| "write_events V iov get_fname inst (q # qs) log =
     res_bind (do_write_debugfs V (get_fname basedir inst q) iov log) (write_events V iov get_fname inst qs)"

fun write_instances :: "uvapi \<Rightarrow> string \<Rightarrow> (string \<Rightarrow> string \<Rightarrow> string \<Rightarrow> string) \<Rightarrow> string list \<Rightarrow> nat
    \<Rightarrow> sysop list \<Rightarrow> sysop list uvrun" where
  "write_instances V iov get_fname [] i log = Inr log"
| "write_instances V iov get_fname (p # ps) i log =
     (if i < length pevents
      then res_bind (write_events V iov get_fname p (pevents ! i) log)
             (write_instances V iov get_fname ps (Suc i))
      else Inl (Undefined OutOfBounds, log))"

definition write_debugfs :: "uvapi \<Rightarrow> string \<Rightarrow> (string \<Rightarrow> string \<Rightarrow> string \<Rightarrow> string) \<Rightarrow> sysop list
    \<Rightarrow> sysop list uvrun" where
  "write_debugfs V iov get_fname log = write_instances V iov get_fname instances 0 log"

text \<open>A buffer made of a string has its terminating NUL too.\<close>

definition iov_of :: "string \<Rightarrow> string" where
  "iov_of s = cstr s @ [NUL]"

definition set_filter_and_enable :: "uvapi \<Rightarrow> config \<Rightarrow> sysop list \<Rightarrow> sysop list uvrun" where
  "set_filter_and_enable V cf log =
     (case filter_expr cf of
        None \<Rightarrow> Inl (Undefined NullDeref, log)
      | Some e \<Rightarrow> res_bind (write_debugfs V (iov_of e) get_instance_filter log)
                    (write_debugfs V (iov_of ''1'') get_instance_enable))"

fun write_bufsizes :: "uvapi \<Rightarrow> string \<Rightarrow> string list \<Rightarrow> sysop list \<Rightarrow> sysop list uvrun" where
  "write_bufsizes V iov [] log = Inr log"
| "write_bufsizes V iov (p # ps) log =
     res_bind (do_write_debugfs V (get_instance_bufsize basedir p) iov log) (write_bufsizes V iov ps)"

definition set_instances_bufsize :: "uvapi \<Rightarrow> config \<Rightarrow> sysop list \<Rightarrow> sysop list uvrun" where
  "set_instances_bufsize V cf log = write_bufsizes V (iov_of (bufsize_kb cf)) instances log"

section \<open>The writes as a list\<close>

fun write_list :: "uvapi \<Rightarrow> (string \<times> string) list \<Rightarrow> sysop list \<Rightarrow> sysop list uvrun" where
  "write_list V [] log = Inr log"
| "write_list V ((f, d) # ws) log = res_bind (do_write_debugfs V f d log) (write_list V ws)"

lemma write_list_append: "write_list V (ws @ us) log = res_bind (write_list V ws log) (write_list V us)"
proof (induction ws arbitrary: log)
  case (Cons w ws)
  then have "write_list V (ws @ us) = (\<lambda>log. res_bind (write_list V ws log) (write_list V us))"
    by (simp add: fun_eq_iff)
  then show ?case by (cases w) (simp add: res_bind_assoc)
qed simp

text \<open>Every traced event with its instance, in the order of the tables.\<close>

definition all_events :: "(string \<times> string) list" where
  "all_events = map (Pair ''switch'') switch_events @ map (Pair ''softirq'') softirq_events"

definition event_files :: "(string \<Rightarrow> string \<Rightarrow> string \<Rightarrow> string) \<Rightarrow> string list" where
  "event_files get_fname = map (\<lambda>(i, e). get_fname basedir i e) all_events"

lemma write_events_list:
  "write_events V iov g inst qs log = write_list V (map (\<lambda>q. (g basedir inst q, iov)) qs) log"
proof (induction qs arbitrary: log)
  case (Cons q qs)
  then have "write_events V iov g inst qs = write_list V (map (\<lambda>q. (g basedir inst q, iov)) qs)"
    by (simp add: fun_eq_iff)
  then show ?case by simp
qed simp

lemma write_debugfs_list:
  "write_debugfs V iov g log = write_list V (map (\<lambda>f. (f, iov)) (event_files g)) log"
proof -
  have "write_events V iov g inst qs = write_list V (map (\<lambda>q. (g basedir inst q, iov)) qs)" for inst qs
    by (simp add: fun_eq_iff write_events_list)
  note each = this
  have ends: "write_instances V iov g [] (Suc (Suc 0)) = Inr"
    by (rule ext) simp
  have softirq: "write_instances V iov g [''softirq''] (Suc 0)
      = write_list V (map (\<lambda>q. (g basedir ''softirq'' q, iov)) softirq_events)"
    by (rule ext) (simp add: each ends pevents_def)
  have "write_debugfs V iov g log = res_bind
      (write_list V (map (\<lambda>q. (g basedir ''switch'' q, iov)) switch_events) log)
      (write_list V (map (\<lambda>q. (g basedir ''softirq'' q, iov)) softirq_events))"
    by (simp add: write_debugfs_def instances_def each softirq) (simp add: pevents_def)
  then show ?thesis
    by (simp add: event_files_def all_events_def comp_def flip: write_list_append)
qed

lemma write_bufsizes_list:
  "write_bufsizes V iov ps log = write_list V (map (\<lambda>p. (get_instance_bufsize basedir p, iov)) ps) log"
proof (induction ps arbitrary: log)
  case (Cons p ps)
  then have "write_bufsizes V iov ps = write_list V (map (\<lambda>p. (get_instance_bufsize basedir p, iov)) ps)"
    by (simp add: fun_eq_iff)
  then show ?case by simp
qed simp

end
