(* ===== verification/RecCopy.thy ===== *)
theory RecCopy
  imports RecEvents
begin

text \<open>
  The asynchronous half of recorder/event.c: for each instance a chain of callbacks that copies the
  trace pipe to the output file, as a state machine driven by the completions libuv reports.
\<close>

section \<open>The callbacks\<close>

text \<open>The request under way; \<open>R_write\<close> carries the bytes the buffer then held.\<close>

datatype request = R_open string | R_read int nat | R_write int string | R_timer nat

text \<open>
  \<open>struct event_ctx\<close>, with the request it has under way (at most one) and the descriptors it has
  closed; \<open>fd_in\<close> and \<open>fd_out\<close> are \<open>fd[0]\<close> and \<open>fd[1]\<close>.
\<close>

record event_ctx =
  fd_in :: int
  fd_out :: int
  iov_buf :: string
  iov_len :: nat
  pending :: "request option"
  closed :: "int list"

definition COPY_LEN :: nat where "COPY_LEN = 4096"

text \<open>The buffer is fresh memory of \<open>COPY_LEN\<close> bytes, \<open>None\<close> when there is none.\<close>

definition init_event_ctx :: "string option \<Rightarrow> event_ctx option" where
  "init_event_ctx mem =
     (case mem of None \<Rightarrow> None
      | Some b \<Rightarrow> Some \<lparr>fd_in = - 1, fd_out = - 1, iov_buf = take COPY_LEN b, iov_len = COPY_LEN,
                        pending = None, closed = []\<rparr>)"

definition event_cleanup :: "event_ctx \<Rightarrow> event_ctx" where
  "event_cleanup e = e\<lparr>pending := None, closed := closed e @ [fd_in e, fd_out e]\<rparr>"

definition on_open :: "int \<Rightarrow> event_ctx \<Rightarrow> event_ctx" where
  "on_open r e =
     (if r < 0 then e\<lparr>pending := None\<rparr>
      else e\<lparr>fd_in := r, pending := Some (R_read r (iov_len e))\<rparr>)"

definition on_retry :: "event_ctx \<Rightarrow> event_ctx" where
  "on_retry e = e\<lparr>pending := Some (R_read (fd_in e) (iov_len e))\<rparr>"

definition on_write :: "int \<Rightarrow> event_ctx \<Rightarrow> event_ctx" where
  "on_write r e =
     (if r < 0 then event_cleanup e
      else e\<lparr>iov_len := COPY_LEN, pending := Some (R_read (fd_in e) COPY_LEN)\<rparr>)"

definition on_read :: "bool \<Rightarrow> int \<Rightarrow> event_ctx \<Rightarrow> event_ctx" where
  "on_read expired r e =
     (if r \<le> 0 then
        if expired then event_cleanup e
        else if r \<noteq> UV_EAGAIN then event_cleanup e
        else e\<lparr>pending := Some (R_timer 1)\<rparr>
      else e\<lparr>iov_len := nat r, pending := Some (R_write (fd_out e) (take (nat r) (iov_buf e)))\<rparr>)"

section \<open>Runs of one copy\<close>

text \<open>
  The context with the recorder's flag, and what the outside has seen: the bytes taken from the
  pipe and the bytes that arrived in the file.
\<close>

record copy_st =
  cx :: event_ctx
  expired :: bool
  taken :: string
  stored :: string

text \<open>
  One completion. A read puts at least one byte and at most the requested number into the buffer or
  fails; a write stores a first part of the bytes or fails, and with \<open>full\<close> it stores all of them.
\<close>

inductive copy_step :: "bool \<Rightarrow> copy_st \<Rightarrow> copy_st \<Rightarrow> bool" for full where
  opened: "pending (cx s) = Some (R_open p) \<Longrightarrow> copy_step full s (s\<lparr>cx := on_open r (cx s)\<rparr>)"
| no_data: "pending (cx s) = Some (R_read fd n) \<Longrightarrow> r \<le> 0 \<Longrightarrow>
    copy_step full s (s\<lparr>cx := on_read (expired s) r (cx s)\<rparr>)"
| data: "pending (cx s) = Some (R_read fd n) \<Longrightarrow> bs \<noteq> [] \<Longrightarrow> length bs \<le> n \<Longrightarrow>
    copy_step full s (s\<lparr>cx := on_read (expired s) (int (length bs))
                          ((cx s)\<lparr>iov_buf := overwrite (iov_buf (cx s)) 0 bs\<rparr>), taken := taken s @ bs\<rparr>)"
| write_error: "pending (cx s) = Some (R_write fd d) \<Longrightarrow> r < 0 \<Longrightarrow>
    copy_step full s (s\<lparr>cx := on_write r (cx s)\<rparr>)"
| write_part: "pending (cx s) = Some (R_write fd d) \<Longrightarrow> n \<le> length d \<Longrightarrow> full \<longrightarrow> n = length d \<Longrightarrow>
    copy_step full s (s\<lparr>cx := on_write (int n) (cx s), stored := stored s @ take n d\<rparr>)"
| retry: "pending (cx s) = Some (R_timer t) \<Longrightarrow> copy_step full s (s\<lparr>cx := on_retry (cx s)\<rparr>)"
| expire: "copy_step full s (s\<lparr>expired := True\<rparr>)"

inductive_cases copy_stepE: "copy_step full s s'"

text \<open>As \<open>record_events\<close> leaves it: a fresh context, its output file opened, the pipe asked for.\<close>

definition copy_started :: "string \<Rightarrow> copy_st \<Rightarrow> bool" where
  "copy_started p s \<longleftrightarrow>
     (\<exists>b e fd. length b = COPY_LEN \<and> init_event_ctx (Some b) = Some e \<and>
        s = \<lparr>cx = e\<lparr>fd_out := fd, pending := Some (R_open p)\<rparr>, expired = False, taken = [], stored = []\<rparr>)"

section \<open>The invariant\<close>

text \<open>The buffer keeps its size; what is requested fits it; the bytes not yet stored are in flight.\<close>

definition in_flight :: "copy_st \<Rightarrow> string" where
  "in_flight s = (case pending (cx s) of Some (R_write fd d) \<Rightarrow> d | _ \<Rightarrow> [])"

definition copy_ok :: "copy_st \<Rightarrow> bool" where
  "copy_ok s \<longleftrightarrow> length (iov_buf (cx s)) = COPY_LEN \<and>
     (case pending (cx s) of
        Some (R_open p) \<Rightarrow> iov_len (cx s) = COPY_LEN \<and> closed (cx s) = []
      | Some (R_read fd n) \<Rightarrow> n = COPY_LEN \<and> iov_len (cx s) = COPY_LEN \<and> fd = fd_in (cx s) \<and> closed (cx s) = []
      | Some (R_write fd d) \<Rightarrow> d \<noteq> [] \<and> length d \<le> COPY_LEN \<and> fd = fd_out (cx s) \<and> closed (cx s) = []
      | Some (R_timer t) \<Rightarrow> iov_len (cx s) = COPY_LEN \<and> closed (cx s) = []
      | None \<Rightarrow> closed (cx s) \<in> {[], [fd_in (cx s), fd_out (cx s)]})"

lemmas callback_defs = on_open_def on_read_def on_write_def on_retry_def event_cleanup_def

lemma overwrite_front: "overwrite b 0 bs = bs @ drop (length bs) b"
  by (simp add: overwrite_def)

lemma copy_ok_started: "copy_started p s \<Longrightarrow> copy_ok s"
  by (auto simp: copy_started_def copy_ok_def init_event_ctx_def)

lemma copy_step_ok: "copy_step full s s' \<Longrightarrow> copy_ok s \<Longrightarrow> copy_ok s'"
  by (erule copy_stepE) (auto simp: copy_ok_def callback_defs overwrite_front split: option.splits request.splits)

text \<open>
  From a point where \<open>A\<close> had been taken and \<open>B\<close> stored or put in flight, runs with whole writes add
  the same bytes to both.
\<close>

definition copied_from :: "string \<Rightarrow> string \<Rightarrow> copy_st \<Rightarrow> bool" where
  "copied_from A B s \<longleftrightarrow> (\<exists>r. taken s = A @ r \<and>
     (if pending (cx s) = None then prefix (stored s) (B @ r) else stored s @ in_flight s = B @ r))"

lemma copied_fromI:
  "taken s = A @ r \<Longrightarrow> (pending (cx s) = None \<Longrightarrow> prefix (stored s) (B @ r)) \<Longrightarrow>
   (pending (cx s) \<noteq> None \<Longrightarrow> stored s @ in_flight s = B @ r) \<Longrightarrow> copied_from A B s"
  by (auto simp: copied_from_def)

lemma copy_step_copied:
  assumes "copy_step True s s'" and "copied_from A B s"
  shows "copied_from A B s'"
proof -
  obtain r where r: "taken s = A @ r"
    "if pending (cx s) = None then prefix (stored s) (B @ r) else stored s @ in_flight s = B @ r"
    using assms(2) by (auto simp: copied_from_def)
  from assms(1) show ?thesis
  proof (cases rule: copy_step.cases)
    case (data fd n bs)
    with r show ?thesis
      by (intro copied_fromI [of _ _ "r @ bs"]) (auto simp: in_flight_def callback_defs overwrite_front)
  next
    case (write_error fd d ra)
    with r have "prefix (stored s) (B @ r)"
      by (auto simp: in_flight_def intro: prefixI [OF sym])
    with write_error r show ?thesis
      by (intro copied_fromI [of _ _ r]) (simp_all add: callback_defs)
  qed (use r in \<open>auto simp: copied_from_def in_flight_def callback_defs prefix_def split: if_splits\<close>)
qed

lemma copy_run_copied: "(copy_step True)\<^sup>*\<^sup>* s s' \<Longrightarrow> copied_from A B s \<Longrightarrow> copied_from A B s'"
  by (induction rule: rtranclp_induct) (auto intro: copy_step_copied)

lemma copy_run_ok: "(copy_step full)\<^sup>*\<^sup>* s s' \<Longrightarrow> copy_ok s \<Longrightarrow> copy_ok s'"
  by (induction rule: rtranclp_induct) (auto intro: copy_step_ok)

lemma copied_started: "copy_started p s \<Longrightarrow> copied_from [] [] s"
  by (auto simp: copy_started_def copied_from_def in_flight_def)

section \<open>Properties\<close>

text \<open>
  As long as every write stores all it is given, the output file always holds a prefix of the
  bytes taken from the pipe, and exactly those bytes whenever the next read is under way.
\<close>

theorem copy_faithful:
  assumes "copy_started p s" and "(copy_step True)\<^sup>*\<^sup>* s s'"
  shows "prefix (stored s') (taken s') \<and>
    (\<forall>fd n. pending (cx s') = Some (R_read fd n) \<longrightarrow> stored s' = taken s')"
  using copy_run_copied [OF assms(2) copied_started [OF assms(1)]]
  by (auto simp: copied_from_def in_flight_def prefix_def split: if_splits) metis

text \<open>
  A write that stores only a part loses the rest for good: whatever is copied afterwards, with
  whole writes, follows the part directly, though the pipe's bytes went on behind the lost ones.
\<close>

theorem short_write_drops:
  assumes "pending (cx s) = Some (R_write fd d)" and "n \<le> length d" and "taken s = stored s @ d"
    and "(copy_step True)\<^sup>*\<^sup>* (s\<lparr>cx := on_write (int n) (cx s), stored := stored s @ take n d\<rparr>) s'"
  shows "\<exists>rest. taken s' = stored s @ take n d @ drop n d @ rest \<and> prefix (stored s') (stored s @ take n d @ rest)"
proof -
  let ?s1 = "s\<lparr>cx := on_write (int n) (cx s), stored := stored s @ take n d\<rparr>"
  have "copied_from (taken s) (stored s @ take n d) ?s1"
    by (simp add: copied_from_def on_write_def in_flight_def)
  from copy_run_copied [OF assms(4) this] obtain r where "taken s' = taken s @ r"
    "prefix (stored s') ((stored s @ take n d) @ r)"
    by (auto simp: copied_from_def prefix_def split: if_splits) metis
  with assms(3) show ?thesis by (intro exI [of _ r]) simp
qed

text \<open>
  Every run, with short writes too, keeps the requests inside the buffer and closes its two
  descriptors at most once, together; after that the chain makes no further request.
\<close>

theorem copy_safe:
  assumes "copy_started p s" and "(copy_step full)\<^sup>*\<^sup>* s s'"
  shows "length (iov_buf (cx s')) = COPY_LEN \<and>
    (\<forall>fd n. pending (cx s') = Some (R_read fd n) \<longrightarrow> n = COPY_LEN) \<and>
    (closed (cx s') \<noteq> [] \<longrightarrow> closed (cx s') = [fd_in (cx s'), fd_out (cx s')] \<and>
       (\<forall>s''. copy_step full s' s'' \<longrightarrow> cx s'' = cx s'))"
proof -
  have ok: "copy_ok s'"
    using copy_run_ok [OF assms(2) copy_ok_started [OF assms(1)]] .
  have "cx s'' = cx s'" if "closed (cx s') \<noteq> []" "copy_step full s' s''" for s''
    using that(2) ok that(1)
    by (cases rule: copy_stepE) (auto simp: copy_ok_def)
  moreover have "length (iov_buf (cx s')) = COPY_LEN"
    using ok by (simp add: copy_ok_def)
  moreover have "\<forall>fd n. pending (cx s') = Some (R_read fd n) \<longrightarrow> n = COPY_LEN"
    using ok by (auto simp: copy_ok_def)
  moreover have "closed (cx s') \<noteq> [] \<longrightarrow> closed (cx s') = [fd_in (cx s'), fd_out (cx s')]"
    using ok by (auto simp: copy_ok_def split: option.splits request.splits)
  ultimately show ?thesis by blast
qed

section \<open>Witnesses\<close>

text \<open>A copy that has read five bytes from descriptor 3 and is writing them to 4.\<close>

definition ref_copy :: copy_st where
  "ref_copy = \<lparr>cx = \<lparr>fd_in = - 1, fd_out = 4, iov_buf = replicate COPY_LEN NUL, iov_len = COPY_LEN,
     pending = Some (R_open ''pipe''), closed = []\<rparr>, expired = False, taken = [], stored = []\<rparr>"

lemma ref_copy_started: "copy_started ''pipe'' ref_copy"
  unfolding copy_started_def
  by (intro exI [of _ "replicate COPY_LEN NUL"]) (simp add: init_event_ctx_def ref_copy_def)

lemma ref_copy_run: "\<exists>s. (copy_step True)\<^sup>*\<^sup>* ref_copy s \<and> pending (cx s) = Some (R_write 4 ''hello'') \<and>
    taken s = ''hello'' \<and> stored s = []"
proof -
  let ?s1 = "ref_copy\<lparr>cx := on_open 3 (cx ref_copy)\<rparr>"
  have "copy_step True ref_copy ?s1"
    by (rule copy_step.opened [of _ "''pipe''"]) (simp add: ref_copy_def)
  moreover have "copy_step True ?s1 (?s1\<lparr>cx := on_read (expired ?s1) (int (length ''hello''))
      ((cx ?s1)\<lparr>iov_buf := overwrite (iov_buf (cx ?s1)) 0 ''hello''\<rparr>), taken := taken ?s1 @ ''hello''\<rparr>)"
    by (rule copy_step.data [of _ 3 COPY_LEN]) (simp_all add: ref_copy_def on_open_def COPY_LEN_def)
  ultimately show ?thesis
    by (intro exI conjI, rule rtranclp.rtrancl_into_rtrancl [OF r_into_rtranclp])
      (auto simp: ref_copy_def callback_defs overwrite_front)
qed

theorem copy_faithful_witness:
  "\<exists>s. (copy_step True)\<^sup>*\<^sup>* ref_copy s \<and> taken s = ''hello'' \<and> prefix (stored s) ''hello''"
  using ref_copy_run copy_faithful [OF ref_copy_started] by metis

theorem short_write_drops_witness:
  "\<exists>(s :: copy_st) (s' :: copy_st). pending (cx s) = Some (R_write 4 ''hello'') \<and> stored s' = ''he'' \<and> taken s' = ''hello'' \<and>
    (\<exists>rest. ''hello'' = ''he'' @ ''llo'' @ rest \<and> prefix (stored s') (''he'' @ rest))"
proof -
  obtain s :: copy_st where s: "pending (cx s) = Some (R_write 4 ''hello'')" "taken s = ''hello''" "stored s = []"
    using ref_copy_run by blast
  let ?s1 = "s\<lparr>cx := on_write (int 2) (cx s), stored := stored s @ take 2 ''hello''\<rparr>"
  from short_write_drops [OF s(1), of 2 ?s1] s show ?thesis
    by (intro exI [of _ s] exI [of _ ?s1]) auto
qed

theorem copy_safe_witness:
  "\<exists>s. (copy_step True)\<^sup>*\<^sup>* ref_copy s \<and> taken s = ''hello'' \<and> length (iov_buf (cx s)) = COPY_LEN"
  using ref_copy_run copy_safe [OF ref_copy_started] by metis

end
