(* ===== verification/RecWorkers.thy ===== *)
theory RecWorkers
  imports RecCopy
begin

text \<open>
  The helper processes of the recorder (recorder/ioworker.c): \<open>iostat\<close> for the disks and \<open>ifstat\<close> for
  the network cards, their argument tables and their start.
\<close>

section \<open>State\<close>

text \<open>
  \<open>struct ioworker\<close> with the descriptor its output goes to, what its process gets for its input, output
  and error output, and the arguments it runs with; and the
  part of \<open>struct recorder\<close> that is shared: its handles are \<open>sig_handler\<close> (\<open>None\<close> when stopped, else
  whether the handler is the one that cleans up) and \<open>expire_handler\<close>.
\<close>

datatype stdio = UV_IGNORE | UV_INHERIT_FD int

record ioworker =
  w_fd :: int
  child_stdio :: "stdio list"
  w_args :: "string list"

record recorder =
  r_conf :: config
  sig_handler :: "bool option"
  expire_handler :: bool
  r_expired :: bool
  events :: "event_ctx list"
  workers :: "ioworker list"
  worker_count :: nat

datatype iotype = DISK | NIC

fun iotype_index :: "iotype \<Rightarrow> nat" where
  "iotype_index DISK = 0"
| "iotype_index NIC = 1"

section \<open>The argument tables\<close>

definition cal_worker_count :: "nat \<Rightarrow> string option \<Rightarrow> nat" where
  "cal_worker_count count dev_list = (case dev_list of None \<Rightarrow> count | Some _ \<Rightarrow> count + 1)"

definition set_argv :: "nat \<Rightarrow> string list \<Rightarrow> config \<Rightarrow> config option" where
  "set_argv i args cf =
     (if i < length (argv cf) then Some (cf\<lparr>argv := (argv cf)[i := Some args]\<rparr>) else None)"

definition build_disk_worker_args :: "config \<Rightarrow> config option" where
  "build_disk_worker_args cf =
     (case disk_list cf of None \<Rightarrow> Some cf | Some d \<Rightarrow> set_argv 0 [''iostat'', d, ''-d'', ''1''] cf)"

definition build_nic_worker_args :: "config \<Rightarrow> config option" where
  "build_nic_worker_args cf =
     (case nic_list cf of None \<Rightarrow> Some cf | Some n \<Rightarrow> set_argv 1 [''ifstat'', ''-i'', n] cf)"

section \<open>Starting the processes\<close>

text \<open>\<open>__setup_ioworkers\<close>: the result of its \<open>uv_spawn\<close> is ignored.\<close>

definition do_setup_ioworkers :: "uvapi \<Rightarrow> config \<Rightarrow> recorder \<Rightarrow> string option \<Rightarrow> iotype \<Rightarrow> sysop list
    \<Rightarrow> (recorder \<times> sysop list) uvrun" where
  "do_setup_ioworkers V cf rec dlist t log =
     (case dlist of
        None \<Rightarrow> Inr (rec, log)
      | Some d \<Rightarrow>
          let i = worker_count rec in
          if length (workers rec) \<le> i then Inl (Undefined OutOfBounds, log)
          else res_bind (create_instance_output V (output_dir cf) d log) (\<lambda>log1.
            let fname = get_instance_output (output_dir cf) d;
                fd = open_ret V log1 fname; log2 = log1 @ [Open_out fname] in
            if fd < 0 then Inl (Exit 1, log2)
            else if length (argv cf) \<le> iotype_index t then Inl (Undefined OutOfBounds, log2)
            else (case argv cf ! iotype_index t of
                None \<Rightarrow> Inl (Undefined NullDeref, log2)
              | Some args \<Rightarrow>
                  Inr (rec\<lparr>worker_count := Suc i,
                           workers := (workers rec)[i := \<lparr>w_fd = fd, child_stdio = [UV_IGNORE, UV_INHERIT_FD fd, UV_IGNORE], w_args = args\<rparr>]\<rparr>,
                       log2 @ [Spawn i args]))))"

text \<open>The arrays of \<open>calloc\<close> hold null pointers and zeros; zero is the flag \<open>UV_IGNORE\<close>.\<close>

definition calloc_worker :: ioworker where
  "calloc_worker = \<lparr>w_fd = 0, child_stdio = replicate 3 UV_IGNORE, w_args = []\<rparr>"

definition setup_ioworkers :: "uvapi \<Rightarrow> config \<Rightarrow> recorder \<Rightarrow> sysop list
    \<Rightarrow> (config \<times> recorder \<times> sysop list) uvrun" where
  "setup_ioworkers V cf rec log =
     (let n = cal_worker_count (cal_worker_count 0 (disk_list cf)) (nic_list cf) in
      if n = 0 then Inr (cf, rec, log)
      else case build_disk_worker_args (cf\<lparr>argv := replicate n None\<rparr>) of
        None \<Rightarrow> Inl (Undefined OutOfBounds, log)
      | Some cf1 \<Rightarrow> (case build_nic_worker_args cf1 of
          None \<Rightarrow> Inl (Undefined OutOfBounds, log)
        | Some cf2 \<Rightarrow>
            res_bind (do_setup_ioworkers V cf2 (rec\<lparr>workers := replicate n calloc_worker\<rparr>)
                        (disk_list cf2) DISK log) (\<lambda>(rec1, log1).
            res_bind (do_setup_ioworkers V cf2 rec1 (nic_list cf2) NIC log1) (\<lambda>(rec2, log2).
              Inr (cf2, rec2, log2)))))"

text \<open>The loop of \<open>record_ioworkers\<close>, from the last worker to the first.\<close>

fun spawn_workers :: "uvapi \<Rightarrow> recorder \<Rightarrow> nat \<Rightarrow> sysop list \<Rightarrow> (int \<times> sysop list) uvrun" where
  "spawn_workers V rec 0 log = Inr (0, log)"
| "spawn_workers V rec (Suc i) log =
     (if length (workers rec) \<le> i then Inl (Undefined OutOfBounds, log)
      else let r = spawn_ret V log i; log' = log @ [Spawn i (w_args (workers rec ! i))] in
      if r \<noteq> 0 then Inr (- 1, log') else spawn_workers V rec i log')"

definition record_ioworkers :: "uvapi \<Rightarrow> recorder \<Rightarrow> sysop list \<Rightarrow> (int \<times> sysop list) uvrun" where
  "record_ioworkers V rec log = spawn_workers V rec (worker_count rec) log"

text \<open>
  \<open>close_process_handle\<close>, the callback on the exit of a process of worker \<open>i\<close>: its output descriptor and
  its handle are closed. The result of \<open>uv_fs_close\<close> is not looked at.
\<close>

definition close_process_handle :: "recorder \<Rightarrow> nat \<Rightarrow> sysop list \<Rightarrow> sysop list uvrun" where
  "close_process_handle rec i log =
     (if length (workers rec) \<le> i then Inl (Undefined OutOfBounds, log)
      else Inr (log @ [Close_fd (w_fd (workers rec ! i)), Close_process i]))"

text \<open>A system where every call succeeds, and a recorder before its workers are set up.\<close>

definition ref_uvapi :: uvapi where
  "ref_uvapi = \<lparr>mkdir_ret = (\<lambda>_ _. 0), open_ret = (\<lambda>l _. int (length l) + 3),
     write_ret = (\<lambda>_ _ d. int (length d)), close_ret = (\<lambda>_ _. 0), spawn_ret = (\<lambda>_ _. 0)\<rparr>"

definition ref_recorder :: recorder where
  "ref_recorder = \<lparr>r_conf = init_config 2, sig_handler = None, expire_handler = False, r_expired = False,
     events = [], workers = [], worker_count = 0\<rparr>"

section \<open>Properties\<close>

text \<open>
  With network cards but no disks the table of argument lists has one slot and the second is
  written: memory outside the table is overwritten before any process is started.
\<close>

theorem nic_only_overflow:
  assumes "disk_list cf = None" and "nic_list cf = Some n"
  shows "setup_ioworkers V cf rec log = Inl (Undefined OutOfBounds, log)"
  using assms
  by (simp add: setup_ioworkers_def cal_worker_count_def build_disk_worker_args_def
      build_nic_worker_args_def set_argv_def)

theorem nic_only_overflow_witness:
  "\<exists>cf. parse_opts (init_config 2) [''recorder'', ''-f'', ''x'', ''-n'', ''eth0''] = Inr cf \<and>
     setup_ioworkers ref_uvapi cf ref_recorder [] = Inl (Undefined OutOfBounds, [])"
proof -
  let ?cf = "(init_config 2)\<lparr>filter_expr := Some ''x'', nic_list := Some ''eth0''\<rparr>"
  have "parse_opts (init_config 2) [''recorder'', ''-f'', ''x'', ''-n'', ''eth0''] = Inr ?cf"
    by (simp add: parse_opts_def opt_string_def)
  moreover have "disk_list ?cf = None" "nic_list ?cf = Some ''eth0''"
    by (simp_all add: init_config_sel)
  ultimately show ?thesis using nic_only_overflow [of ?cf "''eth0''" ref_uvapi ref_recorder "[]"] by blast
qed

text \<open>The argument lists worker \<open>i\<close> was started with.\<close>

definition spawns :: "nat \<Rightarrow> sysop list \<Rightarrow> string list list" where
  "spawns i log = [a. Spawn j a \<leftarrow> log, j = i]"

lemma spawns_simps [simp]:
  "spawns i [] = []" "spawns i (l @ l') = spawns i l @ spawns i l'"
  "spawns i (Spawn j a # l) = (if j = i then a # spawns i l else spawns i l)"
  "spawns i (Mkdir d # l) = spawns i l" "spawns i (Open_out d # l) = spawns i l"
  by (simp_all add: spawns_def)

lemma spawn_workers_spawns:
  "spawn_workers V rec n log = Inr (0, log') \<Longrightarrow>
   spawns i log' = spawns i log @ (if i < n then [w_args (workers rec ! i)] else [])"
proof (induction V rec n log rule: spawn_workers.induct)
  case (2 V rec k log)
  then show ?case by (auto simp: Let_def less_Suc_eq split: if_splits)
qed simp

lemma make_dir_spawns: "make_dir V d log = Inr log' \<Longrightarrow> spawns i log' = spawns i log"
  by (auto simp: make_dir_def Let_def split: if_splits)

lemma setup_worker_spawns:
  assumes "do_setup_ioworkers V cf rec dlist t log = Inr (rec', log')"
  shows "(dlist = None \<and> rec' = rec \<and> log' = log) \<or>
    (worker_count rec' = Suc (worker_count rec) \<and> worker_count rec < length (workers rec) \<and>
     length (workers rec') = length (workers rec) \<and>
     (\<forall>i. i \<noteq> worker_count rec \<longrightarrow> workers rec' ! i = workers rec ! i) \<and>
     (\<forall>i. spawns i log' = spawns i log @
        (if i = worker_count rec then [w_args (workers rec' ! i)] else [])))"
  using assms
  by (auto simp: do_setup_ioworkers_def create_instance_output_def Let_def res_bind_Inr_iff
      make_dir_spawns split: option.splits if_splits)

lemma setup_worker_output:
  assumes "do_setup_ioworkers V cf rec (Some d) t log = Inr (rec', log')"
  shows "\<exists>l fd. fd = open_ret V l (get_instance_output (output_dir cf) d) \<and> 0 \<le> fd \<and>
    w_fd (workers rec' ! worker_count rec) = fd \<and>
    child_stdio (workers rec' ! worker_count rec) = [UV_IGNORE, UV_INHERIT_FD fd, UV_IGNORE]"
  using assms
  by (auto simp: do_setup_ioworkers_def Let_def res_bind_Inr_iff split: if_splits option.splits)
    (metis not_less)

lemma build_args_frame:
  "build_disk_worker_args cf = Some cf' \<Longrightarrow> output_dir cf' = output_dir cf \<and> disk_list cf' = disk_list cf"
  "build_nic_worker_args cf = Some cf' \<Longrightarrow> output_dir cf' = output_dir cf \<and> disk_list cf' = disk_list cf"
  by (auto simp: build_disk_worker_args_def build_nic_worker_args_def set_argv_def split: option.splits if_splits)

text \<open>
  The process that watches the disks writes its output into the file opened for them and has
  neither an input nor an error output; when it exits, that descriptor and its handle are closed.
\<close>

theorem worker_output:
  assumes "worker_count rec = 0" and "disk_list cf = Some d"
    and "setup_ioworkers V cf rec log = Inr (cf', rec', log1)"
  shows "\<exists>l fd. fd = open_ret V l (get_instance_output (output_dir cf) d) \<and> 0 \<le> fd \<and>
    child_stdio (workers rec' ! 0) = [UV_IGNORE, UV_INHERIT_FD fd, UV_IGNORE] \<and>
    (\<forall>log. close_process_handle rec' 0 log = Inr (log @ [Close_fd fd, Close_process 0]))"
proof -
  from assms(2,3) obtain n cf1 cf2 rec1 l1 where
    b: "build_disk_worker_args (cf\<lparr>argv := n\<rparr>) = Some cf1" "build_nic_worker_args cf1 = Some cf2" and
    d: "do_setup_ioworkers V cf2 (rec\<lparr>workers := replicate (length n) calloc_worker\<rparr>) (disk_list cf2) DISK log = Inr (rec1, l1)" and
    nic: "do_setup_ioworkers V cf2 rec1 (nic_list cf2) NIC l1 = Inr (rec', log1)"
    by (auto simp: setup_ioworkers_def Let_def res_bind_Inr_iff cal_worker_count_def split: option.splits if_splits)
  have cf2: "output_dir cf2 = output_dir cf" "disk_list cf2 = Some d"
    using build_args_frame(1) [OF b(1)] build_args_frame(2) [OF b(2)] assms(2) by simp_all
  from setup_worker_output [OF d [unfolded cf2(2)]] cf2(1) assms(1) obtain l fd where
    fd: "fd = open_ret V l (get_instance_output (output_dir cf) d)" "0 \<le> fd" "w_fd (workers rec1 ! 0) = fd"
      "child_stdio (workers rec1 ! 0) = [UV_IGNORE, UV_INHERIT_FD fd, UV_IGNORE]" by auto
  from setup_worker_spawns [OF d] setup_worker_spawns [OF nic] cf2(2) assms(1) have
    "workers rec' ! 0 = workers rec1 ! 0" "0 < length (workers rec')" by auto
  with fd show ?thesis by (intro exI [of _ l] exI [of _ fd]) (simp add: close_process_handle_def)
qed

text \<open>
  Every worker that is set up and then recorded has been started twice with the same arguments:
  once while it was set up and once more with the others. The single handle a worker has keeps
  the second process only.
\<close>

theorem workers_started_twice:
  assumes "worker_count rec = 0" and "\<forall>i. spawns i log = []"
    and "setup_ioworkers V cf rec log = Inr (cf', rec', log1)"
    and "record_ioworkers V rec' log1 = Inr (0, log2)" and "i < worker_count rec'"
  shows "spawns i log2 = [w_args (workers rec' ! i), w_args (workers rec' ! i)]"
proof -
  have "spawns i log1 = [w_args (workers rec' ! i)]"
  proof (cases "cal_worker_count (cal_worker_count 0 (disk_list cf)) (nic_list cf) = 0")
    case True
    with assms(1,3,5) show ?thesis by (simp add: setup_ioworkers_def)
  next
    case False
    with assms(3) obtain cf2 rec0 rec1 l1 where
      "do_setup_ioworkers V cf2 rec0 (disk_list cf2) DISK log = Inr (rec1, l1)"
      "do_setup_ioworkers V cf2 rec1 (nic_list cf2) NIC l1 = Inr (rec', log1)"
      "worker_count rec0 = worker_count rec"
      by (auto simp: setup_ioworkers_def Let_def res_bind_Inr_iff split: option.splits)
    with setup_worker_spawns [of V cf2 rec0 "disk_list cf2" DISK log rec1 l1]
      setup_worker_spawns [of V cf2 rec1 "nic_list cf2" NIC l1 rec' log1] assms(1,2,5)
    show ?thesis by (auto simp: less_Suc_eq)
  qed
  with spawn_workers_spawns [of V rec' "worker_count rec'" log1 log2 i] assms(4,5)
  show ?thesis by (simp add: record_ioworkers_def)
qed

theorem workers_started_twice_witness:
  "\<exists>cf' rec' log1 log2. setup_ioworkers ref_uvapi ((init_config 2)\<lparr>disk_list := Some ''sda''\<rparr>) ref_recorder []
      = Inr (cf', rec', log1) \<and> record_ioworkers ref_uvapi rec' log1 = Inr (0, log2) \<and>
    spawns 0 log2 = [[''iostat'', ''sda'', ''-d'', ''1''], [''iostat'', ''sda'', ''-d'', ''1'']]"
proof -
  let ?cf = "(init_config 2)\<lparr>disk_list := Some ''sda''\<rparr>"
  have "\<exists>cf' rec' log1 log2. setup_ioworkers ref_uvapi ?cf ref_recorder [] = Inr (cf', rec', log1) \<and>
      record_ioworkers ref_uvapi rec' log1 = Inr (0, log2) \<and> worker_count rec' = 1 \<and>
      w_args (workers rec' ! 0) = [''iostat'', ''sda'', ''-d'', ''1'']"
    by (simp add: setup_ioworkers_def init_config_sel cal_worker_count_def build_disk_worker_args_def
        build_nic_worker_args_def set_argv_def do_setup_ioworkers_def create_instance_output_def make_dir_def
        ref_uvapi_def ref_recorder_def record_ioworkers_def Let_def)
  then obtain cf' rec' log1 log2 where r: "setup_ioworkers ref_uvapi ?cf ref_recorder [] = Inr (cf', rec', log1)"
    "record_ioworkers ref_uvapi rec' log1 = Inr (0, log2)" "worker_count rec' = 1"
    "w_args (workers rec' ! 0) = [''iostat'', ''sda'', ''-d'', ''1'']" by blast
  have "worker_count ref_recorder = 0" "\<forall>i. spawns i [] = []" by (simp_all add: ref_recorder_def)
  from workers_started_twice [OF this r(1,2), of 0] r show ?thesis by auto
qed

theorem worker_output_witness:
  "\<exists>cf' rec' log1. setup_ioworkers ref_uvapi ((init_config 2)\<lparr>disk_list := Some ''sda''\<rparr>) ref_recorder []
      = Inr (cf', rec', log1) \<and> length (child_stdio (workers rec' ! 0)) = 3"
proof -
  let ?cf = "(init_config 2)\<lparr>disk_list := Some ''sda''\<rparr>"
  obtain cf' rec' log1 where r: "setup_ioworkers ref_uvapi ?cf ref_recorder [] = Inr (cf', rec', log1)"
    by (simp add: setup_ioworkers_def init_config_sel cal_worker_count_def build_disk_worker_args_def
        build_nic_worker_args_def set_argv_def do_setup_ioworkers_def create_instance_output_def make_dir_def
        ref_uvapi_def ref_recorder_def Let_def)
  have "worker_count ref_recorder = 0" "disk_list ?cf = Some ''sda''" by (simp_all add: ref_recorder_def)
  from worker_output [OF this r] r show ?thesis by auto
qed

end
