(* ===== verification/RecLoop.thy ===== *)
theory RecLoop
  imports RecWorkers
begin

text \<open>
  The life of the recorder (recorder/recorder.c and \<open>main\<close> of recorder/main.c, \<open>record_events\<close> of
  recorder/event.c): the start up to the event loop, the two ways to stop, and what keeps the loop
  running.
\<close>

section \<open>Starting the copies\<close>

text \<open>
  The turns of the loop of \<open>record_events\<close>; \<open>bufs i\<close> is the memory for the buffer of event \<open>i\<close>, and
  libuv stops the program when it is given no path.
\<close>

fun open_events :: "uvapi \<Rightarrow> (nat \<Rightarrow> string option) \<Rightarrow> config \<Rightarrow> nat list \<Rightarrow> sysop list
    \<Rightarrow> (event_ctx list \<times> sysop list) uvrun" where
  "open_events V bufs cf [] log = Inr ([], log)"
| "open_events V bufs cf (i # is) log =
     (case init_event_ctx (bufs i) of
        None \<Rightarrow> Inl (Abort, log)
      | Some e \<Rightarrow>
          if length (instances_out cf) \<le> i \<or> length (instances_in cf) \<le> i then Inl (Undefined OutOfBounds, log)
          else (case instances_out cf ! i of
              None \<Rightarrow> Inl (Abort, log)
            | Some out \<Rightarrow>
                let fd = open_ret V log out; log1 = log @ [Open_out out] in
                (case instances_in cf ! i of
                   None \<Rightarrow> Inl (Abort, log1)
                 | Some p \<Rightarrow>
                     res_bind (open_events V bufs cf is (log1 @ [Open_in p])) (\<lambda>(es, log').
                       Inr (e\<lparr>fd_out := fd, pending := Some (R_open p)\<rparr> # es, log')))))"

definition record_events :: "uvapi \<Rightarrow> bool \<Rightarrow> (nat \<Rightarrow> string option) \<Rightarrow> recorder \<Rightarrow> sysop list
    \<Rightarrow> (int \<times> recorder \<times> sysop list) uvrun" where
  "record_events V mem bufs rec log =
     (if \<not> mem then Inr (- 1, rec, log)
      else res_bind (open_events V bufs (r_conf rec) [0..<instances_num (r_conf rec)] log)
             (\<lambda>(es, log'). Inr (0, rec\<lparr>events := es\<rparr>, log')))"

section \<open>Stopping\<close>

fun kill_workers :: "nat \<Rightarrow> sysop list" where
  "kill_workers 0 = []"
| "kill_workers (Suc i) = Kill i # kill_workers i"

text \<open>\<open>cleanup\<close> of recorder.c.\<close>

definition recorder_cleanup :: "uvapi \<Rightarrow> recorder \<Rightarrow> sysop list \<Rightarrow> (recorder \<times> sysop list) uvrun" where
  "recorder_cleanup V rec log =
     (let rec1 = rec\<lparr>r_expired := True\<rparr>; log1 = log @ kill_workers (worker_count rec) in
      res_bind (write_debugfs V (iov_of ''0'') get_instance_enable log1) (\<lambda>log2.
      res_bind (write_debugfs V (iov_of ''0'') get_instance_filter log2) (\<lambda>log3. Inr (rec1, log3))))"

text \<open>
  \<open>sig_ignore\<close>, the handler until the set-up is done, only prints; the event loop, which makes the calls,
  does not run before that.
\<close>

definition sig_ignore :: "recorder \<Rightarrow> sysop list \<Rightarrow> (recorder \<times> sysop list) uvrun" where
  "sig_ignore rec log = Inr (rec, log)"

definition sig_cleanup :: "uvapi \<Rightarrow> recorder \<Rightarrow> sysop list \<Rightarrow> (recorder \<times> sysop list) uvrun" where
  "sig_cleanup V rec log =
     res_bind (recorder_cleanup V rec log) (\<lambda>(rec', log').
       Inr (rec'\<lparr>expire_handler := False\<rparr>, log' @ [Timer_stop]))"

definition timer_expire :: "uvapi \<Rightarrow> recorder \<Rightarrow> sysop list \<Rightarrow> (recorder \<times> sysop list) uvrun" where
  "timer_expire V rec log =
     res_bind (recorder_cleanup V rec log) (\<lambda>(rec', log').
       Inr (rec'\<lparr>sig_handler := None\<rparr>, log' @ [Signal_stop]))"

section \<open>Running\<close>

text \<open>
  Up to \<open>uv_run\<close>: \<open>None\<close> when it is reached, else the early result. The copy of the configuration in
  \<open>recorder\<close> is taken first; it shares the two arrays of paths that are filled afterwards.
\<close>

definition recorder_run :: "uvapi \<Rightarrow> bool \<Rightarrow> (nat \<Rightarrow> string option) \<Rightarrow> config
    \<Rightarrow> (int option \<times> recorder \<times> sysop list) uvrun" where
  "recorder_run V mem bufs cf =
     (let rec = \<lparr>r_conf = cf, sig_handler = Some False, expire_handler = False, r_expired = False,
                 events = [], workers = [], worker_count = 0\<rparr> in
      res_bind (setup_event_instances V cf basedir instances [Signal_start False]) (\<lambda>(cf1, log1).
      let rec1 = rec\<lparr>r_conf := cf\<lparr>instances_in := instances_in cf1, instances_out := instances_out cf1\<rparr>\<rparr> in
      res_bind (setup_ioworkers V cf1 rec1 log1) (\<lambda>(cf2, rec2, log2).
      res_bind (set_instances_bufsize V cf2 log2) (\<lambda>log3.
      res_bind (set_filter_and_enable V cf2 log3) (\<lambda>log4.
      res_bind (record_events V mem bufs (rec2\<lparr>sig_handler := Some True\<rparr>) (log4 @ [Signal_start True]))
        (\<lambda>(err, rec3, log5).
      if err \<noteq> 0 then Inr (Some (- 1), rec3, log5)
      else res_bind (record_ioworkers V rec3 log5) (\<lambda>(err, log6).
      if err \<noteq> 0 then Inr (Some (- 1), rec3, log6)
      else Inr (None, rec3\<lparr>expire_handler := True\<rparr>, log6 @ [Timer_start (timeout cf2)]))))))))"

definition recorder_main :: "uvapi \<Rightarrow> bool \<Rightarrow> (nat \<Rightarrow> string option) \<Rightarrow> string list
    \<Rightarrow> (recorder \<times> sysop list) uvrun" where
  "recorder_main V mem bufs args =
     (case parse_opts (init_config event_instances) args of
        Inl h \<Rightarrow> Inl (h, [])
      | Inr cf \<Rightarrow> res_bind (recorder_run V mem bufs cf) (\<lambda>(err, rec, log).
          if err = None then Inr (rec, log) else Inl (Exit 1, log)))"

section \<open>What a log says about the control files\<close>

text \<open>The control files written, in order, and the pipes asked for.\<close>

fun ctl_writes :: "sysop list \<Rightarrow> (string \<times> string) list" where
  "ctl_writes [] = []"
| "ctl_writes (Open_rw f # Write_fd fd d # l) = (f, d) # ctl_writes l"
| "ctl_writes (_ # l) = ctl_writes l"

definition pipes :: "sysop list \<Rightarrow> string list" where
  "pipes log = [p. Open_in p \<leftarrow> log]"

text \<open>A part of a log that ends no write in its middle, with its writes and pipes.\<close>

definition whole :: "sysop list \<Rightarrow> bool" where
  "whole t \<longleftrightarrow> (\<forall>l. ctl_writes (t @ l) = ctl_writes t @ ctl_writes l)"

definition adds :: "sysop list \<Rightarrow> sysop list \<Rightarrow> (string \<times> string) list \<Rightarrow> string list \<Rightarrow> bool" where
  "adds log log' ws ps \<longleftrightarrow> (\<exists>t. log' = log @ t \<and> whole t \<and> ctl_writes t = ws \<and> pipes t = ps)"

lemma pipes_append [simp]: "pipes (l @ l') = pipes l @ pipes l'" "pipes [] = []"
  by (simp_all add: pipes_def)

lemma adds_refl: "adds log log [] []"
  by (simp add: adds_def whole_def)

lemma adds_trans:
  assumes "adds a b ws ps" and "adds b c ws' ps'"
  shows "adds a c (ws @ ws') (ps @ ps')"
proof -
  obtain t t' where t: "b = a @ t" "whole t" "ctl_writes t = ws" "pipes t = ps"
    and t': "c = b @ t'" "whole t'" "ctl_writes t' = ws'" "pipes t' = ps'"
    using assms by (auto simp: adds_def)
  then show ?thesis
    unfolding adds_def by (intro exI [of _ "t @ t'"]) (simp add: whole_def)
qed

text \<open>An operation that is neither.\<close>

fun plain_op :: "sysop \<Rightarrow> bool" where
  "plain_op (Open_rw f) = False"
| "plain_op (Open_in p) = False"
| "plain_op x = True"

lemma ctl_writes_plain: "\<forall>x \<in> set t. plain_op x \<Longrightarrow> ctl_writes (t @ l) = ctl_writes l"
proof (induction t)
  case (Cons x t)
  then show ?case by (cases x) auto
qed simp

lemma adds_plain:
  assumes "\<forall>x \<in> set t. plain_op x"
  shows "adds log (log @ t) [] []"
proof -
  have "ctl_writes t = []" using ctl_writes_plain [OF assms, of "[]"] by simp
  moreover have "whole t" using ctl_writes_plain [OF assms] calculation by (simp add: whole_def)
  moreover have "pipes t = []"
    using assms by (induction t) (auto simp: pipes_def split: sysop.splits)
  ultimately show ?thesis by (auto simp: adds_def)
qed

lemma adds_pipe: "adds log (log @ [Open_in p]) [] [p]"
  by (simp add: adds_def whole_def pipes_def)

lemma adds_write: "do_write_debugfs V f d log = Inr log' \<Longrightarrow> adds log log' [(f, d)] []"
  by (auto simp: do_write_debugfs_def Let_def adds_def whole_def pipes_def split: if_splits)

lemma adds_write_list: "write_list V ws log = Inr log' \<Longrightarrow> adds log log' ws []"
proof (induction ws arbitrary: log)
  case Nil
  then show ?case by (simp add: adds_refl)
next
  case (Cons w ws)
  then obtain f d l where l: "w = (f, d)" "do_write_debugfs V f d log = Inr l" "write_list V ws l = Inr log'"
    by (cases w) (auto simp: res_bind_Inr_iff)
  with adds_trans [OF adds_write [OF l(2)] Cons.IH [OF l(3)]] show ?case by simp
qed

text \<open>A step that adds nothing of interest.\<close>

abbreviation quiet :: "sysop list \<Rightarrow> sysop list \<Rightarrow> bool" where
  "quiet log log' \<equiv> adds log log' [] []"

lemma quiet_trans: "quiet a b \<Longrightarrow> quiet b c \<Longrightarrow> quiet a c"
  using adds_trans by fastforce

lemma quiet_make_dir: "make_dir V d log = Inr log' \<Longrightarrow> quiet log log'"
  by (auto simp: make_dir_def Let_def split: if_splits intro: adds_plain)

lemma quiet_setup_instances:
  "setup_instances V base p is cf log = Inr (cf', log') \<Longrightarrow> quiet log log' \<and> filter_expr cf' = filter_expr cf \<and>
     bufsize_kb cf' = bufsize_kb cf \<and> timeout cf' = timeout cf"
proof (induction V base p "is" cf log arbitrary: log' rule: setup_instances.induct)
  case (3 V base n p i "is" cf log)
  from "3.prems" obtain log1 log2 where l: "create_instance_dir V base n log = Inr log1"
    "create_instance_output V (output_dir cf) n log1 = Inr log2"
    "i < length (instances_in cf) \<and> i < length (instances_out cf)"
    by (auto simp: res_bind_Inr_iff split: if_splits)
  let ?cf = "cf\<lparr>instances_in := (instances_in cf)[i := Some (get_instance_input base n)],
      instances_out := (instances_out cf)[i := Some (get_instance_output (output_dir cf) n)]\<rparr>"
  have q: "quiet log log2"
    using quiet_trans [OF quiet_make_dir quiet_make_dir] l(1,2)
    by (simp add: create_instance_dir_def create_instance_output_def)
  have "setup_instances V base p is ?cf log2 = Inr (cf', log')"
    using "3.prems" l by simp
  from "3.IH" [OF l(3) this] show ?case using quiet_trans [OF q] by simp
qed (auto simp: adds_refl)

lemma setup_instances_paths:
  "setup_instances V base p is cf log = Inr (cf', log') \<Longrightarrow> distinct is \<Longrightarrow>
   (\<forall>k. k \<notin> set is \<longrightarrow> instances_in cf' ! k = instances_in cf ! k) \<and>
   (\<forall>j < length is. instances_in cf' ! (is ! j) = Some (get_instance_input base (p ! j)))"
proof (induction V base p "is" cf log arbitrary: log' rule: setup_instances.induct)
  case (3 V base n p i "is" cf log)
  let ?cf = "cf\<lparr>instances_in := (instances_in cf)[i := Some (get_instance_input base n)],
      instances_out := (instances_out cf)[i := Some (get_instance_output (output_dir cf) n)]\<rparr>"
  from "3.prems" obtain log2 where i: "i < length (instances_in cf) \<and> i < length (instances_out cf)"
    and r: "setup_instances V base p is ?cf log2 = Inr (cf', log')"
    by (auto simp: res_bind_Inr_iff split: if_splits)
  from "3.IH" [OF i r] "3.prems"(2) i show ?case
    by (auto simp: nth_Cons' less_Suc_eq_0_disj)
qed auto

lemma quiet_setup_event_instances:
  "setup_event_instances V cf base p log = Inr (cf', log') \<Longrightarrow> quiet log log' \<and> filter_expr cf' = filter_expr cf \<and>
     bufsize_kb cf' = bufsize_kb cf \<and> timeout cf' = timeout cf"
  using quiet_setup_instances quiet_make_dir quiet_trans
  by (fastforce simp: setup_event_instances_def res_bind_Inr_iff)

lemma quiet_do_setup_ioworkers:
  "do_setup_ioworkers V cf rec dlist t log = Inr (rec', log') \<Longrightarrow>
   quiet log log' \<and> r_conf rec' = r_conf rec \<and> r_expired rec' = r_expired rec"
proof -
  assume r: "do_setup_ioworkers V cf rec dlist t log = Inr (rec', log')"
  show ?thesis
  proof (cases dlist)
    case None
    with r show ?thesis by (simp add: do_setup_ioworkers_def adds_refl)
  next
    case (Some d)
    with r obtain log1 f a where l: "make_dir V (instance_output_dir (output_dir cf) d) log = Inr log1"
      "log' = log1 @ [Open_out f, Spawn (worker_count rec) a]"
      and same: "r_conf rec' = r_conf rec" "r_expired rec' = r_expired rec"
      by (auto simp: do_setup_ioworkers_def create_instance_output_def Let_def res_bind_Inr_iff
          split: if_splits option.splits)
    have "quiet log1 log'" unfolding l(2) by (rule adds_plain) simp
    with quiet_make_dir [OF l(1)] quiet_trans same show ?thesis by blast
  qed
qed

lemma set_argv_same:
  "set_argv i a cf = Some cf' \<Longrightarrow> filter_expr cf' = filter_expr cf \<and> bufsize_kb cf' = bufsize_kb cf \<and> timeout cf' = timeout cf"
  by (auto simp: set_argv_def split: if_splits)

lemma build_args_same:
  "build_disk_worker_args cf = Some cf' \<Longrightarrow> filter_expr cf' = filter_expr cf \<and> bufsize_kb cf' = bufsize_kb cf \<and> timeout cf' = timeout cf"
  "build_nic_worker_args cf = Some cf' \<Longrightarrow> filter_expr cf' = filter_expr cf \<and> bufsize_kb cf' = bufsize_kb cf \<and> timeout cf' = timeout cf"
  using set_argv_same
  by (auto simp: build_disk_worker_args_def build_nic_worker_args_def split: option.splits)

lemma quiet_setup_ioworkers:
  assumes "setup_ioworkers V cf rec log = Inr (cf', rec', log')"
  shows "quiet log log' \<and> filter_expr cf' = filter_expr cf \<and> bufsize_kb cf' = bufsize_kb cf \<and>
    timeout cf' = timeout cf \<and> r_conf rec' = r_conf rec \<and> r_expired rec' = r_expired rec"
proof (cases "cal_worker_count (cal_worker_count 0 (disk_list cf)) (nic_list cf) = 0")
  case True
  with assms show ?thesis by (simp add: setup_ioworkers_def adds_refl)
next
  case False
  let ?n = "cal_worker_count (cal_worker_count 0 (disk_list cf)) (nic_list cf)"
  from False assms obtain cf1 rec1 l1 where
    b: "build_disk_worker_args (cf\<lparr>argv := replicate ?n None\<rparr>) = Some cf1" "build_nic_worker_args cf1 = Some cf'"
    and d: "do_setup_ioworkers V cf' (rec\<lparr>workers := replicate ?n calloc_worker\<rparr>)
        (disk_list cf') DISK log = Inr (rec1, l1)"
      "do_setup_ioworkers V cf' rec1 (nic_list cf') NIC l1 = Inr (rec', log')"
    by (auto simp: setup_ioworkers_def Let_def res_bind_Inr_iff split: option.splits)
  show ?thesis
    using build_args_same(1) [OF b(1)] build_args_same(2) [OF b(2)]
      quiet_do_setup_ioworkers [OF d(1)] quiet_do_setup_ioworkers [OF d(2)] quiet_trans by auto
qed

lemma quiet_spawn_workers: "spawn_workers V rec n log = Inr (r, log') \<Longrightarrow> quiet log log'"
proof (induction V rec n log rule: spawn_workers.induct)
  case (2 V rec i log)
  have "quiet log (log @ [Spawn i (w_args (workers rec ! i))])" by (rule adds_plain) simp
  with 2 quiet_trans show ?case by (auto simp: Let_def split: if_splits)
qed (simp add: adds_refl)

lemma adds_open_events:
  "open_events V bufs cf is log = Inr (es, log') \<Longrightarrow>
   adds log log' [] (map (\<lambda>i. the (instances_in cf ! i)) is)"
proof (induction V bufs cf "is" log arbitrary: es log' rule: open_events.induct)
  case (2 V bufs cf i "is" log)
  then obtain e out p es' where e: "init_event_ctx (bufs i) = Some e" "instances_out cf ! i = Some out"
    "instances_in cf ! i = Some p" "\<not> (length (instances_out cf) \<le> i \<or> length (instances_in cf) \<le> i)"
    "open_events V bufs cf is ((log @ [Open_out out]) @ [Open_in p]) = Inr (es', log')"
    by (auto simp: Let_def res_bind_Inr_iff split: option.splits if_splits)
  have "adds (log @ [Open_out out]) log' [] (map (\<lambda>i. the (instances_in cf ! i)) (i # is))"
    using adds_trans [OF adds_pipe "2.IH" [OF e(1,4,2) refl refl e(3) e(5)]] e(3) by simp
  with adds_trans [OF adds_plain [of "[Open_out out]" log]] show ?case by fastforce
qed (simp add: adds_refl)

section \<open>Properties\<close>

lemma started_log:
  assumes "recorder_run V mem bufs cf = Inr (None, rec, log)" and "instances_num cf = 2"
  shows "\<exists>e l1. filter_expr cf = Some e \<and> adds [] l1 ([(get_instance_bufsize basedir i, iov_of (bufsize_kb cf)). i \<leftarrow> instances]
      @ [(f, iov_of e). f \<leftarrow> event_files get_instance_filter]
      @ [(f, iov_of ''1''). f \<leftarrow> event_files get_instance_enable]) [] \<and>
    adds l1 log [] (map (get_instance_input basedir) instances)"
proof -
  let ?rec = "\<lparr>r_conf = cf, sig_handler = Some False, expire_handler = False, r_expired = False,
                 events = [], workers = [], worker_count = 0\<rparr>"
  from assms(1) obtain cf1 log1 cf2 rec2 log2 log3 log4 rec3 log5 log6 where
    a: "setup_event_instances V cf basedir instances [Signal_start False] = Inr (cf1, log1)" and
    b: "setup_ioworkers V cf1 (?rec\<lparr>r_conf := cf\<lparr>instances_in := instances_in cf1, instances_out := instances_out cf1\<rparr>\<rparr>) log1
      = Inr (cf2, rec2, log2)" and
    c: "set_instances_bufsize V cf2 log2 = Inr log3" and
    d: "set_filter_and_enable V cf2 log3 = Inr log4" and
    e: "record_events V mem bufs (rec2\<lparr>sig_handler := Some True\<rparr>) (log4 @ [Signal_start True]) = Inr (0, rec3, log5)" and
    f: "record_ioworkers V rec3 log5 = Inr (0, log6)" and
    g: "log = log6 @ [Timer_start (timeout cf2)]"
    by (auto simp: recorder_run_def Let_def res_bind_Inr_iff split: if_splits)
  note A = quiet_setup_event_instances [OF a] and B = quiet_setup_ioworkers [OF b]
  have s0: "quiet [] [Signal_start False]"
    using adds_plain [of "[Signal_start False]" "[]"] by simp
  have s1: "quiet [] log2"
    using quiet_trans [OF quiet_trans [OF s0 conjunct1 [OF A]] conjunct1 [OF B]] .
  have s2: "adds log2 log3 [(get_instance_bufsize basedir i, iov_of (bufsize_kb cf)). i \<leftarrow> instances] []"
    using adds_write_list c A B by (simp add: set_instances_bufsize_def write_bufsizes_list)
  from d A B obtain x l where x: "filter_expr cf = Some x"
    "write_list V (map (\<lambda>f. (f, iov_of x)) (event_files get_instance_filter)) log3 = Inr l"
    "write_list V (map (\<lambda>f. (f, iov_of ''1'')) (event_files get_instance_enable)) l = Inr log4"
    by (auto simp: set_filter_and_enable_def write_debugfs_list res_bind_Inr_iff split: option.splits)
  note s3 = adds_trans [OF adds_trans [OF s1 s2] adds_trans [OF adds_write_list [OF x(2)] adds_write_list [OF x(3)]]]
  have conf: "instances_num (r_conf rec2) = 2" "instances_in (r_conf rec2) = instances_in cf1"
    using B assms(2) by simp_all
  from e obtain es where es: "open_events V bufs (r_conf rec2) [0..<2] (log4 @ [Signal_start True]) = Inr (es, log5)"
    using conf by (auto simp: record_events_def res_bind_Inr_iff split: if_splits)
  obtain l0 where "setup_instances V basedir instances [0..<2] cf l0 = Inr (cf1, log1)"
    using a assms(2) by (auto simp: setup_event_instances_def res_bind_Inr_iff)
  from setup_instances_paths [OF this]
  have "map (\<lambda>i. the (instances_in cf1 ! i)) [0..<2] = map (get_instance_input basedir) instances"
    by (auto simp: instances_def numeral_2_eq_2 less_Suc_eq all_conj_distrib)
  with adds_open_events [OF es] have s4: "adds (log4 @ [Signal_start True]) log5 [] (map (get_instance_input basedir) instances)"
    unfolding conf by simp
  have s5: "quiet log4 (log4 @ [Signal_start True])" "quiet log6 log"
    unfolding g by (rule adds_plain, simp)+
  have "quiet log5 log"
    using quiet_trans [OF quiet_spawn_workers s5(2)] f by (simp add: record_ioworkers_def)
  from adds_trans [OF adds_trans [OF s5(1) s4] this]
  have "adds log4 log [] (map (get_instance_input basedir) instances)" by simp
  with s3 x(1) show ?thesis by auto
qed

lemma started_timer:
  assumes "recorder_run V mem bufs cf = Inr (None, rec, log)"
  shows "last log = Timer_start (timeout cf) \<and> expire_handler rec"
proof -
  let ?rec = "\<lparr>r_conf = cf, sig_handler = Some False, expire_handler = False, r_expired = False,
                 events = [], workers = [], worker_count = 0\<rparr>"
  from assms obtain cf1 log1 cf2 rec2 log2 log6 where
    a: "setup_event_instances V cf basedir instances [Signal_start False] = Inr (cf1, log1)" and
    b: "setup_ioworkers V cf1 (?rec\<lparr>r_conf := cf\<lparr>instances_in := instances_in cf1, instances_out := instances_out cf1\<rparr>\<rparr>) log1
      = Inr (cf2, rec2, log2)" and
    g: "log = log6 @ [Timer_start (timeout cf2)]" "expire_handler rec"
    by (auto simp: recorder_run_def Let_def res_bind_Inr_iff split: if_splits)
  with quiet_setup_event_instances [OF a] quiet_setup_ioworkers [OF b] show ?thesis by simp
qed

text \<open>
  C20: A start that reaches the event loop has written, in this order and nothing else: the buffer
  size of each instance, the pid filter of all five events, then 1 to the \<open>enable\<close> of all five; only
  after that it asks for the two trace pipes. The filter was given on the command line.
\<close>

theorem start_order:
  assumes "recorder_run V mem bufs cf = Inr (None, rec, log)" and "instances_num cf = 2"
  shows "\<exists>e l1 l2. filter_expr cf = Some e \<and> log = l1 @ l2 \<and>
    ctl_writes l1 = [(get_instance_bufsize basedir i, iov_of (bufsize_kb cf)). i \<leftarrow> instances]
      @ [(f, iov_of e). f \<leftarrow> event_files get_instance_filter]
      @ [(f, iov_of ''1''). f \<leftarrow> event_files get_instance_enable] \<and>
    ctl_writes l2 = [] \<and> pipes l1 = [] \<and> pipes l2 = map (get_instance_input basedir) instances"
proof -
  obtain e l1 where "filter_expr cf = Some e" "adds [] l1 ([(get_instance_bufsize basedir i, iov_of (bufsize_kb cf)). i \<leftarrow> instances]
      @ [(f, iov_of e). f \<leftarrow> event_files get_instance_filter]
      @ [(f, iov_of ''1''). f \<leftarrow> event_files get_instance_enable]) []"
    "adds l1 log [] (map (get_instance_input basedir) instances)"
    using started_log [OF assms] by blast
  then show ?thesis by (auto simp: adds_def)
qed

text \<open>The handles of a recorder that can still call back, and their callbacks.\<close>

inductive loop_step :: "uvapi \<Rightarrow> recorder \<times> sysop list \<Rightarrow> recorder \<times> sysop list \<Rightarrow> bool" for V where
  sigint: "sig_handler rec = Some True \<Longrightarrow> sig_cleanup V rec log = Inr s \<Longrightarrow> loop_step V (rec, log) s"
| expires: "expire_handler rec \<Longrightarrow> timer_expire V (rec\<lparr>expire_handler := False\<rparr>) log = Inr s \<Longrightarrow>
    loop_step V (rec, log) s"

inductive_cases loop_stepE: "loop_step V s s'"

lemma cleanup_log:
  assumes "recorder_cleanup V rec log = Inr (rec', log')"
  shows "rec' = rec\<lparr>r_expired := True\<rparr> \<and>
    adds log log' ([(f, iov_of ''0''). f \<leftarrow> event_files get_instance_enable]
      @ [(f, iov_of ''0''). f \<leftarrow> event_files get_instance_filter]) []"
proof -
  let ?l = "log @ kill_workers (worker_count rec)"
  have "\<forall>x \<in> set (kill_workers n). plain_op x" for n by (induction n) auto
  then have k: "quiet log ?l" by (intro adds_plain) simp
  from assms obtain l where l:
    "write_list V (map (\<lambda>f. (f, iov_of ''0'')) (event_files get_instance_enable)) ?l = Inr l"
    "write_list V (map (\<lambda>f. (f, iov_of ''0'')) (event_files get_instance_filter)) l = Inr log'"
    and "rec' = rec\<lparr>r_expired := True\<rparr>"
    by (auto simp: recorder_cleanup_def Let_def write_debugfs_list res_bind_Inr_iff)
  with adds_trans [OF k adds_trans [OF adds_write_list [OF l(1)] adds_write_list [OF l(2)]]]
  show ?thesis by simp
qed

text \<open>
  C21: Either way of stopping, by the interrupt or by the period's end, marks the recorder expired and
  writes 0 to the \<open>enable\<close> of all five events before it resets the five filters.
\<close>

theorem stop_order:
  assumes "loop_step V (rec, log) (rec', log')"
  shows "r_expired rec' \<and> (\<exists>t. log' = log @ t \<and>
    ctl_writes t = [(f, iov_of ''0''). f \<leftarrow> event_files get_instance_enable]
      @ [(f, iov_of ''0''). f \<leftarrow> event_files get_instance_filter] \<and> pipes t = [])"
proof -
  obtain rec0 rec1 l x where c: "recorder_cleanup V rec0 log = Inr (rec1, l)" "log' = l @ [x]" "plain_op x"
    "r_expired rec' = r_expired rec1"
    using assms by (cases rule: loop_step.cases)
      (auto simp: sig_cleanup_def timer_expire_def res_bind_Inr_iff)
  have "quiet l log'" unfolding c(2) using c(3) by (intro adds_plain) simp
  from adds_trans [OF conjunct2 [OF cleanup_log [OF c(1)]] this] obtain t where "log' = log @ t"
    "ctl_writes t = [(f, iov_of ''0''). f \<leftarrow> event_files get_instance_enable]
      @ [(f, iov_of ''0''). f \<leftarrow> event_files get_instance_filter]" "pipes t = []"
    by (auto simp: adds_def)
  moreover have "r_expired rec'" using cleanup_log [OF c(1)] c(4) by simp
  ultimately show ?thesis by blast
qed

text \<open>
  After the period's end neither the signal nor the timer is active and neither calls back again;
  after an interrupt the signal handle stays active through everything that follows, so the event
  loop, which ends when no handle is active, never ends.
\<close>

theorem stop_handles:
  shows "(timer_expire V (rec\<lparr>expire_handler := False\<rparr>) log = Inr s \<longrightarrow>
      sig_handler (fst s) = None \<and> \<not> expire_handler (fst s) \<and> \<not> loop_step V s s') \<and>
    (sig_handler rec = Some True \<and> sig_cleanup V rec log = Inr s \<and> (loop_step V)\<^sup>*\<^sup>* s s' \<longrightarrow>
      sig_handler (fst s') = Some True)"
proof (intro conjI impI)
  assume "timer_expire V (rec\<lparr>expire_handler := False\<rparr>) log = Inr s"
  then show "sig_handler (fst s) = None" "\<not> expire_handler (fst s)" "\<not> loop_step V s s'"
    using cleanup_log [of V "rec\<lparr>expire_handler := False\<rparr>" log]
    by (auto simp: timer_expire_def res_bind_Inr_iff elim!: loop_stepE)
next
  have keep: "sig_handler rec = Some True \<Longrightarrow> sig_cleanup V rec log = Inr s \<Longrightarrow>
      sig_handler (fst s) = Some True \<and> \<not> expire_handler (fst s)" for rec log s
    using cleanup_log [of V rec log] by (auto simp: sig_cleanup_def res_bind_Inr_iff)
  assume "sig_handler rec = Some True \<and> sig_cleanup V rec log = Inr s \<and> (loop_step V)\<^sup>*\<^sup>* s s'"
  then have "(loop_step V)\<^sup>*\<^sup>* s s'" and s: "sig_handler (fst s) = Some True \<and> \<not> expire_handler (fst s)"
    using keep [of rec log s] by blast+
  from this(1) have "sig_handler (fst s') = Some True \<and> \<not> expire_handler (fst s')"
  proof (induction rule: rtranclp_induct)
    case (step y z)
    then show ?case using keep [of "fst y" "snd y" z] by (auto elim!: loop_stepE)
  qed (rule s)
  then show "sig_handler (fst s') = Some True" ..
qed

section \<open>Witnesses\<close>

text \<open>A start with a pid filter and one disk, every call of libuv succeeding.\<close>

definition ref_args :: "string list" where
  "ref_args = [''recorder'', ''-f'', ''common_pid == 7'', ''-d'', ''sda'']"

definition ref_bufs :: "nat \<Rightarrow> string option" where
  "ref_bufs i = Some (replicate 4 NUL)"

lemma ref_run: "case recorder_run ref_uvapi True ref_bufs ((init_config 2)\<lparr>filter_expr := Some ''x''\<rparr>)
    of Inr (None, rec, log) \<Rightarrow> True | _ \<Rightarrow> False"
  by code_simp

theorem start_order_witness:
  "\<exists>rec log l1 l2. recorder_run ref_uvapi True ref_bufs ((init_config 2)\<lparr>filter_expr := Some ''x''\<rparr>) = Inr (None, rec, log) \<and>
    log = l1 @ l2 \<and> pipes l1 = [] \<and> length (ctl_writes l1) = 12 \<and> length (pipes l2) = 2"
proof -
  obtain rec log where r: "recorder_run ref_uvapi True ref_bufs ((init_config 2)\<lparr>filter_expr := Some ''x''\<rparr>) = Inr (None, rec, log)"
    using ref_run by (auto split: sum.splits option.splits)
  have "instances_num ((init_config 2)\<lparr>filter_expr := Some ''x''\<rparr>) = 2" by (simp add: init_config_def)
  from start_order [OF r this] obtain e l1 l2 where "log = l1 @ l2" "pipes l1 = []"
    "ctl_writes l1 = [(get_instance_bufsize basedir i, iov_of (bufsize_kb ((init_config 2)\<lparr>filter_expr := Some ''x''\<rparr>))). i \<leftarrow> instances]
      @ [(f, iov_of e). f \<leftarrow> event_files get_instance_filter]
      @ [(f, iov_of ''1''). f \<leftarrow> event_files get_instance_enable]"
    "pipes l2 = map (get_instance_input basedir) instances" by blast
  with r show ?thesis
    by (intro exI [of _ rec] exI [of _ log] exI [of _ l1] exI [of _ l2])
      (simp add: instances_def event_files_def all_events_def switch_events_def softirq_events_def)
qed

text \<open>A recorder with both handles active, before and after an interrupt.\<close>

definition ref_running :: recorder where
  "ref_running = ref_recorder\<lparr>sig_handler := Some True, expire_handler := True\<rparr>"

lemma ref_sigint: "case sig_cleanup ref_uvapi ref_running [] of Inr s \<Rightarrow> True | Inl e \<Rightarrow> False"
  by code_simp

theorem stop_order_witness:
  "\<exists>rec' log'. loop_step ref_uvapi (ref_running, []) (rec', log') \<and> length (ctl_writes log') = 10 \<and> r_expired rec'"
proof -
  obtain rec' log' where "sig_cleanup ref_uvapi ref_running [] = Inr (rec', log')"
    using ref_sigint by (auto split: sum.splits)
  then have "loop_step ref_uvapi (ref_running, []) (rec', log')"
    by (intro loop_step.sigint) (simp_all add: ref_running_def)
  with stop_order [OF this] show ?thesis
    by (intro exI [of _ rec'] exI [of _ log'])
      (auto simp: event_files_def all_events_def switch_events_def softirq_events_def)
qed

theorem stop_handles_witness:
  "\<exists>s. sig_cleanup ref_uvapi ref_running [] = Inr s \<and> sig_handler (fst s) = Some True"
proof -
  obtain s where s: "sig_cleanup ref_uvapi ref_running [] = Inr s"
    using ref_sigint by (auto split: sum.splits)
  have "sig_handler ref_running = Some True" by (simp add: ref_running_def)
  with stop_handles [of ref_uvapi ref_running "[]" s s] s show ?thesis by blast
qed

end
