(* ===== verification/RecRun.thy ===== *)
theory RecRun
  imports RecLoop
begin

text \<open>
  The recorder in its event loop as one system: the copies of all instances, the timer, the interrupt and the
  helper processes, in any order libuv may call back. \<open>uv_run\<close> returns when no handle and no request is active.
\<close>

section \<open>The system\<close>

text \<open>
  \<open>__setup_ioworkers\<close> and \<open>record_ioworkers\<close> both call \<open>uv_spawn\<close> on the handle of a worker, the second time while it is active. libuv
  does not document that, so what comes of it is a parameter: how many exits of worker \<open>i\<close> are called back, and whether
  the loop counts something of it as active that no callback ends. Nothing else of the loop is taken to change.
\<close>

record respawn =
  exits :: "nat \<Rightarrow> nat"
  stays :: "nat \<Rightarrow> bool"

text \<open>
  The recorder and its log, the exits of workers that are still to be called back, whether a handle of a worker stays active for ever,
  and of each copy what it took from its pipe and stored in its file.
\<close>

record run_st =
  rs_rec :: recorder
  rs_log :: "sysop list"
  rs_children :: "nat list"
  rs_left :: bool
  rs_taken :: "nat \<Rightarrow> string"
  rs_stored :: "nat \<Rightarrow> string"

definition copy_of :: "run_st \<Rightarrow> nat \<Rightarrow> copy_st" where
  "copy_of s i = \<lparr>cx = events (rs_rec s) ! i, expired = r_expired (rs_rec s), taken = rs_taken s i, stored = rs_stored s i\<rparr>"

definition put_copy :: "nat \<Rightarrow> copy_st \<Rightarrow> run_st \<Rightarrow> run_st" where
  "put_copy i c s = s\<lparr>rs_rec := (rs_rec s)\<lparr>events := (events (rs_rec s))[i := cx c]\<rparr>,
     rs_taken := (rs_taken s)(i := taken c), rs_stored := (rs_stored s)(i := stored c)\<rparr>"

text \<open>
  A completion of copy \<open>i\<close> (not the expiry, which is the recorder's own), a callback of the signal or the timer, the exit of
  a helper process.
\<close>

inductive run_step :: "bool \<Rightarrow> uvapi \<Rightarrow> run_st \<Rightarrow> run_st \<Rightarrow> bool" for full V where
  completion: "i < length (events (rs_rec s)) \<Longrightarrow> copy_step full (copy_of s i) c \<Longrightarrow> cx c \<noteq> cx (copy_of s i) \<Longrightarrow>
    run_step full V s (put_copy i c s)"
| callback: "loop_step V (rs_rec s, rs_log s) (rec', log') \<Longrightarrow>
    run_step full V s (s\<lparr>rs_rec := rec', rs_log := log'\<rparr>)"
| exited: "i \<in> set (rs_children s) \<Longrightarrow> close_process_handle (rs_rec s) i (rs_log s) = Inr log' \<Longrightarrow>
    run_step full V s (s\<lparr>rs_log := log', rs_children := remove1 i (rs_children s)\<rparr>)"

inductive_cases run_stepE: "run_step full V s s'"

text \<open>When \<open>uv_run\<close> is called.\<close>

definition run_start :: "respawn \<Rightarrow> recorder \<Rightarrow> sysop list \<Rightarrow> run_st" where
  "run_start W rec log = \<lparr>rs_rec = rec, rs_log = log, rs_children = concat (map (\<lambda>i. replicate (exits W i) i) [0..<worker_count rec]),
     rs_left = list_ex (stays W) [0..<worker_count rec],
     rs_taken = (\<lambda>_. []), rs_stored = (\<lambda>_. [])\<rparr>"

lemma run_start_sel [simp]: "rs_rec (run_start W rec log) = rec" "rs_log (run_start W rec log) = log" "rs_taken (run_start W rec log) i = []"
  by (simp_all add: run_start_def)

definition loop_alive :: "run_st \<Rightarrow> bool" where
  "loop_alive s \<longleftrightarrow> (\<exists>e \<in> set (events (rs_rec s)). pending e \<noteq> None) \<or> sig_handler (rs_rec s) \<noteq> None \<or>
     expire_handler (rs_rec s) \<or> rs_children s \<noteq> [] \<or> rs_left s"

section \<open>Each copy in the whole\<close>

lemma loop_step_frame:
  assumes "loop_step V (rec, log) (rec', log')"
  shows "events rec' = events rec \<and> workers rec' = workers rec \<and> worker_count rec' = worker_count rec \<and> r_expired rec'"
proof -
  obtain rec0 rec1 l where "recorder_cleanup V rec0 log = Inr (rec1, l)" "events rec0 = events rec" "workers rec0 = workers rec"
    "worker_count rec0 = worker_count rec" "events rec' = events rec1" "workers rec' = workers rec1"
    "worker_count rec' = worker_count rec1" "r_expired rec' = r_expired rec1"
    using assms by (cases rule: loop_step.cases) (auto simp: sig_cleanup_def timer_expire_def res_bind_Inr_iff)
  with cleanup_log show ?thesis by fastforce
qed

lemma copy_step_expired: "copy_step full s s' \<Longrightarrow> cx s' \<noteq> cx s \<Longrightarrow> expired s' = expired s"
  by (erule copy_stepE) auto

lemma run_step_copy:
  assumes "run_step full V s s'" and "i < length (events (rs_rec s))"
  shows "(copy_step full (copy_of s i) (copy_of s' i) \<or> copy_of s' i = copy_of s i) \<and>
    length (events (rs_rec s')) = length (events (rs_rec s))"
  using assms(1)
proof (cases rule: run_step.cases)
  case (completion j c)
  then have "copy_of s' i = (if j = i then c else copy_of s i)"
    using assms(2) copy_step_expired [OF completion(3,4)] by (auto simp: copy_of_def put_copy_def)
  with completion show ?thesis by (auto simp: put_copy_def)
next
  case (callback rec' log')
  from loop_step_frame [OF callback(2)] have f: "events rec' = events (rs_rec s)" "r_expired rec'" by auto
  with callback(1) have "copy_of s' i = (copy_of s i)\<lparr>expired := True\<rparr>" by (simp add: copy_of_def)
  with copy_step.expire [of full "copy_of s i"] f callback(1) show ?thesis by auto
next
  case (exited j log')
  then show ?thesis by (auto simp: copy_of_def)
qed

lemma run_copy:
  "(run_step full V)\<^sup>*\<^sup>* s s' \<Longrightarrow> i < length (events (rs_rec s)) \<Longrightarrow>
   (copy_step full)\<^sup>*\<^sup>* (copy_of s i) (copy_of s' i) \<and> length (events (rs_rec s')) = length (events (rs_rec s))"
proof (induction rule: rtranclp_induct)
  case (step y z)
  with run_step_copy [OF step(2), of i] show ?case by (auto intro: rtranclp.rtrancl_into_rtrancl)
qed simp

text \<open>A step in which no write fails: the copy whose write is reported asks for more.\<close>

definition writes_succeed :: "run_st \<Rightarrow> run_st \<Rightarrow> bool" where
  "writes_succeed s s' \<longleftrightarrow> (\<forall>i < length (events (rs_rec s)). \<forall>fd d.
     pending (cx (copy_of s i)) = Some (R_write fd d) \<longrightarrow> pending (cx (copy_of s' i)) \<noteq> None)"

lemma copy_step_stores:
  assumes "copy_step True c c'" and "\<forall>fd d. pending (cx c) = Some (R_write fd d) \<longrightarrow> pending (cx c') \<noteq> None"
    and "stored c @ in_flight c = taken c"
  shows "stored c' @ in_flight c' = taken c'"
  using assms by (cases rule: copy_step.cases) (auto simp: in_flight_def callback_defs overwrite_front split: if_splits)

lemma run_stores:
  assumes "(\<lambda>s s'. run_step True V s s' \<and> writes_succeed s s')\<^sup>*\<^sup>* s s'" and "i < length (events (rs_rec s))"
    and "stored (copy_of s i) @ in_flight (copy_of s i) = taken (copy_of s i)"
  shows "length (events (rs_rec s')) = length (events (rs_rec s)) \<and>
    stored (copy_of s' i) @ in_flight (copy_of s' i) = taken (copy_of s' i)"
  using assms(1)
proof (induction rule: rtranclp_induct)
  case (step y z)
  from step(2) have yz: "run_step True V y z" "writes_succeed y z" by simp_all
  have i: "i < length (events (rs_rec y))" using step(3) assms(2) by simp
  from run_step_copy [OF yz(1) i] copy_step_stores [of "copy_of y i" "copy_of z i"] yz(2) step(3) i
  show ?case by (auto simp: writes_succeed_def)
qed (use assms(3) in simp)

text \<open>The start: every copy has its output file and asks for its pipe.\<close>

definition whole_buffers :: "(nat \<Rightarrow> string option) \<Rightarrow> bool" where
  "whole_buffers bufs \<longleftrightarrow> (\<forall>i b. bufs i = Some b \<longrightarrow> length b = COPY_LEN)"

lemma open_events_started:
  "open_events V bufs cf is log = Inr (es, log') \<Longrightarrow> whole_buffers bufs \<Longrightarrow> e \<in> set es \<Longrightarrow>
   \<exists>p. copy_started p \<lparr>cx = e, expired = False, taken = [], stored = []\<rparr>"
proof (induction V bufs cf "is" log arbitrary: es log' rule: open_events.induct)
  case (2 V bufs cf i "is" log)
  then obtain e0 out p es' where e0: "init_event_ctx (bufs i) = Some e0" "instances_out cf ! i = Some out"
    "instances_in cf ! i = Some p" "\<not> (length (instances_out cf) \<le> i \<or> length (instances_in cf) \<le> i)"
    "open_events V bufs cf is ((log @ [Open_out out]) @ [Open_in p]) = Inr (es', log')"
    "es = e0\<lparr>fd_out := open_ret V log out, pending := Some (R_open p)\<rparr> # es'"
    by (auto simp: Let_def res_bind_Inr_iff split: option.splits if_splits)
  obtain b where b: "bufs i = Some b" "length b = COPY_LEN"
    using e0(1) "2.prems"(2) by (cases "bufs i") (auto simp: init_event_ctx_def whole_buffers_def)
  show ?case
  proof (cases "e \<in> set es'")
    case True
    then show ?thesis using "2.IH" [OF e0(1,4,2) refl refl e0(3) e0(5) "2.prems"(2)] by blast
  next
    case False
    with "2.prems"(3) e0(6) have "e = e0\<lparr>fd_out := open_ret V log out, pending := Some (R_open p)\<rparr>" by simp
    with b e0(1) have "copy_started p \<lparr>cx = e, expired = False, taken = [], stored = []\<rparr>"
      unfolding copy_started_def by auto
    then show ?thesis ..
  qed
qed simp

lemma started_copies:
  assumes "recorder_run V mem bufs cf = Inr (None, rec, log)" and "whole_buffers bufs" and "i < length (events rec)"
  shows "\<exists>p. copy_started p (copy_of (run_start W rec log) i)"
proof -
  obtain rec2 log4 rec3 log5 where e: "record_events V mem bufs (rec2\<lparr>sig_handler := Some True\<rparr>) log4 = Inr (0, rec3, log5)"
    "r_expired rec2 = False" "rec = rec3\<lparr>expire_handler := True\<rparr>"
  proof -
    from assms(1) obtain cf1 log1 cf2 rec2 log2 log3 log4 rec3 log5 log6 where
      b: "setup_ioworkers V cf1 \<lparr>r_conf = cf\<lparr>instances_in := instances_in cf1, instances_out := instances_out cf1\<rparr>,
          sig_handler = Some False, expire_handler = False, r_expired = False, events = [], workers = [],
          worker_count = 0\<rparr> log1 = Inr (cf2, rec2, log2)" and
      e: "record_events V mem bufs (rec2\<lparr>sig_handler := Some True\<rparr>) (log4 @ [Signal_start True]) = Inr (0, rec3, log5)"
        "rec = rec3\<lparr>expire_handler := True\<rparr>"
      by (auto simp: recorder_run_def Let_def res_bind_Inr_iff split: if_splits)
    have "r_expired rec2 = False" using quiet_setup_ioworkers [OF b] by simp
    with e that show thesis by blast
  qed
  then obtain es l where es: "open_events V bufs (r_conf rec2) [0..<instances_num (r_conf rec2)] log4 = Inr (es, l)"
    "events rec = es" "r_expired rec = False"
    by (auto simp: record_events_def res_bind_Inr_iff split: if_splits)
  with open_events_started [OF es(1) assms(2), of "events rec ! i"] assms(3) show ?thesis
    by (simp add: copy_of_def run_start_def)
qed

section \<open>Running out\<close>

text \<open>
  What is at most still to happen when the recorder has expired: per copy for its request and the \<open>T i\<close> bytes its pipe
  can give, and the exits.
\<close>

fun due :: "request option \<Rightarrow> nat" where
  "due None = 0"
| "due (Some (R_read fd n)) = 1"
| "due (Some r) = 2"

definition copy_rank :: "nat \<Rightarrow> copy_st \<Rightarrow> nat" where
  "copy_rank t c = due (pending (cx c)) + 2 * (t - length (taken c))"

definition run_rank :: "(nat \<Rightarrow> nat) \<Rightarrow> run_st \<Rightarrow> nat" where
  "run_rank T s = (\<Sum>i<length (events (rs_rec s)). copy_rank (T i) (copy_of s i)) + length (rs_children s)"

lemma copy_rank_decreases:
  assumes "copy_step full c c'" and "cx c' \<noteq> cx c" and "expired c" and "length (taken c') \<le> t"
  shows "copy_rank t c' < copy_rank t c"
  using assms(1)
proof (cases rule: copy_step.cases)
  case (data fd n bs)
  have "Suc (2 * (t - (a + b))) < 2 * (t - a)" if "a + b \<le> t" "0 < b" for a b
    using that by arith
  with data assms(4) show ?thesis by (simp add: copy_rank_def on_read_def)
qed (use assms in \<open>auto simp: copy_rank_def callback_defs\<close>)

text \<open>Neither the signal nor the timer is active any more.\<close>

definition expired_run :: "run_st \<Rightarrow> bool" where
  "expired_run s \<longleftrightarrow> r_expired (rs_rec s) \<and> sig_handler (rs_rec s) = None \<and> \<not> expire_handler (rs_rec s) \<and>
     (\<forall>i \<in> set (rs_children s). i < length (workers (rs_rec s)))"

lemma taken_grows: "copy_step full c c' \<Longrightarrow> length (taken c) \<le> length (taken c')"
  by (erule copy_stepE) auto

lemma run_step_expired:
  assumes "run_step full V s s'" and "expired_run s"
  shows "expired_run s' \<and> (\<forall>i. length (rs_taken s i) \<le> length (rs_taken s' i)) \<and>
    ((\<forall>i. length (rs_taken s' i) \<le> T i) \<longrightarrow> run_rank T s' < run_rank T s)"
  using assms(1)
proof (cases rule: run_step.cases)
  case (completion i c)
  let ?n = "length (events (rs_rec s))"
  have s': "copy_of s' j = (if j = i then c else copy_of s j)" if "j < ?n" for j
    using that completion assms(2) copy_step_expired [OF completion(3,4)]
    by (auto simp: copy_of_def put_copy_def expired_run_def)
  have grow: "length (rs_taken s i) \<le> length (taken c)" using taken_grows [OF completion(3)] by (simp add: copy_of_def)
  have "run_rank T s' < run_rank T s" if T: "\<forall>i. length (rs_taken s' i) \<le> T i"
  proof -
    from T have "length (taken c) \<le> T i" using completion(1) by (auto simp: put_copy_def split: if_splits)
    moreover have "expired (copy_of s i)" using assms(2) by (simp add: copy_of_def expired_run_def)
    ultimately have less: "copy_rank (T i) c < copy_rank (T i) (copy_of s i)"
      using copy_rank_decreases [OF completion(3,4)] by blast
    have "(\<Sum>j<?n. copy_rank (T j) (copy_of s' j)) < (\<Sum>j<?n. copy_rank (T j) (copy_of s j))"
      by (rule sum_strict_mono_ex1) (use s' less completion(2) in auto)
    moreover have "length (events (rs_rec s')) = ?n" "rs_children s' = rs_children s"
      using completion(1) by (simp_all add: put_copy_def)
    ultimately show ?thesis by (simp add: run_rank_def)
  qed
  with completion(1) assms(2) grow show ?thesis by (auto simp: expired_run_def put_copy_def)
next
  case (callback rec' log')
  from callback(2) assms(2) show ?thesis by (auto simp: expired_run_def elim: loop_stepE)
next
  case (exited i log')
  then have "length (rs_children s') < length (rs_children s)"
    using length_pos_if_in_set [OF exited(2)] by (simp add: length_remove1)
  with exited(1) assms(2) show ?thesis
    by (auto simp: expired_run_def run_rank_def copy_of_def dest: notin_set_remove1)
qed

lemma expired_run_stays: "(run_step full V ^^ n) s s' \<Longrightarrow> expired_run s \<Longrightarrow> expired_run s'"
proof (induction n arbitrary: s')
  case (Suc n)
  from Suc.prems(1) obtain y where y: "(run_step full V ^^ n) s y" "run_step full V y s'" by auto
  show ?case by (rule conjunct1 [OF run_step_expired [OF y(2) Suc.IH [OF y(1) Suc.prems(2)]]])
qed simp

lemma expired_run_steps:
  "(run_step full V ^^ n) s s' \<Longrightarrow> expired_run s \<Longrightarrow> \<forall>i. length (rs_taken s' i) \<le> T i \<Longrightarrow>
   expired_run s' \<and> n + run_rank T s' \<le> run_rank T s"
proof (induction n arbitrary: s')
  case (Suc n)
  then obtain y where y: "(run_step full V ^^ n) s y" "run_step full V y s'" by auto
  have e: "expired_run y" using expired_run_stays [OF y(1) Suc.prems(2)] .
  note f = run_step_expired [OF y(2) e, of T]
  with Suc.prems(3) have "\<forall>i. length (rs_taken y i) \<le> T i" by (meson le_trans)
  with Suc.IH [OF y(1) Suc.prems(2)] f Suc.prems(3) show ?case by fastforce
qed simp

lemma alive_steps:
  assumes "expired_run s" and "loop_alive s" and "\<not> rs_left s"
  shows "\<exists>s'. run_step full V s s'"
proof (cases "rs_children s = []")
  case True
  with assms obtain e where "e \<in> set (events (rs_rec s))" "pending e \<noteq> None"
    by (auto simp: loop_alive_def expired_run_def)
  then obtain i r where i: "i < length (events (rs_rec s))" "pending (cx (copy_of s i)) = Some r"
    by (auto simp: in_set_conv_nth copy_of_def)
  have ex: "expired (copy_of s i)" using assms(1) by (simp add: copy_of_def expired_run_def)
  have "\<exists>c. copy_step full (copy_of s i) c \<and> pending (cx c) \<noteq> Some r"
  proof (cases r)
    case (R_open p)
    with copy_step.opened [of "copy_of s i" p full "- 1"] i show ?thesis by (auto simp: on_open_def)
  next
    case (R_read fd n)
    with copy_step.no_data [of "copy_of s i" fd n 0 full] i ex show ?thesis
      by (auto simp: on_read_def event_cleanup_def)
  next
    case (R_write fd d)
    with copy_step.write_error [of "copy_of s i" fd d "- 1" full] i show ?thesis
      by (auto simp: on_write_def event_cleanup_def)
  next
    case (R_timer t)
    with copy_step.retry [of "copy_of s i" t full] i show ?thesis by (auto simp: on_retry_def)
  qed
  with i show ?thesis using run_step.completion [OF i(1)] by metis
next
  case False
  then obtain i where "i \<in> set (rs_children s)" by (cases "rs_children s") auto
  moreover from this assms(1) have "close_process_handle (rs_rec s) i (rs_log s) =
      Inr (rs_log s @ [Close_fd (w_fd (workers (rs_rec s) ! i)), Close_process i])"
    by (auto simp: expired_run_def close_process_handle_def)
  ultimately show ?thesis using run_step.exited by blast
qed

lemma copy_step_asked: "copy_step full c c' \<Longrightarrow> cx c' \<noteq> cx c \<Longrightarrow> pending (cx c) \<noteq> None"
  by (erule copy_stepE) auto

lemma steps_alive: "run_step full V s s' \<Longrightarrow> loop_alive s"
  by (erule run_stepE) (auto simp: loop_alive_def copy_of_def dest!: copy_step_asked elim!: loop_stepE)

text \<open>The workers of a recorder in its loop.\<close>

lemma spawned_workers: "spawn_workers V rec n log = Inr (0, log') \<Longrightarrow> n \<le> length (workers rec)"
  by (induction V rec n log rule: spawn_workers.induct) (auto simp: Let_def split: if_splits)

lemma run_step_workers:
  assumes "run_step full V s s'" and "\<forall>i \<in> set (rs_children s). i < length (workers (rs_rec s))"
  shows "\<forall>i \<in> set (rs_children s'). i < length (workers (rs_rec s'))"
  using assms by (cases rule: run_step.cases) (auto simp: put_copy_def dest: loop_step_frame notin_set_remove1)

lemma run_workers:
  assumes "recorder_run V mem bufs cf = Inr (None, rec, log)" and "(run_step full V)\<^sup>*\<^sup>* (run_start W rec log) s"
  shows "\<forall>i \<in> set (rs_children s). i < length (workers (rs_rec s))"
  using assms(2)
proof (induction rule: rtranclp_induct)
  case base
  from assms(1) have "worker_count rec \<le> length (workers rec)"
    by (auto simp: recorder_run_def record_ioworkers_def Let_def res_bind_Inr_iff dest!: spawned_workers split: if_splits)
  then show ?case by (auto simp: run_start_def)
qed (rule run_step_workers)

text \<open>What a run leaves of the start: no exit is added, and what stays, stays.\<close>

lemma run_from_start:
  assumes "(run_step full V)\<^sup>*\<^sup>* s s'"
  shows "length (events (rs_rec s')) = length (events (rs_rec s)) \<and> length (rs_children s') \<le> length (rs_children s) \<and>
    rs_left s' = rs_left s"
  using assms
proof (induction rule: rtranclp_induct)
  case (step y z)
  from step(2) have "length (events (rs_rec z)) = length (events (rs_rec y)) \<and> length (rs_children z) \<le> length (rs_children y) \<and>
      rs_left z = rs_left y"
    by (cases rule: run_step.cases) (auto simp: put_copy_def length_remove1 dest: loop_step_frame)
  with step(3) show ?case by auto
qed simp

lemma run_rank_bound: "run_rank T s \<le> (\<Sum>i<length (events (rs_rec s)). 2 + 2 * T i) + length (rs_children s)"
proof -
  have "copy_rank t c \<le> 2 + 2 * t" for t c
  proof -
    have "due r \<le> 2" for r by (cases r rule: due.cases) simp_all
    then have "due (pending (cx c)) \<le> 2" .
    moreover have "2 * (t - length (taken c)) \<le> 2 * t" by simp
    ultimately show ?thesis unfolding copy_rank_def by (rule add_mono)
  qed
  then show ?thesis by (simp add: run_rank_def sum_mono)
qed

section \<open>Properties\<close>

text \<open>
  C22: What the recorder leaves: as long as every write succeeds and stores all it is given, the bytes taken from a pipe are
  those in its file and those being written; so when the event loop ends, the file is what the pipe gave.
\<close>

theorem ended_run_stored:
  assumes "recorder_run V mem bufs cf = Inr (None, rec, log)" and "whole_buffers bufs" and "i < length (events rec)"
    and "(\<lambda>s s'. run_step True V s s' \<and> writes_succeed s s')\<^sup>*\<^sup>* (run_start W rec log) s"
  shows "rs_taken s i = rs_stored s i @ in_flight (copy_of s i) \<and> (\<not> loop_alive s \<longrightarrow> rs_stored s i = rs_taken s i)"
proof -
  obtain p where p: "copy_started p (copy_of (run_start W rec log) i)" using started_copies [OF assms(1-3)] ..
  then have "stored (copy_of (run_start W rec log) i) @ in_flight (copy_of (run_start W rec log) i) = taken (copy_of (run_start W rec log) i)"
    by (auto simp: copy_started_def in_flight_def)
  from run_stores [OF assms(4) _ this] assms(3) have r: "length (events (rs_rec s)) = length (events rec)"
    "stored (copy_of s i) @ in_flight (copy_of s i) = taken (copy_of s i)" by simp_all
  have "in_flight (copy_of s i) = []" if "\<not> loop_alive s"
  proof -
    have "events (rs_rec s) ! i \<in> set (events (rs_rec s))" using r(1) assms(3) by simp
    with that have "pending (events (rs_rec s) ! i) = None" unfolding loop_alive_def by blast
    then show ?thesis by (simp add: in_flight_def copy_of_def)
  qed
  with r(2) show ?thesis by (auto simp: copy_of_def)
qed

text \<open>
  C12: Whatever order the callbacks come in, with the timer, interrupts and exits of helper processes between them, every
  copy of a started recorder runs as a copy of its own: with whole writes the file holds a prefix of what the pipe gave,
  all of it whenever a read is under way; the buffer keeps its size and the descriptors are closed at most once.
\<close>

theorem whole_run_copies:
  assumes "recorder_run V mem bufs cf = Inr (None, rec, log)" and "whole_buffers bufs" and "i < length (events rec)"
    and "(run_step full V)\<^sup>*\<^sup>* (run_start W rec log) s"
  shows "(full \<longrightarrow> prefix (rs_stored s i) (rs_taken s i) \<and>
      (\<forall>fd n. pending (events (rs_rec s) ! i) = Some (R_read fd n) \<longrightarrow> rs_stored s i = rs_taken s i)) \<and>
    length (iov_buf (events (rs_rec s) ! i)) = COPY_LEN \<and>
    closed (events (rs_rec s) ! i) \<in> {[], [fd_in (events (rs_rec s) ! i), fd_out (events (rs_rec s) ! i)]}"
proof -
  obtain p where p: "copy_started p (copy_of (run_start W rec log) i)" using started_copies [OF assms(1-3)] ..
  have r: "(copy_step full)\<^sup>*\<^sup>* (copy_of (run_start W rec log) i) (copy_of s i)"
    using run_copy [OF assms(4)] assms(3) by (simp add: run_start_def)
  have "copied_from [] [] (copy_of s i)" if full using copy_run_copied r copied_started [OF p] that by simp
  then have "full \<longrightarrow> prefix (rs_stored s i) (rs_taken s i) \<and>
      (\<forall>fd n. pending (events (rs_rec s) ! i) = Some (R_read fd n) \<longrightarrow> rs_stored s i = rs_taken s i)"
    by (auto simp: copied_from_def in_flight_def prefix_def copy_of_def split: if_splits) metis
  moreover from copy_run_ok [OF r copy_ok_started [OF p]] have "copy_ok (copy_of s i)" .
  ultimately show ?thesis by (auto simp: copy_ok_def copy_of_def split: option.splits request.splits)
qed

text \<open>
  C6: When the timer of a started recorder has expired, the recorder comes to its end: if the pipe of copy \<open>i\<close> gives at most \<open>T i\<close> bytes in all,
  the callbacks from then on are at most two for each copy and two for each of those bytes, and the exits
  of the helper processes; and the loop is alive just as long as some callback can still come or a helper's handle that was spawned twice stays
  active. The last is what libuv makes of the second \<open>uv_spawn\<close>, which it does not document; without \<open>-d\<close> and \<open>-n\<close>
  there is no helper and nothing stays.
\<close>

theorem period_ends_recorder:
  assumes "recorder_run V mem bufs cf = Inr (None, rec, log)" and "(run_step full V)\<^sup>*\<^sup>* (run_start W rec log) s"
    and "timer_expire V ((rs_rec s)\<lparr>expire_handler := False\<rparr>) (rs_log s) = Inr (rec', log')"
    and "(run_step full V ^^ n) (s\<lparr>rs_rec := rec', rs_log := log'\<rparr>) s'" and "\<forall>i. length (rs_taken s' i) \<le> T i"
  shows "n \<le> (\<Sum>i<length (events rec). 2 + 2 * T i) + (\<Sum>i<worker_count rec. exits W i) \<and>
    (loop_alive s' \<longleftrightarrow> (\<exists>s''. run_step full V s' s'') \<or> (\<exists>i<worker_count rec. stays W i))"
proof -
  let ?s = "s\<lparr>rs_rec := rec', rs_log := log'\<rparr>"
  have e: "expired_run ?s" and len: "length (events rec') = length (events (rs_rec s))"
    using assms(3) run_workers [OF assms(1,2)] cleanup_log
    by (fastforce simp: timer_expire_def expired_run_def res_bind_Inr_iff)+
  note run = expired_run_steps [OF assms(4) e assms(5)]
  have "(run_step full V)\<^sup>*\<^sup>* ?s s'" using assms(4) by (rule relpowp_imp_rtranclp)
  from run_from_start [OF this] run_from_start [OF assms(2)]
  have left: "rs_left s' \<longleftrightarrow> (\<exists>i<worker_count rec. stays W i)"
    and small: "length (events (rs_rec s)) = length (events rec)" "length (rs_children s) \<le> (\<Sum>i<worker_count rec. exits W i)"
    by (auto simp: run_start_def list_ex_iff length_concat o_def interv_sum_list_conv_sum_set_nat lessThan_atLeast0)
  have "n \<le> run_rank T ?s" using run by simp
  also have "\<dots> \<le> (\<Sum>i<length (events rec). 2 + 2 * T i) + (\<Sum>i<worker_count rec. exits W i)"
    using run_rank_bound [of T ?s] small len by simp
  finally show ?thesis
    using run alive_steps [of s' full V] steps_alive [of full V s'] left by (auto simp: loop_alive_def)
qed

text \<open>
  C26: After an interrupt the recorder does not end: the interrupt stops the timer, which alone would stop the signal
  handle, and the loop is alive whatever is called back from then on.
\<close>

theorem interrupt_keeps_loop:
  assumes "sig_handler (rs_rec s) = Some True" and "sig_cleanup V (rs_rec s) (rs_log s) = Inr (rec', log')"
    and "(run_step full V)\<^sup>*\<^sup>* (s\<lparr>rs_rec := rec', rs_log := log'\<rparr>) s'"
  shows "loop_alive s' \<and> \<not> expire_handler (rs_rec s')"
proof -
  have keep: "sig_cleanup V r l = Inr (r', l') \<Longrightarrow> sig_handler r' = sig_handler r \<and> \<not> expire_handler r'" for r l r' l'
    using cleanup_log [of V r l] by (auto simp: sig_cleanup_def res_bind_Inr_iff)
  from assms(3) have "sig_handler (rs_rec s') = Some True \<and> \<not> expire_handler (rs_rec s')"
  proof (induction rule: rtranclp_induct)
    case base
    then show ?case using keep [OF assms(2)] assms(1) by simp
  next
    case (step y z)
    from step(2) step(3) show ?case
      by (cases rule: run_step.cases) (auto simp: put_copy_def elim!: loop_stepE dest!: keep)
  qed
  then show ?thesis by (simp add: loop_alive_def)
qed

section \<open>Witnesses\<close>

text \<open>A libuv that reports one exit for each worker and counts nothing twice.\<close>

definition once :: respawn where
  "once = \<lparr>exits = (\<lambda>_. 1), stays = (\<lambda>_. False)\<rparr>"

text \<open>A start in which every call of libuv succeeds, then the timer's expiry or an interrupt.\<close>

definition run_bufs :: "string \<Rightarrow> nat \<Rightarrow> string option" where
  "run_bufs b i = Some b"

definition run_conf :: config where
  "run_conf = (init_config 2)\<lparr>filter_expr := Some ''x''\<rparr>"

lemma ref_started: "case recorder_run ref_uvapi True (run_bufs b) run_conf of
    Inr (None, rec, log) \<Rightarrow> length (events rec) = 2 \<and> sig_handler rec = Some True \<and>
      (case timer_expire ref_uvapi (rec\<lparr>expire_handler := False\<rparr>) log of Inr s \<Rightarrow> True | Inl e \<Rightarrow> False) \<and>
      (case sig_cleanup ref_uvapi rec log of Inr s \<Rightarrow> True | Inl e \<Rightarrow> False)
  | _ \<Rightarrow> False"
  by code_simp

lemma ref_start:
  obtains rec log rec1 log1 rec2 log2
  where "recorder_run ref_uvapi True (run_bufs b) run_conf = Inr (None, rec, log)" "length (events rec) = 2"
    "sig_handler rec = Some True" "timer_expire ref_uvapi (rec\<lparr>expire_handler := False\<rparr>) log = Inr (rec1, log1)"
    "sig_cleanup ref_uvapi rec log = Inr (rec2, log2)"
proof -
  obtain rec log where r: "recorder_run ref_uvapi True (run_bufs b) run_conf = Inr (None, rec, log)"
    using ref_started [of b] by (simp split: sum.splits option.splits prod.splits)
  then obtain s1 s2 where "timer_expire ref_uvapi (rec\<lparr>expire_handler := False\<rparr>) log = Inr s1"
    "sig_cleanup ref_uvapi rec log = Inr s2" "length (events rec) = 2" "sig_handler rec = Some True"
    using ref_started [of b] by (simp split: sum.splits)
  with r show thesis using that by (cases s1, cases s2) blast
qed

abbreviation zeros :: string where
  "zeros \<equiv> replicate COPY_LEN NUL"

lemma zeros_whole: "whole_buffers (run_bufs zeros)"
  by (simp add: whole_buffers_def run_bufs_def)

lemma completion_of:
  assumes "i < length (events (rs_rec s))" and "copy_step full (copy_of s i) c" and "cx c \<noteq> cx (copy_of s i)"
  shows "run_step full V s (put_copy i c s)" and "copy_of (put_copy i c s) i = c"
    and "j \<noteq> i \<Longrightarrow> copy_of (put_copy i c s) j = copy_of s j" and "length (events (rs_rec (put_copy i c s))) = length (events (rs_rec s))"
  using run_step.completion [where V = V, OF assms] copy_step_expired [OF assms(2,3)] assms(1)
  by (simp_all add: copy_of_def put_copy_def)

text \<open>The first copy has opened its pipe as descriptor 3.\<close>

lemma opened_run:
  obtains rec log s where "recorder_run ref_uvapi True (run_bufs zeros) run_conf = Inr (None, rec, log)" "length (events rec) = 2"
    "run_step True ref_uvapi (run_start once rec log) s" "writes_succeed (run_start once rec log) s" "length (events (rs_rec s)) = 2"
    "pending (cx (copy_of s 0)) = Some (R_read 3 COPY_LEN)" "rs_taken s 0 = []"
proof -
  obtain rec log rec1 log1 rec2 log2 where r: "recorder_run ref_uvapi True (run_bufs zeros) run_conf = Inr (None, rec, log)"
    "length (events rec) = 2" "sig_handler rec = Some True"
    "timer_expire ref_uvapi (rec\<lparr>expire_handler := False\<rparr>) log = Inr (rec1, log1)"
    "sig_cleanup ref_uvapi rec log = Inr (rec2, log2)"
    by (rule ref_start [of zeros])
  let ?s = "run_start once rec log"
  have "\<exists>p. pending (cx (copy_of ?s i)) = Some (R_open p) \<and> iov_len (cx (copy_of ?s i)) = COPY_LEN" if "i < 2" for i
    using started_copies [OF r(1) zeros_whole, of i once] that r(2) by (auto simp: copy_started_def init_event_ctx_def)
  then obtain p p' where p: "pending (cx (copy_of ?s 0)) = Some (R_open p)" "iov_len (cx (copy_of ?s 0)) = COPY_LEN"
    "pending (cx (copy_of ?s 1)) = Some (R_open p')"
    by (metis one_less_numeral_iff semiring_norm(76) zero_less_numeral)
  let ?c = "copy_of ?s 0\<lparr>cx := on_open 3 (cx (copy_of ?s 0))\<rparr>"
  have q: "pending (cx ?c) = Some (R_read 3 COPY_LEN)" using p(2) by (simp add: on_open_def)
  then have "copy_step True (copy_of ?s 0) ?c" "cx ?c \<noteq> cx (copy_of ?s 0)" "0 < length (events (rs_rec ?s))"
    using p(1) r(2) by (auto intro: copy_step.opened)
  note s1 = completion_of [OF this(3,1,2)]
  have "writes_succeed ?s (put_copy 0 ?c ?s)"
    using p r(2) by (auto simp: writes_succeed_def less_2_cases_iff s1(2,3))
  moreover have "rs_taken (put_copy 0 ?c ?s) 0 = []" by (simp add: put_copy_def copy_of_def)
  ultimately show thesis using that [OF r(1,2) s1(1)] q r(2) s1(2,4) by simp
qed

theorem whole_run_copies_witness:
  "\<exists>rec log s. recorder_run ref_uvapi True (run_bufs zeros) run_conf = Inr (None, rec, log) \<and>
     (run_step True ref_uvapi)\<^sup>*\<^sup>* (run_start once rec log) s \<and> pending (events (rs_rec s) ! 0) = Some (R_read 3 COPY_LEN) \<and>
     length (iov_buf (events (rs_rec s) ! 0)) = COPY_LEN"
proof -
  obtain rec log s where r: "recorder_run ref_uvapi True (run_bufs zeros) run_conf = Inr (None, rec, log)" "length (events rec) = 2"
    "run_step True ref_uvapi (run_start once rec log) s" "writes_succeed (run_start once rec log) s" "length (events (rs_rec s)) = 2"
    "pending (cx (copy_of s 0)) = Some (R_read 3 COPY_LEN)" "rs_taken s 0 = []"
    by (rule opened_run)
  then have "(run_step True ref_uvapi)\<^sup>*\<^sup>* (run_start once rec log) s" by blast
  with whole_run_copies [OF r(1) zeros_whole _ this, of 0] r(1,2,6) show ?thesis by (auto simp: copy_of_def)
qed

theorem period_ends_recorder_witness:
  "\<exists>rec log rec' log' s. recorder_run ref_uvapi True (run_bufs zeros) run_conf = Inr (None, rec, log) \<and>
     timer_expire ref_uvapi (rec\<lparr>expire_handler := False\<rparr>) log = Inr (rec', log') \<and>
     run_step True ref_uvapi ((run_start once rec log)\<lparr>rs_rec := rec', rs_log := log'\<rparr>) s"
proof -
  obtain rec log rec1 log1 rec2 log2 where r: "recorder_run ref_uvapi True (run_bufs zeros) run_conf = Inr (None, rec, log)"
    "length (events rec) = 2" "sig_handler rec = Some True"
    "timer_expire ref_uvapi (rec\<lparr>expire_handler := False\<rparr>) log = Inr (rec1, log1)"
    "sig_cleanup ref_uvapi rec log = Inr (rec2, log2)"
    by (rule ref_start [of zeros])
  let ?s = "(run_start once rec log)\<lparr>rs_rec := rec1, rs_log := log1\<rparr>"
  obtain p where "copy_started p (copy_of (run_start once rec log) 0)"
    using started_copies [OF r(1) zeros_whole, of 0 once] r(2) by auto
  then have "pending (events rec ! 0) \<noteq> None" by (auto simp: copy_started_def copy_of_def run_start_def)
  moreover have "events rec1 = events rec"
    using r(4) cleanup_log by (fastforce simp: timer_expire_def res_bind_Inr_iff)
  ultimately have "loop_alive ?s" using r(2) by (auto simp: loop_alive_def)
  moreover have "loop_alive ?s \<longleftrightarrow> (\<exists>s. run_step True ref_uvapi ?s s) \<or> (\<exists>i<worker_count rec. stays once i)"
    using r(4) by (intro conjunct2 [OF period_ends_recorder [OF r(1) rtranclp.rtrancl_refl,
        where n = 0 and s' = ?s and T = "\<lambda>_. 0"]]) simp_all
  moreover have "\<not> stays once i" for i by (simp add: once_def)
  ultimately obtain s where "run_step True ref_uvapi ?s s" by blast
  with r(1,4) show ?thesis by blast
qed

theorem interrupt_keeps_loop_witness:
  "\<exists>rec log rec' log'. recorder_run ref_uvapi True (run_bufs zeros) run_conf = Inr (None, rec, log) \<and>
     sig_cleanup ref_uvapi rec log = Inr (rec', log') \<and>
     loop_alive ((run_start once rec log)\<lparr>rs_rec := rec', rs_log := log'\<rparr>)"
proof -
  obtain rec log rec1 log1 rec2 log2 where r: "recorder_run ref_uvapi True (run_bufs zeros) run_conf = Inr (None, rec, log)"
    "length (events rec) = 2" "sig_handler rec = Some True"
    "timer_expire ref_uvapi (rec\<lparr>expire_handler := False\<rparr>) log = Inr (rec1, log1)"
    "sig_cleanup ref_uvapi rec log = Inr (rec2, log2)"
    by (rule ref_start [of zeros])
  then have "loop_alive ((run_start once rec log)\<lparr>rs_rec := rec2, rs_log := log2\<rparr>)"
    by (intro conjunct1 [OF interrupt_keeps_loop [where full = True and V = ref_uvapi, OF _ _ rtranclp.rtrancl_refl]]) simp_all
  with r(1,5) show ?thesis by blast
qed

text \<open>The first copy opens its pipe and reads two bytes.\<close>

theorem ended_run_stored_witness:
  "\<exists>rec log s. recorder_run ref_uvapi True (run_bufs zeros) run_conf = Inr (None, rec, log) \<and>
     (\<lambda>s s'. run_step True ref_uvapi s s' \<and> writes_succeed s s')\<^sup>*\<^sup>* (run_start once rec log) s \<and>
     rs_taken s 0 = ''hi'' \<and> in_flight (copy_of s 0) = ''hi'' \<and> rs_stored s 0 = []"
proof -
  obtain rec log s where r: "recorder_run ref_uvapi True (run_bufs zeros) run_conf = Inr (None, rec, log)" "length (events rec) = 2"
    "run_step True ref_uvapi (run_start once rec log) s" "writes_succeed (run_start once rec log) s" "length (events (rs_rec s)) = 2"
    "pending (cx (copy_of s 0)) = Some (R_read 3 COPY_LEN)" "rs_taken s 0 = []"
    by (rule opened_run)
  let ?c = "copy_of s 0"
  let ?d = "?c\<lparr>cx := on_read (expired ?c) (int (length ''hi'')) ((cx ?c)\<lparr>iov_buf := overwrite (iov_buf (cx ?c)) 0 ''hi''\<rparr>),
      taken := taken ?c @ ''hi''\<rparr>"
  have step: "copy_step True ?c ?d" by (rule copy_step.data [OF r(6)]) (simp_all add: COPY_LEN_def)
  have "pending (cx ?d) = Some (R_write (fd_out (cx ?c)) ''hi'')" by (simp add: on_read_def overwrite_front)
  then have d: "cx ?d \<noteq> cx ?c" "in_flight ?d = ''hi''" "taken ?d = ''hi''"
    using r(6,7) by (auto simp: in_flight_def copy_of_def)
  let ?s2 = "put_copy 0 ?d s"
  have n: "0 < length (events (rs_rec s))" using r(5) by simp
  note s2 = completion_of [OF n step d(1)]
  have "pending (cx (copy_of ?s2 j)) \<noteq> None" if "pending (cx (copy_of s j)) = Some (R_write fd e)" for j fd e
    using that r(6) s2(3) by (cases "j = 0") auto
  then have "writes_succeed s ?s2" by (auto simp: writes_succeed_def)
  with r(3,4) s2(1) have run: "(\<lambda>s s'. run_step True ref_uvapi s s' \<and> writes_succeed s s')\<^sup>*\<^sup>* (run_start once rec log) ?s2"
    by (intro rtranclp.rtrancl_into_rtrancl [OF r_into_rtranclp, where b = s]) auto
  have t: "rs_taken ?s2 0 = taken (copy_of ?s2 0)" by (simp add: copy_of_def)
  have "rs_taken ?s2 0 = ''hi''" "in_flight (copy_of ?s2 0) = ''hi''" unfolding t s2(2) by (rule d(3) d(2))+
  with ended_run_stored [OF r(1) zeros_whole _ run, of 0] r(1,2) run show ?thesis
    by (intro exI [of _ rec] exI [of _ log] exI [of _ ?s2]) simp
qed

end
