(* ===== verification/LockCase.thy ===== *)
theory LockCase
  imports WPrelude
begin

text \<open>
  The two sample programs under cases/: three threads, a counter under a lock, and the waits that
  wPerf is to find. They differ in what thread C does with the lock held, a sleep or a busy loop.
\<close>

section \<open>State\<close>

datatype case_kind = Sleep | Spin

text \<open>
  Thread B runs \<open>dec_counter\<close> for ever: take the lock, test, wait, signal A, decrement, give the
  lock back. \<open>B_woken\<close> is a wait that ended and needs the lock again.
\<close>

datatype b_pc = B_lock | B_test | B_wait | B_woken | B_signal | B_dec | B_unlock

text \<open>Thread C runs \<open>inc_counter\<close> for ever; \<open>C_spin\<close> holds the two loop variables.\<close>

datatype c_pc = C_lock | C_wrap | C_test | C_sleep | C_spin nat nat | C_signal | C_inc | C_unlock

text \<open>Thread A runs \<open>thread_wait\<close>: wait, then \<open>max\<close> turns of an empty loop.\<close>

datatype a_pc = A_call | A_wait | A_loop int

datatype thread = ThreadB | ThreadC

record lock_st =
  counter :: u32
  holder :: "thread option"
  pc_b :: b_pc
  pc_c :: c_pc
  pc_a :: a_pc

definition wait_wl :: int where "wait_wl = 10000"

definition lock_start :: lock_st where
  "lock_start = \<lparr>counter = 0, holder = None, pc_b = B_lock, pc_c = C_lock, pc_a = A_call\<rparr>"

section \<open>Steps\<close>

text \<open>Signals wake a thread that is waiting and are lost otherwise.\<close>

definition wake_b :: "b_pc \<Rightarrow> b_pc" where
  "wake_b p = (if p = B_wait then B_woken else p)"

definition wake_a :: "a_pc \<Rightarrow> a_pc" where
  "wake_a p = (if p = A_wait then A_loop 0 else p)"

text \<open>\<open>dec_counter\<close>, a wait ending by itself included.\<close>

inductive b_step :: "lock_st \<Rightarrow> lock_st \<Rightarrow> bool" where
  b_lock: "pc_b s = B_lock \<Longrightarrow> holder s = None \<Longrightarrow> b_step s (s\<lparr>holder := Some ThreadB, pc_b := B_test\<rparr>)"
| b_zero: "pc_b s = B_test \<Longrightarrow> counter s = 0 \<Longrightarrow> b_step s (s\<lparr>holder := None, pc_b := B_wait\<rparr>)"
| b_nonzero: "pc_b s = B_test \<Longrightarrow> counter s \<noteq> 0 \<Longrightarrow> b_step s (s\<lparr>pc_b := B_dec\<rparr>)"
| b_spurious: "pc_b s = B_wait \<Longrightarrow> b_step s (s\<lparr>pc_b := B_woken\<rparr>)"
| b_relock: "pc_b s = B_woken \<Longrightarrow> holder s = None \<Longrightarrow> b_step s (s\<lparr>holder := Some ThreadB, pc_b := B_signal\<rparr>)"
| b_signal: "pc_b s = B_signal \<Longrightarrow> b_step s (s\<lparr>pc_a := wake_a (pc_a s), pc_b := B_test\<rparr>)"
| b_dec: "pc_b s = B_dec \<Longrightarrow> b_step s (s\<lparr>counter := counter s - 1, pc_b := B_unlock\<rparr>)"
| b_unlock: "pc_b s = B_unlock \<Longrightarrow> b_step s (s\<lparr>holder := None, pc_b := B_lock\<rparr>)"

text \<open>\<open>inc_counter\<close> of the two programs.\<close>

inductive c_step :: "case_kind \<Rightarrow> lock_st \<Rightarrow> lock_st \<Rightarrow> bool" for k where
  c_lock: "pc_c s = C_lock \<Longrightarrow> holder s = None \<Longrightarrow> c_step k s (s\<lparr>holder := Some ThreadC, pc_c := C_wrap\<rparr>)"
| c_wrap: "pc_c s = C_wrap \<Longrightarrow>
    c_step k s (s\<lparr>counter := (if counter s = 10000 then 0 else counter s), pc_c := C_test\<rparr>)"
| c_zero: "pc_c s = C_test \<Longrightarrow> counter s = 0 \<Longrightarrow>
    c_step k s (s\<lparr>pc_c := (case k of Sleep \<Rightarrow> C_sleep | Spin \<Rightarrow> C_spin 0 0)\<rparr>)"
| c_nonzero: "pc_c s = C_test \<Longrightarrow> counter s \<noteq> 0 \<Longrightarrow> c_step k s (s\<lparr>pc_c := C_inc\<rparr>)"
| c_slept: "pc_c s = C_sleep \<Longrightarrow> c_step k s (s\<lparr>pc_c := C_signal\<rparr>)"
| c_inner: "pc_c s = C_spin i j \<Longrightarrow> i < 10000 \<Longrightarrow> j < 10000 \<Longrightarrow> c_step k s (s\<lparr>pc_c := C_spin i (Suc j)\<rparr>)"
| c_outer: "pc_c s = C_spin i j \<Longrightarrow> i < 10000 \<Longrightarrow> \<not> j < 10000 \<Longrightarrow> c_step k s (s\<lparr>pc_c := C_spin (Suc i) 0\<rparr>)"
| c_spun: "pc_c s = C_spin i j \<Longrightarrow> \<not> i < 10000 \<Longrightarrow> c_step k s (s\<lparr>pc_c := C_signal\<rparr>)"
| c_signal: "pc_c s = C_signal \<Longrightarrow> c_step k s (s\<lparr>pc_b := wake_b (pc_b s), pc_c := C_inc\<rparr>)"
| c_inc: "pc_c s = C_inc \<Longrightarrow> c_step k s (s\<lparr>counter := counter s + 1, pc_c := C_unlock\<rparr>)"
| c_unlock: "pc_c s = C_unlock \<Longrightarrow> c_step k s (s\<lparr>holder := None, pc_c := C_lock\<rparr>)"

text \<open>\<open>thread_wait\<close>; its own lock is used by no other thread.\<close>

inductive a_step :: "lock_st \<Rightarrow> lock_st \<Rightarrow> bool" where
  a_call: "pc_a s = A_call \<Longrightarrow> a_step s (s\<lparr>pc_a := A_wait\<rparr>)"
| a_spurious: "pc_a s = A_wait \<Longrightarrow> a_step s (s\<lparr>pc_a := A_loop 0\<rparr>)"
| a_turn: "pc_a s = A_loop i \<Longrightarrow> i < wait_wl \<Longrightarrow> a_step s (s\<lparr>pc_a := A_loop (i + 1)\<rparr>)"
| a_done: "pc_a s = A_loop i \<Longrightarrow> \<not> i < wait_wl \<Longrightarrow> a_step s (s\<lparr>pc_a := A_call\<rparr>)"

definition lock_step :: "case_kind \<Rightarrow> lock_st \<Rightarrow> lock_st \<Rightarrow> bool" where
  "lock_step k s s' \<longleftrightarrow> a_step s s' \<or> b_step s s' \<or> c_step k s s'"

inductive_cases b_stepE: "b_step s s'"
inductive_cases c_stepE: "c_step k s s'"
inductive_cases a_stepE: "a_step s s'"

section \<open>The invariant\<close>

fun b_holds :: "b_pc \<Rightarrow> bool" where
  "b_holds p \<longleftrightarrow> p \<in> {B_test, B_signal, B_dec, B_unlock}"

fun c_holds :: "c_pc \<Rightarrow> bool" where
  "c_holds p \<longleftrightarrow> p \<noteq> C_lock"

text \<open>What each place in the code may assume of the counter, and that a waiting B finds it zero.\<close>

definition lock_inv :: "lock_st \<Rightarrow> bool" where
  "lock_inv s \<longleftrightarrow> counter s \<le> 10000 \<and>
     (b_holds (pc_b s) \<longleftrightarrow> holder s = Some ThreadB) \<and> (c_holds (pc_c s) \<longleftrightarrow> holder s = Some ThreadC) \<and>
     (pc_b s = B_dec \<longrightarrow> counter s \<noteq> 0) \<and>
     (pc_c s \<in> {C_test, C_sleep, C_signal, C_inc} \<or> (\<exists>i j. pc_c s = C_spin i j) \<longrightarrow> counter s < 10000) \<and>
     (pc_c s \<in> {C_sleep, C_signal} \<or> (\<exists>i j. pc_c s = C_spin i j) \<longrightarrow> counter s = 0) \<and>
     (pc_b s = B_wait \<longrightarrow> counter s = 0 \<and> pc_c s \<notin> {C_inc})"

lemma dec_le: "c \<le> (10000 :: u32) \<Longrightarrow> c \<noteq> 0 \<Longrightarrow> c - 1 \<le> 10000"
  by (simp add: word_le_nat_alt unat_minus_one)

lemma inc_le: "c < (10000 :: u32) \<Longrightarrow> c + 1 \<le> 10000"
  by (simp add: inc_le)

lemma b_step_inv: "b_step s s' \<Longrightarrow> lock_inv s \<Longrightarrow> lock_inv s'"
  by (erule b_stepE) (auto simp: lock_inv_def dec_le)

lemma a_step_inv: "a_step s s' \<Longrightarrow> lock_inv s \<Longrightarrow> lock_inv s'"
  by (erule a_stepE) (auto simp: lock_inv_def)

lemma c_step_inv: "c_step k s s' \<Longrightarrow> lock_inv s \<Longrightarrow> lock_inv s'"
  by (erule c_stepE) (auto simp: lock_inv_def wake_b_def inc_le split: case_kind.splits)

lemma lock_run_inv: "(lock_step k)\<^sup>*\<^sup>* lock_start s \<Longrightarrow> lock_inv s"
proof (induction rule: rtranclp_induct)
  case base
  show ?case by (simp add: lock_inv_def lock_start_def)
next
  case (step s s')
  then show ?case by (auto simp: lock_step_def intro: a_step_inv b_step_inv c_step_inv)
qed

section \<open>A waiting B is woken\<close>

text \<open>How far thread C is from its signal when the counter is zero.\<close>

fun c_rank :: "c_pc \<Rightarrow> nat" where
  "c_rank C_unlock = 100030006"
| "c_rank C_lock = 100030005"
| "c_rank C_wrap = 100030004"
| "c_rank C_test = 100030003"
| "c_rank C_sleep = 2"
| "c_rank (C_spin i j) = 2 + (10000 - i) * 10002 + (10000 - j)"
| "c_rank C_signal = 1"
| "c_rank C_inc = 0"

lemma c_progress:
  assumes "lock_inv s" and "pc_b s = B_wait"
  shows "\<exists>s'. c_step k s s' \<and> (pc_b s' = B_woken \<or> pc_b s' = B_wait \<and> c_rank (pc_c s') < c_rank (pc_c s))"
proof (cases "pc_c s")
  case C_lock
  have "holder s = None"
  proof (cases "holder s")
    case (Some t)
    with assms C_lock show ?thesis by (cases t) (auto simp: lock_inv_def)
  qed simp
  from c_step.c_lock [OF C_lock this] C_lock assms(2) show ?thesis by fastforce
next
  case C_wrap
  from c_step.c_wrap [OF this] C_wrap assms(2) show ?thesis by fastforce
next
  case C_test
  with assms have "counter s = 0" by (simp add: lock_inv_def)
  show ?thesis
    by (rule exI, rule conjI, rule c_step.c_zero [OF C_test \<open>counter s = 0\<close>])
      (use C_test assms(2) in \<open>simp split: case_kind.splits\<close>)
next
  case C_sleep
  from c_step.c_slept [OF this] C_sleep assms(2) show ?thesis by fastforce
next
  case (C_spin i j)
  show ?thesis
  proof (cases "i < 10000")
    case i: True
    show ?thesis
    proof (cases "j < 10000")
      case True
      show ?thesis
        by (rule exI, rule conjI, rule c_step.c_inner [OF C_spin i True]) (use C_spin assms(2) True in simp)
    next
      case False
      show ?thesis
        by (rule exI, rule conjI, rule c_step.c_outer [OF C_spin i False]) (use C_spin assms(2) i False in simp)
    qed
  next
    case False
    show ?thesis
      by (rule exI, rule conjI, rule c_step.c_spun [OF C_spin False]) (use C_spin assms(2) in simp)
  qed
next
  case C_signal
  show ?thesis
    by (rule exI, rule conjI, rule c_step.c_signal [OF C_signal]) (use assms(2) in \<open>simp add: wake_b_def\<close>)
next
  case C_inc
  with assms show ?thesis by (simp add: lock_inv_def)
next
  case C_unlock
  from c_step.c_unlock [OF this] C_unlock assms(2) show ?thesis by fastforce
qed

lemma c_wakes: "lock_inv s \<Longrightarrow> pc_b s = B_wait \<Longrightarrow> \<exists>s'. (c_step k)\<^sup>*\<^sup>* s s' \<and> pc_b s' = B_woken"
proof (induction "c_rank (pc_c s)" arbitrary: s rule: less_induct)
  case less
  obtain s1 where s1: "c_step k s s1" "pc_b s1 = B_woken \<or> pc_b s1 = B_wait \<and> c_rank (pc_c s1) < c_rank (pc_c s)"
    using c_progress [OF less.prems] by blast
  from s1(2) show ?case
  proof
    assume "pc_b s1 = B_woken"
    with s1(1) show ?thesis by blast
  next
    assume "pc_b s1 = B_wait \<and> c_rank (pc_c s1) < c_rank (pc_c s)"
    with less.hyps [of s1] c_step_inv [OF s1(1) less.prems(1)] obtain s' where
      "(c_step k)\<^sup>*\<^sup>* s1 s'" "pc_b s' = B_woken" by blast
    with converse_rtranclp_into_rtranclp [of "c_step k", OF s1(1)] show ?thesis by blast
  qed
qed

section \<open>Properties\<close>

text \<open>
  C39: In every state the sample programs reach, the counter is at most 10000, threads B and C never
  hold the lock together, B subtracts only from a positive counter and C adds only below 10000: the
  unsigned counter never wraps.
\<close>

theorem counter_safe:
  assumes "(lock_step k)\<^sup>*\<^sup>* lock_start s"
  shows "counter s \<le> 10000 \<and> \<not> (b_holds (pc_b s) \<and> c_holds (pc_c s)) \<and>
    (pc_b s = B_dec \<longrightarrow> 0 < counter s) \<and> (pc_c s = C_inc \<longrightarrow> counter s < 10000)"
  using lock_run_inv [OF assms] by (auto simp: lock_inv_def word_neq_0_conv)

text \<open>
  C38: No wake-up of B is lost: whenever B waits the counter is zero, and C running alone, through its
  sleep or through all the turns of its busy loop, comes to wake it.
\<close>

theorem waiting_b_is_woken:
  assumes "(lock_step k)\<^sup>*\<^sup>* lock_start s" and "pc_b s = B_wait"
  shows "counter s = 0 \<and> (\<exists>s'. (c_step k)\<^sup>*\<^sup>* s s' \<and> pc_b s' = B_woken)"
  using lock_run_inv [OF assms(1)] c_wakes [OF lock_run_inv [OF assms(1)] assms(2)] assms(2)
  by (simp add: lock_inv_def)

lemma b_waits_first: "\<exists>s. (lock_step k)\<^sup>*\<^sup>* lock_start s \<and> pc_b s = B_wait"
proof -
  let ?s1 = "lock_start\<lparr>holder := Some ThreadB, pc_b := B_test\<rparr>"
  have "lock_step k lock_start ?s1"
    unfolding lock_step_def using b_step.b_lock [of lock_start] by (simp add: lock_start_def)
  moreover have "lock_step k ?s1 (?s1\<lparr>holder := None, pc_b := B_wait\<rparr>)"
    unfolding lock_step_def using b_step.b_zero [of ?s1] by (simp add: lock_start_def)
  ultimately have "(lock_step k)\<^sup>*\<^sup>* lock_start (?s1\<lparr>holder := None, pc_b := B_wait\<rparr>)" by auto
  then show ?thesis by fastforce
qed

theorem counter_safe_witness:
  "\<exists>s. (lock_step Spin)\<^sup>*\<^sup>* lock_start s \<and> pc_b s = B_wait \<and> counter s \<le> 10000"
  using b_waits_first counter_safe by blast

theorem waiting_b_is_woken_witness:
  "\<exists>s s'. (lock_step Spin)\<^sup>*\<^sup>* lock_start s \<and> pc_b s = B_wait \<and> (c_step Spin)\<^sup>*\<^sup>* s s' \<and> pc_b s' = B_woken"
  using b_waits_first waiting_b_is_woken by blast

section \<open>The two programs\<close>

text \<open>The threads C of the two programs, and the programs: what \<open>main\<close> starts.\<close>

definition inc_counter_sleep :: "lock_st \<Rightarrow> lock_st \<Rightarrow> bool" where
  "inc_counter_sleep = c_step Sleep"

definition inc_counter_spin :: "lock_st \<Rightarrow> lock_st \<Rightarrow> bool" where
  "inc_counter_spin = c_step Spin"

definition thread_main_spin :: "lock_st \<Rightarrow> lock_st \<Rightarrow> bool" where
  "thread_main_spin s s' \<longleftrightarrow> b_step s s' \<or> inc_counter_spin s s'"

definition spin_main :: "lock_st \<Rightarrow> bool" where
  "spin_main s \<longleftrightarrow> (\<lambda>s s'. thread_main_spin s s' \<or> a_step s s')\<^sup>*\<^sup>* lock_start s"

text \<open>B or C can always go on, without a wait ending by itself.\<close>

lemma b_or_c_goes_on:
  assumes "lock_inv s"
  shows "\<exists>s'. c_step k s s' \<or> pc_b s \<noteq> B_wait \<and> b_step s s'"
proof (cases "holder s")
  case None
  with assms have "pc_c s = C_lock" by (auto simp: lock_inv_def)
  then show ?thesis using c_step.c_lock None by blast
next
  case (Some t)
  show ?thesis
  proof (cases t)
    case ThreadB
    with assms Some have "b_holds (pc_b s)" by (auto simp: lock_inv_def)
    then consider "pc_b s = B_test" | "pc_b s = B_signal" | "pc_b s = B_dec" | "pc_b s = B_unlock" by auto
    then show ?thesis
    proof cases
      case 1
      then show ?thesis using b_step.b_zero b_step.b_nonzero by (cases "counter s = 0") fastforce+
    next
      case 2
      then show ?thesis using b_step.b_signal by fastforce
    next
      case 3
      then show ?thesis using b_step.b_dec by fastforce
    next
      case 4
      then show ?thesis using b_step.b_unlock by fastforce
    qed
  next
    case ThreadC
    with assms Some have "c_holds (pc_c s)" by (auto simp: lock_inv_def)
    then have "\<exists>s'. c_step k s s'"
    proof (cases "pc_c s")
      case (C_spin i j)
      then show ?thesis using c_step.c_inner c_step.c_outer c_step.c_spun by (cases "i < 10000"; cases "j < 10000") blast+
    next
      case C_test
      then show ?thesis using c_step.c_zero c_step.c_nonzero by (cases "counter s = 0") blast+
    qed (auto intro: c_step.intros)
    then show ?thesis by blast
  qed
qed

text \<open>
  Neither program gets stuck, and so \<open>main\<close>, which waits for its threads, does not return: in every
  state reached, B or C has a next step that is not a wait ending by itself.
\<close>

theorem case_never_stuck:
  assumes "(lock_step k)\<^sup>*\<^sup>* lock_start s"
  shows "\<exists>s'. c_step k s s' \<or> pc_b s \<noteq> B_wait \<and> b_step s s'"
  by (rule b_or_c_goes_on [OF lock_run_inv [OF assms]])

theorem case_never_stuck_witness:
  "\<exists>s s'. (lock_step Sleep)\<^sup>*\<^sup>* lock_start s \<and> pc_b s = B_wait \<and> c_step Sleep s s'"
  using b_waits_first [of Sleep] case_never_stuck by blast

end
