(* ===== verification/GoTree.thy ===== *)
theory GoTree
  imports WPrelude
begin

text \<open>
  The ordered map the analyzer keeps its intervals in: the red-black tree of
  analyzer/vendor/github.com/emirpasic/gods (\<open>trees/redblacktree\<close> and \<open>maps/treemap\<close>, which only passes
  its calls on), with 64-bit unsigned keys. A node with its parent pointers is a pair of the subtree
  below it and the path above it, so that the rotations and repainting of an insertion and
  the climbing of an iterator are written as the code does them.
\<close>

section \<open>Go programs that stop\<close>

text \<open>
  The ways a run of the analyzer ends early: an index outside a slice, the use of a nil pointer, the
  conversion of a nil interface value, and \<open>log.Fatalln\<close>.
\<close>

datatype go_stop = IndexOutOfRange | NilDereference | NilConversion | Fatal

type_synonym 'a go = "go_stop + 'a"

section \<open>Trees\<close>

datatype color = Black | Red

datatype 'v node = Nil_node | Node (ncolor: color) u64 'v "'v node" "'v node"

text \<open>
  What the \<open>Parent\<close> pointer of a node leads to: the parent with its other subtree, the node being its
  left or its right child.
\<close>

datatype 'v above = AtLeft color u64 'v "'v node" | AtRight color u64 'v "'v node"

type_synonym 'v path = "'v above list"

record 'v rbtree =
  root :: "'v node"
  tree_size :: nat

definition new_with :: "'v rbtree" where
  "new_with = \<lparr>root = Nil_node, tree_size = 0\<rparr>"

definition node_color :: "'v node \<Rightarrow> color" where
  "node_color n = (case n of Nil_node \<Rightarrow> Black | Node c _ _ _ _ \<Rightarrow> c)"

fun paint :: "color \<Rightarrow> 'v node \<Rightarrow> 'v node" where
  "paint c Nil_node = Nil_node"
| "paint c (Node _ k v l r) = Node c k v l r"

fun fill :: "'v above \<Rightarrow> 'v node \<Rightarrow> 'v node" where
  "fill (AtLeft c k v r) n = Node c k v n r"
| "fill (AtRight c k v l) n = Node c k v l n"

definition attach :: "'v node \<Rightarrow> 'v path \<Rightarrow> 'v node" where
  "attach n p = foldl (\<lambda>m f. fill f m) n p"

fun parent_color :: "'v above \<Rightarrow> color" where
  "parent_color (AtLeft c k v s) = c"
| "parent_color (AtRight c k v s) = c"

fun sibling :: "'v above \<Rightarrow> 'v node" where
  "sibling (AtLeft c k v s) = s"
| "sibling (AtRight c k v s) = s"

fun recolor :: "color \<Rightarrow> 'v above \<Rightarrow> 'v above" where
  "recolor c (AtLeft _ k v s) = AtLeft c k v s"
| "recolor c (AtRight _ k v s) = AtRight c k v s"

fun paint_sibling :: "color \<Rightarrow> 'v above \<Rightarrow> 'v above" where
  "paint_sibling c (AtLeft d k v s) = AtLeft d k v (paint c s)"
| "paint_sibling c (AtRight d k v s) = AtRight d k v (paint c s)"

section \<open>Looking up\<close>

text \<open>The loops of \<open>Floor\<close> and \<open>Ceiling\<close>, with the best node so far.\<close>

fun rb_floor_loop :: "u64 \<Rightarrow> 'v node \<Rightarrow> (u64 \<times> 'v) option \<Rightarrow> (u64 \<times> 'v) option" where
  "rb_floor_loop key Nil_node best = best"
| "rb_floor_loop key (Node c k v l r) best =
     (if key = k then Some (k, v)
      else if key < k then rb_floor_loop key l best
      else rb_floor_loop key r (Some (k, v)))"

definition rb_floor :: "u64 \<Rightarrow> 'v rbtree \<Rightarrow> (u64 \<times> 'v) option" where
  "rb_floor key t = rb_floor_loop key (root t) None"

fun rb_ceiling_loop :: "u64 \<Rightarrow> 'v node \<Rightarrow> (u64 \<times> 'v) option \<Rightarrow> (u64 \<times> 'v) option" where
  "rb_ceiling_loop key Nil_node best = best"
| "rb_ceiling_loop key (Node c k v l r) best =
     (if key = k then Some (k, v)
      else if key < k then rb_ceiling_loop key l (Some (k, v))
      else rb_ceiling_loop key r best)"

definition rb_ceiling :: "u64 \<Rightarrow> 'v rbtree \<Rightarrow> (u64 \<times> 'v) option" where
  "rb_ceiling key t = rb_ceiling_loop key (root t) None"

section \<open>Insertion\<close>

text \<open>The rotations; the child that moves up must be there.\<close>

fun rotate_left :: "'v node \<Rightarrow> 'v node go" where
  "rotate_left (Node c k v l (Node c' k' v' l' r')) = Inr (Node c' k' v' (Node c k v l l') r')"
| "rotate_left _ = Inl NilDereference"

fun rotate_right :: "'v node \<Rightarrow> 'v node go" where
  "rotate_right (Node c k v (Node c' k' v' l' r') r) = Inr (Node c' k' v' l' (Node c k v r' r))"
| "rotate_right _ = Inl NilDereference"

text \<open>
  \<open>insertCase5\<close>: parent black, grandparent red, and a rotation of the grandparent when node and parent
  are children on the same side.
\<close>

fun insert_case5 :: "'v node \<Rightarrow> 'v path \<Rightarrow> 'v node go" where
  "insert_case5 n (f # g # q) =
     (let t = fill (recolor Red g) (fill (recolor Black f) n) in
      case (f, g) of
        (AtLeft _ _ _ _, AtLeft _ _ _ _) \<Rightarrow> res_bind (rotate_right t) (\<lambda>t'. Inr (attach t' q))
      | (AtRight _ _ _ _, AtRight _ _ _ _) \<Rightarrow> res_bind (rotate_left t) (\<lambda>t'. Inr (attach t' q))
      | _ \<Rightarrow> Inr (attach t q))"
| "insert_case5 n _ = Inl NilDereference"

text \<open>
  \<open>insertCase4\<close>: a node on the inner side is first rotated above its parent, which then is the node
  \<open>insertCase5\<close> continues with.
\<close>

fun insert_case4 :: "'v node \<Rightarrow> 'v path \<Rightarrow> 'v node go" where
  "insert_case4 n (f # g # q) =
     (case (f, g) of
        (AtRight _ _ _ _, AtLeft _ _ _ _) \<Rightarrow> res_bind (rotate_left (fill f n)) (\<lambda>t.
          case t of Node c k v l r \<Rightarrow> insert_case5 l (AtLeft c k v r # g # q) | Nil_node \<Rightarrow> Inl NilDereference)
      | (AtLeft _ _ _ _, AtRight _ _ _ _) \<Rightarrow> res_bind (rotate_right (fill f n)) (\<lambda>t.
          case t of Node c k v l r \<Rightarrow> insert_case5 r (AtRight c k v l # g # q) | Nil_node \<Rightarrow> Inl NilDereference)
      | _ \<Rightarrow> insert_case5 n (f # g # q))"
| "insert_case4 n _ = Inl NilDereference"

text \<open>
  \<open>insertCase1\<close> to \<open>insertCase3\<close>: the root is painted black; below a black parent nothing is to be done;
  a red uncle is painted black with the parent and the work goes on at the grandparent.
\<close>

fun insert_case1 :: "'v node \<Rightarrow> 'v path \<Rightarrow> 'v node go" where
  "insert_case1 n [] = Inr (paint Black n)"
| "insert_case1 n [f] =
     (if parent_color f = Black then Inr (attach n [f]) else insert_case4 n [f])"
| "insert_case1 n (f # g # q) =
     (if parent_color f = Black then Inr (attach n (f # g # q))
      else if node_color (sibling g) = Red
      then insert_case1 (fill (recolor Red (paint_sibling Black g)) (fill (recolor Black f) n)) q
      else insert_case4 n (f # g # q))"

text \<open>The loop of \<open>Put\<close>: down to the node with the key, or to the nil child where it belongs.\<close>

fun locate :: "u64 \<Rightarrow> 'v node \<Rightarrow> 'v path \<Rightarrow> 'v node \<times> 'v path" where
  "locate key Nil_node p = (Nil_node, p)"
| "locate key (Node c k v l r) p =
     (if key = k then (Node c k v l r, p)
      else if key < k then locate key l (AtLeft c k v r # p)
      else locate key r (AtRight c k v l # p))"

definition rb_put :: "u64 \<Rightarrow> 'v \<Rightarrow> 'v rbtree \<Rightarrow> 'v rbtree go" where
  "rb_put key v t =
     (case locate key (root t) [] of
        (Node c _ _ l r, p) \<Rightarrow> Inr (t\<lparr>root := attach (Node c key v l r) p\<rparr>)
      | (Nil_node, p) \<Rightarrow>
          res_bind (insert_case1 (Node Red key v Nil_node Nil_node) p) (\<lambda>n.
            Inr (t\<lparr>root := n, tree_size := Suc (tree_size t)\<rparr>)))"

section \<open>Iteration\<close>

text \<open>The state of an iterator: before the first node, at a node, behind the last.\<close>

datatype 'v iterator = At_begin | At_node "'v node" "'v path" | At_end

text \<open>\<open>Left\<close>: down the left children.\<close>

fun leftmost :: "'v node \<Rightarrow> 'v path \<Rightarrow> 'v node \<times> 'v path" where
  "leftmost Nil_node p = (Nil_node, p)"
| "leftmost (Node c k v Nil_node r) p = (Node c k v Nil_node r, p)"
| "leftmost (Node c k v l r) p = leftmost l (AtLeft c k v r # p)"

text \<open>The climb: up until a parent whose key is not smaller.\<close>

fun climb :: "u64 \<Rightarrow> 'v node \<Rightarrow> 'v path \<Rightarrow> 'v iterator" where
  "climb key n [] = At_end"
| "climb key n (f # p) =
     (case fill f n of
        Node c k v l r \<Rightarrow> if key \<le> k then At_node (fill f n) p else climb key (fill f n) p
      | Nil_node \<Rightarrow> At_end)"

definition it_next :: "'v rbtree \<Rightarrow> 'v iterator \<Rightarrow> 'v iterator" where
  "it_next t it =
     (case it of
        At_end \<Rightarrow> At_end
      | At_begin \<Rightarrow> (case leftmost (root t) [] of (Nil_node, _) \<Rightarrow> At_end | (n, p) \<Rightarrow> At_node n p)
      | At_node (Node c k v l (Node c' k' v' l' r')) p \<Rightarrow>
          (case leftmost (Node c' k' v' l' r') (AtRight c k v l # p) of (n, q) \<Rightarrow> At_node n q)
      | At_node (Node c k v l Nil_node) p \<Rightarrow> climb k (Node c k v l Nil_node) p
      | At_node Nil_node p \<Rightarrow> At_end)"

definition it_entry :: "'v iterator \<Rightarrow> (u64 \<times> 'v) option" where
  "it_entry it = (case it of At_node (Node c k v l r) p \<Rightarrow> Some (k, v) | _ \<Rightarrow> None)"

text \<open>A loop over \<open>Next\<close> and the entries it sees; whether it ends is part of what is to be shown.\<close>

partial_function (option) visit :: "'v rbtree \<Rightarrow> 'v iterator \<Rightarrow> (u64 \<times> 'v) list \<Rightarrow> (u64 \<times> 'v) list option" where
  "visit t it seen =
     (let it' = it_next t it in
      case it_entry it' of None \<Rightarrow> Some seen | Some e \<Rightarrow> visit t it' (seen @ [e]))"

declare visit.simps [code]

section \<open>The entries of a tree\<close>

fun entries :: "'v node \<Rightarrow> (u64 \<times> 'v) list" where
  "entries Nil_node = []"
| "entries (Node c k v l r) = entries l @ (k, v) # entries r"

fun before :: "'v path \<Rightarrow> (u64 \<times> 'v) list" where
  "before [] = []"
| "before (AtLeft c k v s # p) = before p"
| "before (AtRight c k v s # p) = before p @ entries s @ [(k, v)]"

fun behind :: "'v path \<Rightarrow> (u64 \<times> 'v) list" where
  "behind [] = []"
| "behind (AtLeft c k v s # p) = (k, v) # entries s @ behind p"
| "behind (AtRight c k v s # p) = behind p"

definition keys_ascend :: "(u64 \<times> 'v) list \<Rightarrow> bool" where
  "keys_ascend es \<longleftrightarrow> sorted_wrt (<) (map fst es)"

lemma keys_ascend_simps [simp]:
  "keys_ascend []"
  "keys_ascend (e # es) \<longleftrightarrow> (\<forall>x \<in> set es. fst e < fst x) \<and> keys_ascend es"
  "keys_ascend (es @ fs) \<longleftrightarrow> keys_ascend es \<and> keys_ascend fs \<and> (\<forall>x \<in> set es. \<forall>y \<in> set fs. fst x < fst y)"
  by (auto simp: keys_ascend_def sorted_wrt_append)

lemma attach_simps [simp]: "attach n [] = n" "attach n (f # p) = attach (fill f n) p"
  by (simp_all add: attach_def)

lemma entries_paint [simp]: "entries (paint c n) = entries n"
  by (cases n) simp_all

lemma entries_attach: "entries (attach n p) = before p @ entries n @ behind p"
proof (induction p arbitrary: n)
  case (Cons f p)
  then show ?case by (cases f) simp_all
qed simp

lemma path_recolor [simp]:
  "before (recolor c f # p) = before (f # p)" "behind (recolor c f # p) = behind (f # p)"
  "before (paint_sibling c f # p) = before (f # p)" "behind (paint_sibling c f # p) = behind (f # p)"
  by (cases f; simp)+

lemma entries_fill: "before p @ entries (fill f n) @ behind p = before (f # p) @ entries n @ behind (f # p)"
  by (cases f) simp_all

section \<open>Ordered association lists\<close>

text \<open>What the operations of the ordered map do, on the list of its entries.\<close>

fun al_put :: "u64 \<Rightarrow> 'v \<Rightarrow> (u64 \<times> 'v) list \<Rightarrow> (u64 \<times> 'v) list" where
  "al_put key v [] = [(key, v)]"
| "al_put key v ((k, w) # es) =
     (if key < k then (key, v) # (k, w) # es
      else if key = k then (key, v) # es else (k, w) # al_put key v es)"

definition al_floor :: "u64 \<Rightarrow> (u64 \<times> 'v) list \<Rightarrow> (u64 \<times> 'v) option" where
  "al_floor key es = (let fs = filter (\<lambda>e. fst e \<le> key) es in if fs = [] then None else Some (last fs))"

definition al_ceiling :: "u64 \<Rightarrow> (u64 \<times> 'v) list \<Rightarrow> (u64 \<times> 'v) option" where
  "al_ceiling key es = (let fs = filter (\<lambda>e. key \<le> fst e) es in if fs = [] then None else Some (hd fs))"

lemma al_put_before: "\<forall>x \<in> set es. fst x < key \<Longrightarrow> al_put key v (es @ fs) = es @ al_put key v fs"
  by (induction es) (auto simp: not_less_iff_gr_or_eq)

lemma al_put_behind: "\<forall>x \<in> set es. key < fst x \<Longrightarrow> al_put key v es = (key, v) # es"
  by (cases es) auto

lemma al_put_set: "set (map fst (al_put key v es)) = insert key (set (map fst es))"
  by (induction key v es rule: al_put.induct) auto

lemma al_put_ascend: "keys_ascend es \<Longrightarrow> keys_ascend (al_put key v es)"
proof (induction key v es rule: al_put.induct)
  case (2 key v k w es)
  have "fst x = key \<or> fst x \<in> fst ` set es" if "x \<in> set (al_put key v es)" for x
    using al_put_set [of key v es] that by (auto simp: image_iff set_eq_iff)
  with 2 show ?case by fastforce
qed simp

lemma map_of_al_put: "map_of (al_put key v es) = (map_of es)(key \<mapsto> v)"
  by (induction key v es rule: al_put.induct) auto

lemma al_floor_Some:
  assumes "keys_ascend es"
  shows "al_floor key es = Some (k, v) \<longleftrightarrow>
    (k, v) \<in> set es \<and> k \<le> key \<and> (\<forall>e \<in> set es. fst e \<le> key \<longrightarrow> fst e \<le> k)"
  using assms
proof (induction es rule: rev_induct)
  case (snoc e es)
  obtain k' v' where e: "e = (k', v')" by fastforce
  show ?case
  proof (cases "k' \<le> key")
    case True
    with e snoc.prems show ?thesis by (force simp: al_floor_def)
  next
    case False
    then have "al_floor key (es @ [e]) = al_floor key es" using e by (simp add: al_floor_def)
    with snoc e False show ?thesis by auto
  qed
qed (simp add: al_floor_def)

lemma al_ceiling_Some:
  assumes "keys_ascend es"
  shows "al_ceiling key es = Some (k, v) \<longleftrightarrow>
    (k, v) \<in> set es \<and> key \<le> k \<and> (\<forall>e \<in> set es. key \<le> fst e \<longrightarrow> k \<le> fst e)"
  using assms
proof (induction es)
  case (Cons e es)
  obtain k' v' where e: "e = (k', v')" by fastforce
  show ?case
  proof (cases "key \<le> k'")
    case True
    with e Cons.prems show ?thesis by (force simp: al_ceiling_def)
  next
    case False
    then have "al_ceiling key (e # es) = al_ceiling key es" using e by (simp add: al_ceiling_def)
    with Cons e False show ?thesis by auto
  qed
qed (simp add: al_ceiling_def)

section \<open>Looking up finds floor and ceiling\<close>

lemma al_floor_append:
  "al_floor key (es @ fs) = (case al_floor key fs of None \<Rightarrow> al_floor key es | Some e \<Rightarrow> Some e)"
  by (simp add: al_floor_def Let_def del: filter_empty_conv)

lemma al_ceiling_append:
  "al_ceiling key (es @ fs) = (case al_ceiling key es of None \<Rightarrow> al_ceiling key fs | Some e \<Rightarrow> Some e)"
  by (simp add: al_ceiling_def Let_def)

lemma al_floor_None: "\<forall>x \<in> set es. key < fst x \<Longrightarrow> al_floor key es = None"
  by (auto simp: al_floor_def filter_empty_conv)

lemma al_ceiling_None: "\<forall>x \<in> set es. fst x < key \<Longrightarrow> al_ceiling key es = None"
  by (auto simp: al_ceiling_def filter_empty_conv)

lemma al_floor_single: "al_floor key [(k, v)] = (if k \<le> key then Some (k, v) else None)"
  by (simp add: al_floor_def)

lemma al_ceiling_single: "al_ceiling key [(k, v)] = (if key \<le> k then Some (k, v) else None)"
  by (simp add: al_ceiling_def)

lemma al_floor_Cons:
  "al_floor key (e # es) = (case al_floor key es of None \<Rightarrow> al_floor key [e] | Some f \<Rightarrow> Some f)"
  using al_floor_append [of key "[e]" es] by simp

lemma al_ceiling_Cons:
  "al_ceiling key (e # es) = (case al_ceiling key [e] of None \<Rightarrow> al_ceiling key es | Some f \<Rightarrow> Some f)"
  using al_ceiling_append [of key "[e]" es] by simp

lemma rb_floor_loop_entries:
  "keys_ascend (entries n) \<Longrightarrow> rb_floor_loop key n best =
     (case al_floor key (entries n) of None \<Rightarrow> best | Some e \<Rightarrow> Some e)"
proof (induction key n best rule: rb_floor_loop.induct)
  case (2 key c k v l r best)
  note hyps = 2
  consider "key = k" | "key < k" | "k < key" by (rule linorder_cases) auto
  then show ?case
  proof cases
    case 1
    then have "al_floor key (entries r) = None" using hyps(3) by (auto intro: al_floor_None)
    with 1 show ?thesis
      by (simp add: al_floor_append al_floor_Cons [of _ _ "entries r"] al_floor_single)
  next
    case 2
    then have "al_floor key (entries r) = None" using hyps(3) by (auto intro!: al_floor_None)
    with 2 hyps show ?thesis
      by (auto simp: al_floor_append al_floor_Cons [of _ _ "entries r"] al_floor_single)
  next
    case 3
    then have "key \<noteq> k" "\<not> key < k" by auto
    with 3 hyps show ?thesis
      by (auto simp: al_floor_append al_floor_Cons [of _ _ "entries r"] al_floor_single split: option.splits)
  qed
qed (simp add: al_floor_def)

lemma rb_ceiling_loop_entries:
  "keys_ascend (entries n) \<Longrightarrow> rb_ceiling_loop key n best =
     (case al_ceiling key (entries n) of None \<Rightarrow> best | Some e \<Rightarrow> Some e)"
proof (induction key n best rule: rb_ceiling_loop.induct)
  case (2 key c k v l r best)
  note hyps = 2
  consider "key = k" | "key < k" | "k < key" by (rule linorder_cases) auto
  then show ?case
  proof cases
    case 1
    then have "al_ceiling key (entries l) = None" using hyps(3) by (auto intro: al_ceiling_None)
    with 1 show ?thesis
      by (simp add: al_ceiling_append al_ceiling_Cons [of _ _ "entries r"] al_ceiling_single)
  next
    case 2
    then have "key \<noteq> k" by simp
    with 2 hyps show ?thesis
      by (auto simp: al_ceiling_append al_ceiling_Cons [of _ _ "entries r"] al_ceiling_single split: option.splits)
  next
    case 3
    then have "al_ceiling key (entries l) = None" "key \<noteq> k" "\<not> key < k" using hyps(3) by (auto intro!: al_ceiling_None)
    with 3 hyps show ?thesis
      by (auto simp: al_ceiling_append al_ceiling_Cons [of _ _ "entries r"] al_ceiling_single)
  qed
qed (simp add: al_ceiling_def)

section \<open>Balance\<close>

text \<open>
  Every way down from a node passes the same number of black nodes, and no red node has a red child;
  what a path must satisfy for a black node of that height at its end.
\<close>

fun shape :: "nat \<Rightarrow> 'v node \<Rightarrow> bool" where
  "shape h Nil_node \<longleftrightarrow> h = 0"
| "shape h (Node c k v l r) \<longleftrightarrow>
     (if c = Red then node_color l = Black \<and> node_color r = Black \<and> shape h l \<and> shape h r
      else 0 < h \<and> shape (h - 1) l \<and> shape (h - 1) r)"

fun path_fits :: "nat \<Rightarrow> 'v path \<Rightarrow> bool" where
  "path_fits h [] \<longleftrightarrow> True"
| "path_fits h (f # p) \<longleftrightarrow> shape h (sibling f) \<and>
     (if parent_color f = Red
      then node_color (sibling f) = Black \<and> p \<noteq> [] \<and> parent_color (hd p) = Black \<and> path_fits h p
      else path_fits (Suc h) p)"

definition red_black :: "'v node \<Rightarrow> bool" where
  "red_black n \<longleftrightarrow> (\<exists>h. shape h n) \<and> node_color n = Black"

lemma color_cases [simp]: "c \<noteq> Red \<longleftrightarrow> c = Black" "c \<noteq> Black \<longleftrightarrow> c = Red"
  by (cases c; simp)+

lemma node_color_simps [simp]: "node_color Nil_node = Black" "node_color (Node c k v l r) = c"
  by (simp_all add: node_color_def)

lemma node_color_fill [simp]: "node_color (fill f n) = parent_color f"
  by (cases f) simp_all

lemma recolor_simps [simp]:
  "parent_color (recolor c f) = c" "sibling (recolor c f) = sibling f"
  "parent_color (paint_sibling c f) = parent_color f" "sibling (paint_sibling c f) = paint c (sibling f)"
  by (cases f; simp)+

lemma node_color_paint: "node_color (paint c n) = (if n = Nil_node then Black else c)"
  by (cases n) simp_all

lemma shape_fill:
  "shape h (fill f n) \<longleftrightarrow>
     (if parent_color f = Red
      then node_color n = Black \<and> node_color (sibling f) = Black \<and> shape h n \<and> shape h (sibling f)
      else 0 < h \<and> shape (h - 1) n \<and> shape (h - 1) (sibling f))"
  by (cases f) auto

lemma shape_paint_Black: "shape h n \<Longrightarrow> node_color n = Red \<Longrightarrow> shape (Suc h) (paint Black n)"
  by (cases n) simp_all

lemma attach_shape:
  assumes "shape h n" and "path_fits h p" and "node_color n = Red \<Longrightarrow> p \<noteq> [] \<and> parent_color (hd p) = Black"
  shows "red_black (attach n p)"
  using assms
proof (induction p arbitrary: h n)
  case Nil
  then show ?case by (cases "node_color n") (auto simp: red_black_def)
next
  case (Cons f p)
  show ?case
  proof (cases "parent_color f")
    case Red
    with Cons.prems have "shape h (fill f n)" by (cases "node_color n") (simp_all add: shape_fill)
    with Cons.IH [of h "fill f n"] Cons.prems(2) Red show ?thesis by simp
  next
    case Black
    with Cons.prems have "shape (Suc h) (fill f n)" by (simp add: shape_fill)
    with Cons.IH [of "Suc h" "fill f n"] Cons.prems(2) Black show ?thesis by simp
  qed
qed

text \<open>With a red parent and a black uncle the rotations give a black node in the grandparent's place.\<close>

lemma insert_case4_black:
  assumes "parent_color f = Red" "node_color n = Red" "shape h n" "shape h (sibling f)" "node_color (sibling f) = Black"
    "shape h (sibling g)" "node_color (sibling g) = Black"
  shows "\<exists>m. insert_case4 n (f # g # q) = Inr (attach m q) \<and> node_color m = Black \<and> shape (Suc h) m \<and>
    before q @ entries m @ behind q = before (f # g # q) @ entries n @ behind (f # g # q)"
proof -
  obtain k v l r where "n = Node Red k v l r" using assms(2) by (cases n) auto
  with assms show ?thesis by (cases f; cases g) (auto simp: Let_def)
qed

lemma insert_case1_ok:
  assumes "node_color n = Red" and "shape h n" and "path_fits h p"
  shows "\<exists>t. insert_case1 n p = Inr t \<and> red_black t \<and> entries t = before p @ entries n @ behind p"
  using assms
proof (induction n p arbitrary: h rule: insert_case1.induct)
  case (1 n)
  then have "shape (Suc h) (paint Black n)" by (simp add: shape_paint_Black)
  with "1.prems"(1) show ?case by (cases n) (auto simp: red_black_def)
next
  case (2 n f)
  then have "parent_color f = Black" by (cases "parent_color f") auto
  with 2 attach_shape [of h n "[f]"] entries_attach [of n "[f]"] show ?case by auto
next
  case (3 n f g q)
  show ?case
  proof (cases "parent_color f")
    case Black
    with "3.prems" attach_shape [of h n "f # g # q"] entries_attach [of n "f # g # q"] show ?thesis by auto
  next
    case f: Red
    with "3.prems"(3) have g: "parent_color g = Black" and fits: "path_fits (Suc h) q"
      and sib: "shape h (sibling f)" "node_color (sibling f) = Black" "shape h (sibling g)" by auto
    show ?thesis
    proof (cases "node_color (sibling g)")
      case uncle: Red
      let ?m = "fill (recolor Red (paint_sibling Black g)) (fill (recolor Black f) n)"
      have m: "shape (Suc h) ?m" "node_color ?m = Red"
        using uncle sib "3.prems" shape_paint_Black [OF sib(3) uncle]
        by (auto simp: shape_fill node_color_paint)
      have "before q @ entries ?m @ behind q = before (f # g # q) @ entries n @ behind (f # g # q)"
        by (cases f; cases g) simp_all
      with "3.IH" [of "Suc h"] f uncle m fits show ?thesis by auto
    next
      case uncle: Black
      from insert_case4_black [OF f "3.prems"(1,2) sib this] obtain m where
        m: "insert_case4 n (f # g # q) = Inr (attach m q)" "node_color m = Black" "shape (Suc h) m"
          "before q @ entries m @ behind q = before (f # g # q) @ entries n @ behind (f # g # q)" by blast
      with attach_shape [OF m(3) fits] f uncle entries_attach [of m q] show ?thesis by auto
    qed
  qed
qed

section \<open>Put\<close>

lemma locate_attach: "locate key n p = (m, q) \<Longrightarrow> attach m q = attach n p"
  by (induction key n p rule: locate.induct) (auto split: if_splits)

lemma locate_found: "locate key n p = (Node c k v l r, q) \<Longrightarrow> k = key"
  by (induction key n p rule: locate.induct) (auto split: if_splits)

lemma locate_fits:
  "locate key n p = (m, q) \<Longrightarrow> shape h n \<Longrightarrow> path_fits h p \<Longrightarrow>
   (node_color n = Red \<longrightarrow> p \<noteq> [] \<and> parent_color (hd p) = Black) \<Longrightarrow>
   \<exists>h'. shape h' m \<and> path_fits h' q \<and> (node_color m = Red \<longrightarrow> q \<noteq> [] \<and> parent_color (hd q) = Black)"
proof (induction key n p arbitrary: h rule: locate.induct)
  case (2 key c k v l r p)
  let ?h = "if c = Red then h else h - 1"
  have down: "shape ?h l" "shape ?h r" "path_fits ?h (AtLeft c k v r # p)" "path_fits ?h (AtRight c k v l # p)"
    using "2.prems" by (cases c; auto)+
  have black: "node_color l = Red \<longrightarrow> c = Black" "node_color r = Red \<longrightarrow> c = Black"
    using "2.prems"(2) by (cases c; auto)+
  show ?case
  proof (cases "key = k")
    case True
    with "2.prems" show ?thesis by auto
  next
    case neq: False
    show ?thesis
    proof (cases "key < k")
      case True
      show ?thesis by (rule "2.IH"(1) [OF neq True _ down(1,3)]) (use True neq "2.prems"(1) black in auto)
    next
      case False
      show ?thesis by (rule "2.IH"(2) [OF neq False _ down(2,4)]) (use False neq "2.prems"(1) black in auto)
    qed
  qed
qed auto

lemma locate_between:
  "locate key n p = (m, q) \<Longrightarrow> keys_ascend (entries n) \<Longrightarrow>
   \<forall>x \<in> set (before p). fst x < key \<Longrightarrow> \<forall>x \<in> set (behind p). key < fst x \<Longrightarrow>
   (\<forall>x \<in> set (before q). fst x < key) \<and> (\<forall>x \<in> set (behind q). key < fst x) \<and> keys_ascend (entries m)"
proof (induction key n p rule: locate.induct)
  case (2 key c k v l r p)
  show ?case
  proof (cases "key = k")
    case True
    with "2.prems" show ?thesis by simp
  next
    case neq: False
    show ?thesis
    proof (cases "key < k")
      case True
      then have "\<forall>x \<in> set (behind (AtLeft c k v r # p)). key < fst x"
        using "2.prems"(2,4) by (auto intro: less_trans)
      with "2.IH"(1) [OF neq True] "2.prems" neq True show ?thesis by simp
    next
      case False
      with neq have "k < key" by simp
      then have "\<forall>x \<in> set (before (AtRight c k v l # p)). fst x < key"
        using "2.prems"(2,3) by (auto intro: less_trans)
      with "2.IH"(2) [OF neq False] "2.prems" neq False show ?thesis by simp
    qed
  qed
qed simp

text \<open>What an ordered map keeps between calls.\<close>

definition rb_inv :: "'v rbtree \<Rightarrow> bool" where
  "rb_inv t \<longleftrightarrow> red_black (root t) \<and> keys_ascend (entries (root t)) \<and> tree_size t = length (entries (root t))"

lemma locate_entries:
  assumes "locate key n [] = (m, q)" and "keys_ascend (entries n)"
  shows "entries n = before q @ entries m @ behind q"
    and "al_put key v (entries n) = before q @ al_put key v (entries m) @ behind q"
proof -
  show e: "entries n = before q @ entries m @ behind q"
    using locate_attach [OF assms(1)] entries_attach [of m q] by simp
  have lt: "\<forall>x \<in> set (before q). fst x < key" and gt: "\<forall>x \<in> set (behind q). key < fst x"
    and asc: "keys_ascend (entries m)"
    using locate_between [OF assms(1,2)] by simp_all
  have "al_put key v (entries m @ behind q) = al_put key v (entries m) @ behind q"
  proof (cases m)
    case Nil_node
    with gt show ?thesis by (simp add: al_put_behind)
  next
    case (Node c k w l r)
    with assms(1) have k: "k = key" by (auto dest: locate_found)
    with asc Node have "\<forall>x \<in> set (entries l). fst x < key" by simp
    with Node k show ?thesis by (simp add: al_put_before)
  qed
  then show "al_put key v (entries n) = before q @ al_put key v (entries m) @ behind q"
    by (simp only: e al_put_before [OF lt])
qed

lemma rb_put_ok:
  assumes "rb_inv t"
  shows "\<exists>t'. rb_put key v t = Inr t' \<and> rb_inv t' \<and> entries (root t') = al_put key v (entries (root t))"
proof -
  obtain m q where loc: "locate key (root t) [] = (m, q)" by fastforce
  from assms obtain h where h: "shape h (root t)" "node_color (root t) = Black"
    and asc: "keys_ascend (entries (root t))" and sz: "tree_size t = length (entries (root t))"
    by (auto simp: rb_inv_def red_black_def)
  obtain h' where fits: "shape h' m" "path_fits h' q" "node_color m = Red \<longrightarrow> q \<noteq> [] \<and> parent_color (hd q) = Black"
    using locate_fits [OF loc h(1)] h(2) by auto
  note e = locate_entries [OF loc asc] and asc' = al_put_ascend [OF asc, of key v]
  show ?thesis
  proof (cases m)
    case Nil_node
    with fits(1) have "shape h' (Node Red key v Nil_node Nil_node)" by simp
    from insert_case1_ok [OF _ this fits(2)] obtain n where
      n: "insert_case1 (Node Red key v Nil_node Nil_node) q = Inr n" "red_black n"
        "entries n = before q @ [(key, v)] @ behind q" by auto
    with e(2) [of v] Nil_node have "entries n = al_put key v (entries (root t))" by simp
    moreover have "length (entries n) = Suc (length (entries (root t)))" using n(3) e(1) Nil_node by simp
    ultimately show ?thesis using n asc' sz loc Nil_node by (simp add: rb_put_def rb_inv_def)
  next
    case (Node c k w l r)
    let ?n = "attach (Node c key v l r) q"
    have k: "k = key" using loc Node by (auto dest: locate_found)
    have "shape h' (Node c key v l r)" using fits(1) Node by simp
    then have "red_black ?n" by (rule attach_shape [OF _ fits(2)]) (use fits(3) Node in simp)
    moreover have "entries ?n = al_put key v (entries (root t))"
    proof -
      have "keys_ascend (entries m)" using e(1) asc by simp
      with Node k have "al_put key v (entries m) = entries l @ (key, v) # entries r" by (simp add: al_put_before)
      with e(2) [of v] show ?thesis by (simp add: entries_attach)
    qed
    moreover have "length (entries ?n) = length (entries (root t))"
      using e(1) Node by (simp add: entries_attach)
    ultimately show ?thesis using asc' sz loc Node by (simp add: rb_put_def rb_inv_def)
  qed
qed

lemma rb_inv_new [simp]: "rb_inv new_with"
  by (auto simp: rb_inv_def new_with_def red_black_def)

lemma rb_floor_entries: "rb_inv t \<Longrightarrow> rb_floor key t = al_floor key (entries (root t))"
  by (simp add: rb_floor_def rb_inv_def rb_floor_loop_entries split: option.splits)

lemma rb_ceiling_entries: "rb_inv t \<Longrightarrow> rb_ceiling key t = al_ceiling key (entries (root t))"
  by (simp add: rb_ceiling_def rb_inv_def rb_ceiling_loop_entries split: option.splits)

text \<open>The number of comparisons a way down can take.\<close>

fun depth :: "'v node \<Rightarrow> nat" where
  "depth Nil_node = 0"
| "depth (Node c k v l r) = Suc (max (depth l) (depth r))"

lemma shape_depth: "shape h n \<Longrightarrow> depth n \<le> 2 * h + (if node_color n = Red then 1 else 0)"
proof (induction h n rule: shape.induct)
  case (2 h c k v l r)
  show ?case
  proof (cases c)
    case Red
    with 2 show ?thesis by simp
  next
    case Black
    with "2.prems" obtain h' where "h = Suc h'" by (cases h) auto
    with 2 Black show ?thesis by (auto split: if_splits)
  qed
qed simp

lemma shape_size: "shape h n \<Longrightarrow> 2 ^ h \<le> Suc (length (entries n))"
proof (induction h n rule: shape.induct)
  case (2 h c k v l r)
  show ?case
  proof (cases c)
    case Red
    with 2 show ?thesis by simp
  next
    case Black
    with "2.prems" obtain h' where "h = Suc h'" by (cases h) auto
    with 2 Black show ?thesis by simp
  qed
qed simp

lemma rb_inv_depth: "rb_inv t \<Longrightarrow> 2 ^ (depth (root t) div 2) \<le> Suc (tree_size t)"
proof -
  assume inv: "rb_inv t"
  then obtain h where h: "shape h (root t)" "node_color (root t) = Black"
    by (auto simp: rb_inv_def red_black_def)
  have "depth (root t) \<le> 2 * h" using shape_depth [OF h(1)] h(2) by simp
  then have "depth (root t) div 2 \<le> h" by linarith
  then have "(2::nat) ^ (depth (root t) div 2) \<le> 2 ^ h" by (intro power_increasing) simp_all
  also have "\<dots> \<le> Suc (tree_size t)" using shape_size [OF h(1)] inv by (simp add: rb_inv_def)
  finally show ?thesis .
qed

section \<open>Iteration sees every entry in order\<close>

text \<open>The entries at and behind the position of an iterator.\<close>

fun ahead :: "'v rbtree \<Rightarrow> 'v iterator \<Rightarrow> (u64 \<times> 'v) list" where
  "ahead t At_begin = entries (root t)"
| "ahead t (At_node (Node c k v l r) p) = entries r @ behind p"
| "ahead t (At_node Nil_node p) = []"
| "ahead t At_end = []"

text \<open>An iterator that stands in the tree.\<close>

fun stands_in :: "'v rbtree \<Rightarrow> 'v iterator \<Rightarrow> bool" where
  "stands_in t (At_node n p) \<longleftrightarrow> n \<noteq> Nil_node \<and> attach n p = root t"
| "stands_in t _ \<longleftrightarrow> True"

lemma leftmost_first:
  "n \<noteq> Nil_node \<Longrightarrow> leftmost n p = (m, q) \<Longrightarrow>
   \<exists>c k v r. m = Node c k v Nil_node r \<and> attach m q = attach n p \<and>
     entries n @ behind p = (k, v) # entries r @ behind q"
  by (induction n p rule: leftmost.induct) auto

lemma climb_next:
  assumes "n \<noteq> Nil_node" and "keys_ascend (before p @ entries n @ behind p)" and "key \<in> fst ` set (entries n)"
  shows "(behind p = [] \<and> climb key n p = At_end) \<or>
    (\<exists>c k v l r q. climb key n p = At_node (Node c k v l r) q \<and> attach (Node c k v l r) q = attach n p \<and>
       behind p = (k, v) # entries r @ behind q)"
  using assms
proof (induction p arbitrary: n)
  case Nil
  then show ?case by simp
next
  case (Cons f p)
  show ?case
  proof (cases f)
    case (AtLeft c k v s)
    from Cons.prems(3) obtain x where "x \<in> set (entries n)" "key = fst x" by auto
    with Cons.prems(2) AtLeft have "key < k" by simp
    then have "climb key n (f # p) = At_node (Node c k v n s) p" using AtLeft by (simp add: less_imp_le)
    with AtLeft show ?thesis by simp
  next
    case (AtRight c k v s)
    from Cons.prems(3) obtain x where "x \<in> set (entries n)" "key = fst x" by auto
    with Cons.prems(2) AtRight have "k < key" by simp
    then have "\<not> key \<le> k" by simp
    then have "climb key n (f # p) = climb key (Node c k v s n) p" using AtRight by simp
    moreover have "keys_ascend (before p @ entries (Node c k v s n) @ behind p)"
      using Cons.prems(2) AtRight by simp
    moreover have "key \<in> fst ` set (entries (Node c k v s n))" using Cons.prems(3) by auto
    ultimately show ?thesis using Cons.IH [of "Node c k v s n"] AtRight by simp
  qed
qed

lemma it_next_ahead:
  assumes "keys_ascend (entries (root t))" and "stands_in t it"
  shows "stands_in t (it_next t it) \<and>
    (case ahead t it of [] \<Rightarrow> it_next t it = At_end
     | e # es \<Rightarrow> it_entry (it_next t it) = Some e \<and> ahead t (it_next t it) = es)"
proof (cases it)
  case At_begin
  show ?thesis
  proof (cases "root t")
    case Nil_node
    with At_begin show ?thesis by (simp add: it_next_def)
  next
    case (Node c k v l r)
    obtain m q where lm: "leftmost (root t) [] = (m, q)" by fastforce
    with leftmost_first [OF _ lm] Node obtain c' k' v' r' where
      "m = Node c' k' v' Nil_node r'" "attach m q = root t" "entries (root t) = (k', v') # entries r' @ behind q"
      by auto
    with At_begin lm show ?thesis by (simp add: it_next_def it_entry_def)
  qed
next
  case (At_node n p)
  with assms(2) obtain c k v l r where n: "n = Node c k v l r" and at: "attach n p = root t"
    by (cases n) auto
  show ?thesis
  proof (cases r)
    case Nil_node
    have "keys_ascend (before p @ entries n @ behind p)" using assms(1) at entries_attach [of n p] by simp
    from climb_next [OF _ this, of k] n consider (top) "behind p = []" "climb k n p = At_end"
      | (up) c1 k1 v1 l1 r1 q where "climb k n p = At_node (Node c1 k1 v1 l1 r1) q"
          "attach (Node c1 k1 v1 l1 r1) q = root t" "behind p = (k1, v1) # entries r1 @ behind q"
      unfolding at by auto
    then show ?thesis
      by cases (simp_all add: At_node n Nil_node it_next_def it_entry_def)
  next
    case (Node c' k' v' l' r')
    obtain m q where lm: "leftmost r (AtRight c k v l # p) = (m, q)" by fastforce
    with leftmost_first [OF _ lm] Node obtain c2 k2 v2 r2 where
      "m = Node c2 k2 v2 Nil_node r2" "attach m q = attach n p" "entries r @ behind p = (k2, v2) # entries r2 @ behind q"
      using n by auto
    with At_node n Node lm at show ?thesis by (simp add: it_next_def it_entry_def)
  qed
next
  case At_end
  then show ?thesis by (simp add: it_next_def)
qed

lemma visit_ahead:
  assumes "keys_ascend (entries (root t))" and "stands_in t it"
  shows "visit t it seen = Some (seen @ ahead t it)"
  using assms(2)
proof (induction "ahead t it" arbitrary: it seen)
  case Nil
  with it_next_ahead [OF assms(1) Nil.prems] show ?case
    by (subst visit.simps) (simp add: it_entry_def)
next
  case (Cons e es)
  with it_next_ahead [OF assms(1) Cons.prems] have
    "stands_in t (it_next t it)" "it_entry (it_next t it) = Some e" "ahead t (it_next t it) = es"
    by (simp_all split: list.splits)
  with Cons.hyps show ?case by (subst visit.simps) simp
qed

lemma visit_entries: "rb_inv t \<Longrightarrow> visit t At_begin [] = Some (entries (root t))"
  by (simp add: visit_ahead rb_inv_def)

section \<open>The interface of an ordered map\<close>

text \<open>
  What the analyzer relies on: \<open>Put\<close> never stops on a map made by earlier calls and stores under the
  key, \<open>Floor\<close> and \<open>Ceiling\<close> find the neighbours of a key, and an iteration ends and sees all entries in
  the order of their keys.
\<close>

locale ordered_map =
  fixes good :: "'m \<Rightarrow> bool"
    and listing :: "'m \<Rightarrow> (u64 \<times> 'v) list"
    and empty_map :: "'m"
    and put :: "u64 \<Rightarrow> 'v \<Rightarrow> 'm \<Rightarrow> 'm go"
    and floor_of :: "u64 \<Rightarrow> 'm \<Rightarrow> (u64 \<times> 'v) option"
    and ceiling_of :: "u64 \<Rightarrow> 'm \<Rightarrow> (u64 \<times> 'v) option"
    and walk :: "'m \<Rightarrow> (u64 \<times> 'v) list option"
  assumes good_empty: "good empty_map" and listing_empty: "listing empty_map = []"
    and good_ascend: "good m \<Longrightarrow> keys_ascend (listing m)"
    and put_ok: "good m \<Longrightarrow> \<exists>m'. put key v m = Inr m' \<and> good m' \<and> listing m' = al_put key v (listing m)"
    and floor_listing: "good m \<Longrightarrow> floor_of key m = al_floor key (listing m)"
    and ceiling_listing: "good m \<Longrightarrow> ceiling_of key m = al_ceiling key (listing m)"
    and walk_listing: "good m \<Longrightarrow> walk m = Some (listing m)"
begin

text \<open>A run of insertions.\<close>

fun put_all :: "(u64 \<times> 'v) list \<Rightarrow> 'm \<Rightarrow> 'm go" where
  "put_all [] m = Inr m"
| "put_all ((k, v) # es) m = res_bind (put k v m) (put_all es)"

lemma put_all_ok:
  "good m \<Longrightarrow> \<exists>m'. put_all es m = Inr m' \<and> good m' \<and> map_of (listing m') = map_of (listing m) ++ map_of (rev es)"
proof (induction es m rule: put_all.induct)
  case (2 k v es m)
  obtain m1 where m1: "put k v m = Inr m1" "good m1" "listing m1 = al_put k v (listing m)"
    using put_ok [OF "2.prems"] by blast
  with "2.IH" [of m1] show ?case by (auto simp: map_of_al_put simp del: fun_upd_apply)
qed simp

lemma put_all_append: "put_all (es @ fs) m = res_bind (put_all es m) (put_all fs)"
proof (induction es m rule: put_all.induct)
  case (2 k v es m)
  then show ?case by (cases "put k v m") simp_all
qed simp

lemma in_listing: "good m \<Longrightarrow> map_of (listing m) k = Some v \<longleftrightarrow> (k, v) \<in> set (listing m)"
  using good_ascend [of m] by (auto simp: keys_ascend_def strict_sorted_iff intro!: map_of_eq_Some_iff)

lemma floor_spec:
  assumes "good m"
  shows "floor_of key m = Some (k, v) \<longleftrightarrow>
    (k, v) \<in> set (listing m) \<and> k \<le> key \<and> (\<forall>e \<in> set (listing m). fst e \<le> key \<longrightarrow> fst e \<le> k)"
  using al_floor_Some [OF good_ascend [OF assms]] floor_listing [OF assms] by simp

lemma ceiling_spec:
  assumes "good m"
  shows "ceiling_of key m = Some (k, v) \<longleftrightarrow>
    (k, v) \<in> set (listing m) \<and> key \<le> k \<and> (\<forall>e \<in> set (listing m). key \<le> fst e \<longrightarrow> k \<le> fst e)"
  using al_ceiling_Some [OF good_ascend [OF assms]] ceiling_listing [OF assms] by simp

lemma floor_None: "good m \<Longrightarrow> floor_of key m = None \<longleftrightarrow> (\<forall>e \<in> set (listing m). key < fst e)"
  by (auto simp: floor_listing al_floor_def filter_empty_conv not_le)

lemma ceiling_None: "good m \<Longrightarrow> ceiling_of key m = None \<longleftrightarrow> (\<forall>e \<in> set (listing m). fst e < key)"
  by (auto simp: ceiling_listing al_ceiling_def filter_empty_conv not_le)

end

interpretation rb: ordered_map rb_inv "\<lambda>t. entries (root t)" new_with rb_put rb_floor rb_ceiling
    "\<lambda>t. visit t At_begin []"
proof unfold_locales
  show "entries (root new_with) = []" by (simp add: new_with_def)
  show "rb_inv t \<Longrightarrow> keys_ascend (entries (root t))" for t :: "'b rbtree" by (simp add: rb_inv_def)
qed (simp_all add: rb_put_ok rb_floor_entries rb_ceiling_entries visit_entries)

section \<open>Properties\<close>

text \<open>A run of \<open>Put\<close>s, from first to last.\<close>

fun rb_puts :: "(u64 \<times> 'v) list \<Rightarrow> 'v rbtree \<Rightarrow> 'v rbtree go" where
  "rb_puts [] t = Inr t"
| "rb_puts ((k, v) # es) t = res_bind (rb_put k v t) (rb_puts es)"

lemma rb_puts_put_all: "rb_puts es = rb.put_all es"
  by (rule ext, induction es) (auto simp: res_bind_def split: sum.splits)

lemma rb_puts_append: "rb_puts (es @ fs) t = res_bind (rb_puts es t) (rb_puts fs)"
  by (simp add: rb_puts_put_all rb.put_all_append)

lemma rb_puts_ok:
  "\<exists>t. rb_puts es new_with = Inr t \<and> rb_inv t \<and> map_of (entries (root t)) = map_of (rev es)"
  using rb.put_all_ok [of new_with es] by (simp add: rb_puts_put_all rb.listing_empty)

lemma rb_puts_inv:
  assumes "rb_puts es new_with = Inr t"
  shows "rb_inv t" and "map_of (entries (root t)) = map_of (rev es)"
  using rb_puts_ok [of es] assms by simp_all

lemma rb_puts_neighbours:
  assumes "rb_puts es new_with = Inr t"
  shows "rb_floor key t = Some (k, v) \<longleftrightarrow>
      map_of (rev es) k = Some v \<and> k \<le> key \<and> (\<forall>k' \<in> fst ` set es. k' \<le> key \<longrightarrow> k' \<le> k)"
    and "rb_ceiling key t = Some (k, v) \<longleftrightarrow>
      map_of (rev es) k = Some v \<and> key \<le> k \<and> (\<forall>k' \<in> fst ` set es. key \<le> k' \<longrightarrow> k \<le> k')"
proof -
  note inv = rb_puts_inv [OF assms]
  have dom: "fst ` set es = fst ` set (entries (root t))"
    using inv(2) dom_map_of_conv_image_fst [of "entries (root t)"] dom_map_of_conv_image_fst [of "rev es"] by simp
  show "rb_floor key t = Some (k, v) \<longleftrightarrow>
      map_of (rev es) k = Some v \<and> k \<le> key \<and> (\<forall>k' \<in> fst ` set es. k' \<le> key \<longrightarrow> k' \<le> k)"
    using rb.floor_spec [OF inv(1)] rb.in_listing [OF inv(1)] by (simp add: dom inv(2) [symmetric])
  show "rb_ceiling key t = Some (k, v) \<longleftrightarrow>
      map_of (rev es) k = Some v \<and> key \<le> k \<and> (\<forall>k' \<in> fst ` set es. key \<le> k' \<longrightarrow> k \<le> k')"
    using rb.ceiling_spec [OF inv(1)] rb.in_listing [OF inv(1)] by (simp add: dom inv(2) [symmetric])
qed

text \<open>
  C17: Whatever is put into a new tree in whatever order, no insertion dereferences a nil pointer, and
  the tree then holds for every key the value put last, its keys ascending from left to right.
\<close>

theorem treemap_contents:
  "\<exists>t. rb_puts es new_with = Inr t \<and> map_of (entries (root t)) = map_of (rev es) \<and>
     keys_ascend (entries (root t)) \<and> tree_size t = card (set (map fst es))"
proof -
  obtain t where t: "rb_puts es new_with = Inr t" "rb_inv t" "map_of (entries (root t)) = map_of (rev es)"
    using rb_puts_ok by blast
  then have asc: "keys_ascend (entries (root t))" and sz: "tree_size t = length (map fst (entries (root t)))"
    by (simp_all add: rb_inv_def)
  have "fst ` set (entries (root t)) = fst ` set es"
    using t(3) dom_map_of_conv_image_fst [of "entries (root t)"] dom_map_of_conv_image_fst [of "rev es"] by simp
  moreover have "distinct (map fst (entries (root t)))"
    using asc by (simp add: keys_ascend_def strict_sorted_iff)
  ultimately have "tree_size t = card (set (map fst es))"
    unfolding sz using distinct_card by fastforce
  with t asc show ?thesis by blast
qed

text \<open>
  C31: Floor and Ceiling of a tree built by insertions find the nearest key that is put, below or above,
  with the value put last under it.
\<close>

theorem treemap_neighbours:
  assumes "rb_puts es new_with = Inr t"
  shows "(rb_floor key t = Some (k, v) \<longleftrightarrow>
      map_of (rev es) k = Some v \<and> k \<le> key \<and> (\<forall>k' \<in> fst ` set es. k' \<le> key \<longrightarrow> k' \<le> k)) \<and>
    (rb_ceiling key t = Some (k, v) \<longleftrightarrow>
      map_of (rev es) k = Some v \<and> key \<le> k \<and> (\<forall>k' \<in> fst ` set es. key \<le> k' \<longrightarrow> k \<le> k'))"
  by (intro conjI rb_puts_neighbours [OF assms])

lemma put_three: "\<exists>t. rb_puts [(5, ''a''), (9, ''b''), (5, ''c'')] new_with = Inr t"
  using rb_puts_ok by blast

theorem treemap_neighbours_witness:
  "\<exists>t. rb_puts [(5, ''a''), (9, ''b''), (5, ''c'')] new_with = Inr t \<and> rb_floor 8 t = Some (5, ''c'')"
proof -
  obtain t where t: "rb_puts [(5, ''a''), (9, ''b''), (5, ''c'')] new_with = Inr t" using put_three by blast
  with treemap_neighbours [OF t, of 8 5 "''c''"] show ?thesis by simp
qed

text \<open>
  C10: The tree stays balanced: its root is black, no red node has a red child, every way down
  passes the same number of black nodes, so that at most \<open>2 * log2 (n + 1)\<close> of its \<open>n\<close> nodes are compared.
\<close>

theorem treemap_balanced:
  assumes "rb_puts es new_with = Inr t"
  shows "red_black (root t) \<and> 2 ^ (depth (root t) div 2) \<le> Suc (tree_size t)"
  using rb_puts_inv(1) [OF assms] rb_inv_depth [of t] by (simp add: rb_inv_def)

theorem treemap_balanced_witness:
  "\<exists>t. rb_puts [(5, ''a''), (9, ''b''), (5, ''c'')] new_with = Inr t \<and> red_black (root t) \<and>
     2 ^ (depth (root t) div 2) \<le> Suc (tree_size t)"
  using put_three treemap_balanced by blast

text \<open>
  C30: A loop over the iterator of a tree built by insertions ends and sees each entry once, in the
  order of the keys.
\<close>

theorem treemap_iteration:
  "\<exists>t. rb_puts es new_with = Inr t \<and> visit t At_begin [] = Some (entries (root t))"
  using rb_puts_ok [of es] rb.walk_listing by blast

end
