(* ===== verification/GoLib.thy ===== *)
theory GoLib
  imports CLib GoTree
begin

text \<open>
  The functions of the Go standard library the analyzer uses: \<open>strings\<close>, \<open>strconv\<close> and the part of
  \<open>encoding/json\<close> that stores a parsed object into the fields of a struct.
\<close>

section \<open>Strings\<close>

text \<open>\<open>strings.Split\<close> at one character: the pieces between the separators, at least one.\<close>

definition go_split :: "char \<Rightarrow> string \<Rightarrow> string list" where
  "go_split d s = tokens d (Some s)"

text \<open>\<open>strings.TrimSuffix\<close>.\<close>

definition trim_suffix :: "string \<Rightarrow> string \<Rightarrow> string" where
  "trim_suffix s suf =
     (if length suf \<le> length s \<and> drop (length s - length suf) s = suf
      then take (length s - length suf) s else s)"

lemma trim_suffix_other [simp]: "c \<notin> set s \<Longrightarrow> trim_suffix s [c] = s"
  by (cases s rule: rev_cases) (auto simp: trim_suffix_def)

lemma trim_suffix_own [simp]: "trim_suffix (s @ [c]) [c] = s"
  by (simp add: trim_suffix_def)

text \<open>\<open>strings.Contains\<close>.\<close>

fun contains :: "string \<Rightarrow> string \<Rightarrow> bool" where
  "contains [] sub \<longleftrightarrow> sub = []"
| "contains (c # s) sub \<longleftrightarrow> take (length sub) (c # s) = sub \<or> contains s sub"

lemma contains_iff: "contains s sub \<longleftrightarrow> (\<exists>a b. s = a @ sub @ b)"
proof (induction s)
  case (Cons c s)
  show ?case
  proof
    assume "contains (c # s) sub"
    then show "\<exists>a b. c # s = a @ sub @ b"
    proof (cases "take (length sub) (c # s) = sub")
      case True
      then have "c # s = [] @ sub @ drop (length sub) (c # s)" by (metis append_Nil append_take_drop_id)
      then show ?thesis by blast
    next
      case False
      with \<open>contains (c # s) sub\<close> Cons obtain a b where "s = a @ sub @ b" by auto
      then have "c # s = (c # a) @ sub @ b" by simp
      then show ?thesis by blast
    qed
  next
    assume "\<exists>a b. c # s = a @ sub @ b"
    then obtain a b where ab: "c # s = a @ sub @ b" by blast
    show "contains (c # s) sub"
    proof (cases a)
      case Nil
      with ab have "take (length sub) (c # s) = sub" by simp
      then show ?thesis by simp
    next
      case (Cons c' a')
      with ab Cons.IH show ?thesis by auto
    qed
  qed
qed simp

section \<open>Numbers\<close>

definition all_digits :: "string \<Rightarrow> bool" where
  "all_digits s \<longleftrightarrow> s \<noteq> [] \<and> list_all is_digit s"

text \<open>\<open>strconv.ParseInt(s, 10, 64)\<close>, which is \<open>strconv.Atoi\<close> too, and \<open>strconv.ParseUint(s, 10, 64)\<close>.\<close>

definition parse_int :: "string \<Rightarrow> int option" where
  "parse_int s =
     (let neg = (case s of [] \<Rightarrow> False | c # _ \<Rightarrow> c = CHR ''-'');
          ds = (case s of [] \<Rightarrow> [] | c # t \<Rightarrow> if c = CHR ''-'' \<or> c = CHR ''+'' then t else s);
          i = (if neg then - int (read_nat ds) else int (read_nat ds)) in
      if all_digits ds \<and> - (2 ^ 63) \<le> i \<and> i < 2 ^ 63 then Some i else None)"

definition parse_uint :: "string \<Rightarrow> u64 option" where
  "parse_uint s = (if all_digits s \<and> read_nat s < 2 ^ 64 then Some (word_of_nat (read_nat s)) else None)"

lemma all_digits_show_nat [simp]: "all_digits (show_nat n)"
  using show_nat_digits by (auto simp: all_digits_def list_all_iff)

lemma show_nat_head: "\<exists>c t. show_nat n = c # t \<and> is_digit c \<and> c \<noteq> CHR ''-'' \<and> c \<noteq> CHR ''+''"
proof (cases "show_nat n")
  case (Cons c t)
  then have "is_digit c" using show_nat_digits [of c n] by simp
  moreover from this have "c \<noteq> CHR ''-''" "c \<noteq> CHR ''+''" by (auto simp: is_digit_def)
  ultimately show ?thesis using Cons by simp
qed simp

lemma parse_show_int: "- (2 ^ 63) \<le> i \<Longrightarrow> i < 2 ^ 63 \<Longrightarrow> parse_int (show_int i) = Some i"
proof (cases "i < 0")
  case True
  assume "- (2 ^ 63) \<le> i"
  with True show ?thesis by (simp add: parse_int_def show_int_def Let_def)
next
  case False
  assume "i < 2 ^ 63"
  obtain c t where ct: "show_nat (nat i) = c # t" "c \<noteq> CHR ''-''" "c \<noteq> CHR ''+''"
    using show_nat_head by blast
  then have "all_digits (c # t)" "read_nat (c # t) = nat i" by (metis all_digits_show_nat, metis read_show_nat)
  with ct False \<open>i < 2 ^ 63\<close> show ?thesis by (simp add: parse_int_def show_int_def)
qed

lemma parse_fmt_llu: "parse_uint (fmt_llu w) = Some w"
  using unsigned_less [of w] by (simp add: parse_uint_def fmt_llu_def)

lemma parse_fmt_ld: "0 \<le> sint w \<Longrightarrow> parse_uint (fmt_ld w) = Some w"
proof -
  assume pos: "0 \<le> sint (w :: u64)"
  then have "uint w = sint w"
    using sint_less [of w] take_bit_int_eq_self [of "sint w" 64] by (simp add: uint_sint)
  then have "nat (sint w) = unat w" by (simp add: unat_eq_nat_uint)
  with pos show ?thesis using parse_fmt_llu [of w] by (simp add: fmt_ld_def fmt_llu_def show_int_def)
qed

lemma parse_fmt_ld_negative: "sint w < 0 \<Longrightarrow> parse_uint (fmt_ld w) = None"
  by (simp add: fmt_ld_def show_int_def parse_uint_def all_digits_def)

section \<open>JSON\<close>

text \<open>
  A parsed JSON value; a number is kept as its literal. How the text of a line is parsed is an
  argument of the definitions that read lines.
\<close>

datatype jval = JNull | JBool bool | JNum string | JStr string | JArr "jval list" | JObj "(string \<times> jval) list"

type_synonym members = "(string \<times> jval) list"

text \<open>Members are matched with the names of the fields without regard to case.\<close>

definition to_lower :: "char \<Rightarrow> char" where
  "to_lower c = (let k = (of_char c :: nat) in if 65 \<le> k \<and> k \<le> 90 then char_of (k + 32) else c)"

definition is_field :: "string \<Rightarrow> string \<Rightarrow> bool" where
  "is_field f k \<longleftrightarrow> map to_lower k = map to_lower f"

text \<open>
  Storing a value into a field, which keeps its old value at null: an \<open>int\<close>, a \<open>string\<close>, and an \<open>int\<close> or
  \<open>uint64\<close> of which the tag asks that it is quoted.
\<close>

definition store_int :: "jval \<Rightarrow> int \<Rightarrow> int option" where
  "store_int v old = (case v of JNull \<Rightarrow> Some old | JNum s \<Rightarrow> parse_int s | _ \<Rightarrow> None)"

definition store_string :: "jval \<Rightarrow> string \<Rightarrow> string option" where
  "store_string v old = (case v of JNull \<Rightarrow> Some old | JStr s \<Rightarrow> Some s | _ \<Rightarrow> None)"

definition number_start :: "string \<Rightarrow> bool" where
  "number_start s \<longleftrightarrow> (case s of [] \<Rightarrow> False | c # _ \<Rightarrow> c = CHR ''-'' \<or> is_digit c)"

definition store_quoted :: "(string \<Rightarrow> 'a option) \<Rightarrow> jval \<Rightarrow> 'a \<Rightarrow> 'a option" where
  "store_quoted parse v old = (case v of
     JNull \<Rightarrow> Some old
   | JStr s \<Rightarrow> if s = ''null'' then Some old else if number_start s then parse s else None
   | _ \<Rightarrow> None)"

text \<open>
  An object is stored member by member; an error in one member makes the whole call report an error.
  A null is no error and stores nothing.
\<close>

fun store_members :: "(string \<Rightarrow> jval \<Rightarrow> 'a \<Rightarrow> 'a option) \<Rightarrow> members \<Rightarrow> 'a \<Rightarrow> 'a option" where
  "store_members f [] x = Some x"
| "store_members f ((k, v) # ms) x = (case f k v x of None \<Rightarrow> None | Some y \<Rightarrow> store_members f ms y)"

definition unmarshal :: "(string \<Rightarrow> jval option) \<Rightarrow> (string \<Rightarrow> jval \<Rightarrow> 'a \<Rightarrow> 'a option) \<Rightarrow> string \<Rightarrow> 'a \<Rightarrow> 'a option" where
  "unmarshal parse f line zero = (case parse line of
     Some JNull \<Rightarrow> Some zero
   | Some (JObj ms) \<Rightarrow> store_members f ms zero
   | _ \<Rightarrow> None)"

lemma number_start_show [simp]: "number_start (show_int i)" "number_start (show_nat n)"
  using show_nat_head [of n] show_nat_head [of "nat i"] by (auto simp: number_start_def show_int_def)

lemma not_null [simp]: "show_int i \<noteq> ''null''" "show_nat n \<noteq> ''null''"
  using show_nat_head [of n] show_nat_head [of "nat i"] by (auto simp: show_int_def is_digit_def)

lemma store_quoted_int [simp]:
  "- (2 ^ 63) \<le> i \<Longrightarrow> i < 2 ^ 63 \<Longrightarrow> store_quoted parse_int (JStr (show_int i)) old = Some i"
  by (simp add: store_quoted_def parse_show_int)

lemma store_quoted_llu [simp]: "store_quoted parse_uint (JStr (fmt_llu w)) old = Some w"
  using parse_fmt_llu [of w] by (simp add: store_quoted_def fmt_llu_def)

lemma store_quoted_ld [simp]: "0 \<le> sint w \<Longrightarrow> store_quoted parse_uint (JStr (fmt_ld w)) old = Some w"
  using parse_fmt_ld [of w] by (simp add: store_quoted_def fmt_ld_def)

lemma store_quoted_ld_negative [simp]: "sint w < 0 \<Longrightarrow> store_quoted parse_uint (JStr (fmt_ld w)) old = None"
  using parse_fmt_ld_negative [of w] by (simp add: store_quoted_def fmt_ld_def)

end
