(* ===== verification/GoEvents.thy ===== *)
theory GoEvents
  imports GoLib "HOL-Library.Multiset"
begin

text \<open>
  The events of the analyzer (analyzer/lib/events): the scheduling events of \<open>switch.go\<close> and the
  softirq intervals of \<open>soft.go\<close>. The result of reading a file is the argument (\<open>None\<close>: an error), and
  so are the parser of a JSON text and the sorting algorithm behind \<open>sort.Sort\<close>, which is not stable.
\<close>

section \<open>Scheduling events\<close>

record switch =
  sw_cpu :: int
  sw_time :: u64
  sw_type :: int
  sw_prev_pid :: int
  sw_next_pid :: int
  sw_prev_state :: u64
  sw_next_state :: u64
  sw_prev_comm :: string
  sw_next_comm :: string
  sw_in_which_ctx :: int

definition zero_switch :: switch where
  "zero_switch = \<lparr>sw_cpu = 0, sw_time = 0, sw_type = 0, sw_prev_pid = 0, sw_next_pid = 0,
     sw_prev_state = 0, sw_next_state = 0, sw_prev_comm = [], sw_next_comm = [], sw_in_which_ctx = 0\<rparr>"

definition switch_member :: "string \<Rightarrow> jval \<Rightarrow> switch \<Rightarrow> switch option" where
  "switch_member k v e =
     (if is_field ''cpu'' k then map_option (\<lambda>x. e\<lparr>sw_cpu := x\<rparr>) (store_int v (sw_cpu e))
      else if is_field ''tsc'' k then map_option (\<lambda>x. e\<lparr>sw_time := x\<rparr>) (store_quoted parse_uint v (sw_time e))
      else if is_field ''type'' k then map_option (\<lambda>x. e\<lparr>sw_type := x\<rparr>) (store_quoted parse_int v (sw_type e))
      else if is_field ''prev_pid'' k
        then map_option (\<lambda>x. e\<lparr>sw_prev_pid := x\<rparr>) (store_quoted parse_int v (sw_prev_pid e))
      else if is_field ''next_pid'' k
        then map_option (\<lambda>x. e\<lparr>sw_next_pid := x\<rparr>) (store_quoted parse_int v (sw_next_pid e))
      else if is_field ''prev_state'' k
        then map_option (\<lambda>x. e\<lparr>sw_prev_state := x\<rparr>) (store_quoted parse_uint v (sw_prev_state e))
      else if is_field ''next_state'' k
        then map_option (\<lambda>x. e\<lparr>sw_next_state := x\<rparr>) (store_quoted parse_uint v (sw_next_state e))
      else if is_field ''prev_comm'' k then map_option (\<lambda>x. e\<lparr>sw_prev_comm := x\<rparr>) (store_string v (sw_prev_comm e))
      else if is_field ''next_comm'' k then map_option (\<lambda>x. e\<lparr>sw_next_comm := x\<rparr>) (store_string v (sw_next_comm e))
      else if is_field ''in_which_ctx'' k
        then map_option (\<lambda>x. e\<lparr>sw_in_which_ctx := x\<rparr>) (store_quoted parse_int v (sw_in_which_ctx e))
      else Some e)"

text \<open>Lines that do not decode are logged and skipped; what follows the last newline is dropped.\<close>

definition load_switch ::
    "(string \<Rightarrow> jval option) \<Rightarrow> (switch list \<Rightarrow> switch list) \<Rightarrow> string option \<Rightarrow> switch list go" where
  "load_switch parse srt file = (case file of None \<Rightarrow> Inl Fatal
     | Some bs \<Rightarrow> Inr (srt (List.map_filter
         (\<lambda>l. unmarshal parse switch_member (trim_suffix l [NL]) zero_switch) (butlast (go_split NL bs)))))"

text \<open>What \<open>sort.Sort\<close> promises for \<open>byTime\<close>.\<close>

definition sorts_by_time :: "(switch list \<Rightarrow> switch list) \<Rightarrow> bool" where
  "sorts_by_time srt \<longleftrightarrow> (\<forall>es. mset (srt es) = mset es \<and> sorted (map sw_time (srt es)))"

lemma load_switch_sorted:
  "sorts_by_time srt \<Longrightarrow> load_switch parse srt f = Inr swl \<Longrightarrow> sorted (map sw_time swl)"
  by (auto simp: load_switch_def sorts_by_time_def split: option.splits)

lemma sorts_by_time_sort_key: "sorts_by_time (sort_key sw_time)"
  by (simp add: sorts_by_time_def)

section \<open>Softirq intervals\<close>

record soft =
  sf_cpu :: int
  sf_stime :: u64
  sf_etime :: u64

definition soft_member :: "string \<Rightarrow> jval \<Rightarrow> soft \<Rightarrow> soft option" where
  "soft_member k v e =
     (if is_field ''cpu'' k then map_option (\<lambda>x. e\<lparr>sf_cpu := x\<rparr>) (store_int v (sf_cpu e))
      else if is_field ''begin_time'' k
        then map_option (\<lambda>x. e\<lparr>sf_stime := x\<rparr>) (store_quoted parse_uint v (sf_stime e))
      else if is_field ''end_time'' k
        then map_option (\<lambda>x. e\<lparr>sf_etime := x\<rparr>) (store_quoted parse_uint v (sf_etime e))
      else Some e)"

definition load_soft :: "(string \<Rightarrow> jval option) \<Rightarrow> string option \<Rightarrow> soft list go" where
  "load_soft parse file = (case file of None \<Rightarrow> Inl Fatal
     | Some bs \<Rightarrow> Inr (List.map_filter
         (\<lambda>l. unmarshal parse soft_member l \<lparr>sf_cpu = 0, sf_stime = 0, sf_etime = 0\<rparr>)
         (butlast (go_split NL bs))))"

text \<open>\<open>SoftMap\<close>: an ordered map for each CPU, keyed by the ends of the intervals.\<close>

type_synonym soft_map = "int \<rightharpoonup> soft rbtree"

fun soft_map_init :: "soft list \<Rightarrow> soft_map \<Rightarrow> soft_map go" where
  "soft_map_init [] s = Inr s"
| "soft_map_init (v # sl) s =
     (let t = (case s (sf_cpu v) of None \<Rightarrow> new_with | Some t \<Rightarrow> t) in
      res_bind (rb_put (sf_etime v) v t) (\<lambda>t'. soft_map_init sl (s(sf_cpu v \<mapsto> t'))))"

definition init_soft_container :: "soft list \<Rightarrow> soft_map go" where
  "init_soft_container sl = soft_map_init sl Map.empty"

definition get_ceiling_soft :: "soft_map \<Rightarrow> int \<Rightarrow> u64 \<Rightarrow> soft option" where
  "get_ceiling_soft sm cpu time = (case sm cpu of None \<Rightarrow> None | Some m \<Rightarrow> map_option snd (rb_ceiling time m))"

section \<open>The container of the intervals\<close>

definition soft_keys :: "int \<Rightarrow> soft list \<Rightarrow> (u64 \<times> soft) list" where
  "soft_keys cpu sl = map (\<lambda>v. (sf_etime v, v)) (filter (\<lambda>v. sf_cpu v = cpu) sl)"

text \<open>Each CPU's map is what putting its own intervals one after the other gives.\<close>

definition holds_soft :: "(u64 \<times> soft) list \<Rightarrow> soft rbtree option \<Rightarrow> bool" where
  "holds_soft es m \<longleftrightarrow> (case m of None \<Rightarrow> es = [] | Some t \<Rightarrow> rb_puts es new_with = Inr t)"

lemma holds_soft_simps [simp]:
  "holds_soft es None \<longleftrightarrow> es = []" "holds_soft es (Some t) \<longleftrightarrow> rb_puts es new_with = Inr t"
  by (simp_all add: holds_soft_def)

lemma holds_softD: "holds_soft es m \<Longrightarrow> rb_puts es new_with = Inr (case m of None \<Rightarrow> new_with | Some t \<Rightarrow> t)"
  by (cases m) simp_all

lemma soft_map_init_ok:
  assumes "\<forall>cpu. holds_soft (soft_keys cpu ds) (s cpu)"
  shows "\<exists>s'. soft_map_init sl s = Inr s' \<and> (\<forall>cpu. holds_soft (soft_keys cpu (ds @ sl)) (s' cpu))"
  using assms
proof (induction sl s arbitrary: ds rule: soft_map_init.induct)
  case (2 v sl s)
  let ?t = "case s (sf_cpu v) of None \<Rightarrow> new_with | Some t \<Rightarrow> t"
  have t: "rb_puts (soft_keys (sf_cpu v) ds) new_with = Inr ?t"
    using "2.prems" by (simp add: holds_softD)
  obtain t' where t': "rb_put (sf_etime v) v ?t = Inr t'"
    using rb_put_ok [OF rb_puts_inv(1) [OF t]] by blast
  have own: "rb_puts (soft_keys (sf_cpu v) (ds @ [v])) new_with = Inr t'"
    using t t' by (simp add: soft_keys_def rb_puts_append)
  have "\<forall>cpu. holds_soft (soft_keys cpu (ds @ [v])) ((s(sf_cpu v \<mapsto> t')) cpu)"
  proof
    fix cpu
    show "holds_soft (soft_keys cpu (ds @ [v])) ((s(sf_cpu v \<mapsto> t')) cpu)"
    proof (cases "cpu = sf_cpu v")
      case True
      with own show ?thesis by simp
    next
      case False
      then have "soft_keys cpu (ds @ [v]) = soft_keys cpu ds" by (simp add: soft_keys_def)
      with "2.prems" False show ?thesis by simp
    qed
  qed
  from "2.IH" [OF refl this] t' show ?case by (simp del: fun_upd_apply)
qed simp

lemma init_soft_container_ok:
  "\<exists>sm. init_soft_container sl = Inr sm \<and> (\<forall>cpu. holds_soft (soft_keys cpu sl) (sm cpu))"
  using soft_map_init_ok [where ds = "[]" and s = Map.empty and sl = sl]
  by (simp add: init_soft_container_def soft_keys_def)

section \<open>Properties\<close>

text \<open>
  The container of the softirq intervals is built without a stop, and the interval found for a CPU
  and a time is the one of that CPU that ends first at or after the time, the one listed last among
  those that end together.
\<close>

theorem ceiling_soft:
  "\<exists>sm. init_soft_container sl = Inr sm \<and>
     (\<forall>cpu time s. get_ceiling_soft sm cpu time = Some s \<longleftrightarrow>
        map_of (rev (soft_keys cpu sl)) (sf_etime s) = Some s \<and> time \<le> sf_etime s \<and>
        (\<forall>v \<in> set sl. sf_cpu v = cpu \<and> time \<le> sf_etime v \<longrightarrow> sf_etime s \<le> sf_etime v))"
proof -
  obtain sm where sm: "init_soft_container sl = Inr sm" and
    each: "holds_soft (soft_keys cpu sl) (sm cpu)" for cpu
    using init_soft_container_ok by blast
  have "get_ceiling_soft sm cpu time = Some s \<longleftrightarrow>
      map_of (rev (soft_keys cpu sl)) (sf_etime s) = Some s \<and> time \<le> sf_etime s \<and>
      (\<forall>v \<in> set sl. sf_cpu v = cpu \<and> time \<le> sf_etime v \<longrightarrow> sf_etime s \<le> sf_etime v)" for cpu time s
  proof (cases "sm cpu")
    case None
    with each [of cpu] show ?thesis by (simp add: get_ceiling_soft_def)
  next
    case (Some t)
    have key: "map_of (rev (soft_keys cpu sl)) k = Some s \<Longrightarrow> k = sf_etime s" for k
      by (auto simp: soft_keys_def dest!: map_of_SomeD)
    have "get_ceiling_soft sm cpu time = Some s \<longleftrightarrow> (\<exists>k. rb_ceiling time t = Some (k, s))"
      using Some by (auto simp: get_ceiling_soft_def)
    also have "\<dots> \<longleftrightarrow> rb_ceiling time t = Some (sf_etime s, s)"
      using rb_puts_neighbours(2) [of "soft_keys cpu sl" t time _ s] each [of cpu] Some key by auto
    finally show ?thesis
      using rb_puts_neighbours(2) [of "soft_keys cpu sl" t time "sf_etime s" s] each [of cpu] Some
      by (auto simp: soft_keys_def)
  qed
  with sm show ?thesis by blast
qed

theorem ceiling_soft_witness:
  "\<exists>sm. init_soft_container [\<lparr>sf_cpu = 0, sf_stime = 2, sf_etime = 5\<rparr>, \<lparr>sf_cpu = 0, sf_stime = 7, sf_etime = 9\<rparr>] = Inr sm \<and>
     get_ceiling_soft sm 0 6 = Some \<lparr>sf_cpu = 0, sf_stime = 7, sf_etime = 9\<rparr>"
proof -
  let ?sl = "[\<lparr>sf_cpu = 0, sf_stime = 2, sf_etime = 5\<rparr>, \<lparr>sf_cpu = 0, sf_stime = 7, sf_etime = 9\<rparr>]"
  obtain sm where sm: "init_soft_container ?sl = Inr sm" and
    c: "get_ceiling_soft sm cpu time = Some s \<longleftrightarrow>
      map_of (rev (soft_keys cpu ?sl)) (sf_etime s) = Some s \<and> time \<le> sf_etime s \<and>
      (\<forall>v \<in> set ?sl. sf_cpu v = cpu \<and> time \<le> sf_etime v \<longrightarrow> sf_etime s \<le> sf_etime v)" for cpu time s
    using ceiling_soft [of ?sl] by auto
  have "get_ceiling_soft sm 0 6 = Some \<lparr>sf_cpu = 0, sf_stime = 7, sf_etime = 9\<rparr>"
    unfolding c by (simp add: soft_keys_def)
  with sm show ?thesis by blast
qed

end
