(* ===== verification/GoProcess.thy ===== *)
theory GoProcess
  imports GoEvents
begin

text \<open>
  The analyzer's own work (analyzer/lib/process/process.go and main.go): the life of each
  process is broken into running, runnable and blocked segments, and the time a process waited
  for another is added to an edge of the wait-for graph.
\<close>

section \<open>Constants\<close>

abbreviation (input) "RUNNING \<equiv> (0 :: int)"
abbreviation (input) "RUNNABLE \<equiv> (1 :: int)"
abbreviation (input) "BLOCKED \<equiv> (2 :: int)"

definition go_HARDIRQ :: int where "go_HARDIRQ = 11"
definition go_PROCESS :: int where "go_PROCESS = 12"
definition go_UNKNOWN :: int where "go_UNKNOWN = 13"
definition NONE :: int where "NONE = 0"

section \<open>State\<close>

record prev_state =
  ps_time :: u64
  ps_state :: int

record segment =
  sg_pid :: int
  sg_state :: int
  sg_stime :: u64
  sg_etime :: u64
  sg_waitfor :: int

type_synonym segments = "segment rbtree"

text \<open>The package variables; reading a map at a key it does not have gives the zero value.\<close>

record analysis =
  createTimeList :: "int \<rightharpoonup> u64"
  exitTimeList :: "int \<rightharpoonup> u64"
  prevStateMap :: "int \<rightharpoonup> prev_state"
  segMap :: "int \<rightharpoonup> segments"
  commMap :: "int \<rightharpoonup> string"
  waitForGraph :: "string \<rightharpoonup> u64"

definition analysis_start :: analysis where
  "analysis_start = \<lparr>createTimeList = Map.empty, exitTimeList = Map.empty, prevStateMap = Map.empty,
     segMap = Map.empty, commMap = Map.empty, waitForGraph = Map.empty\<rparr>"

definition get_prev_state :: "analysis \<Rightarrow> int \<Rightarrow> prev_state" where
  "get_prev_state a pid = (case prevStateMap a pid of None \<Rightarrow> \<lparr>ps_time = 0, ps_state = 0\<rparr> | Some p \<Rightarrow> p)"

definition has_exit_time :: "analysis \<Rightarrow> int \<Rightarrow> u64 option" where
  "has_exit_time a pid = exitTimeList a pid"

definition get_comm :: "analysis \<Rightarrow> int \<Rightarrow> string" where
  "get_comm a pid = (case commMap a pid of None \<Rightarrow> [] | Some c \<Rightarrow> c)"

definition get_segments :: "analysis \<Rightarrow> int \<Rightarrow> segments option" where
  "get_segments a pid = segMap a pid"

section \<open>Reading the inputs\<close>

text \<open>\<open>ReadCPUFreq\<close>, with \<open>strconv.ParseFloat\<close> as an argument.\<close>

definition read_cpu_freq :: "(string \<Rightarrow> 'f option) \<Rightarrow> string option \<Rightarrow> 'f go" where
  "read_cpu_freq parse_float file = (case file of None \<Rightarrow> Inl Fatal
     | Some data \<Rightarrow> (case go_split NL data of [] \<Rightarrow> Inl IndexOutOfRange
         | line # _ \<Rightarrow> (case parse_float line of None \<Rightarrow> Inl Fatal | Some f \<Rightarrow> Inr f)))"

fun read_pids :: "string list \<Rightarrow> int list go" where
  "read_pids [] = Inr []"
| "read_pids (line # lines) = (case parse_int (trim_suffix line [NL]) of
     None \<Rightarrow> Inl Fatal
   | Some pid \<Rightarrow> res_bind (read_pids lines) (\<lambda>pids. Inr (pid # pids)))"

definition segment_map_init :: "int list \<Rightarrow> analysis \<Rightarrow> analysis" where
  "segment_map_init pids a = a\<lparr>segMap := foldl (\<lambda>m pid. m(pid \<mapsto> new_with)) (segMap a) pids\<rparr>"

definition read_pid_file :: "string option \<Rightarrow> analysis \<Rightarrow> (int list \<times> analysis) go" where
  "read_pid_file file a = (case file of None \<Rightarrow> Inl Fatal
     | Some data \<Rightarrow> res_bind (read_pids (go_split CHR '','' data)) (\<lambda>pids. Inr (pids, segment_map_init pids a)))"

section \<open>Command names and initial states\<close>

fun comm_map_init :: "switch list \<Rightarrow> (int \<rightharpoonup> string) \<Rightarrow> (int \<rightharpoonup> string)" where
  "comm_map_init [] c = c"
| "comm_map_init (v # sl) c =
     (let c1 = (if c (sw_prev_pid v) = None then c(sw_prev_pid v \<mapsto> sw_prev_comm v) else c);
          c2 = (if c1 (sw_next_pid v) = None then c1(sw_next_pid v \<mapsto> sw_next_comm v) else c1) in
      comm_map_init sl c2)"

definition init_comm_map :: "switch list \<Rightarrow> analysis \<Rightarrow> analysis" where
  "init_comm_map sl a = a\<lparr>commMap := comm_map_init sl (commMap a)\<rparr>"

text \<open>The first loop of \<open>PrevStateMap.Init\<close>: creations and exits.\<close>

definition note_life :: "analysis \<Rightarrow> switch \<Rightarrow> analysis" where
  "note_life a v =
     (if sw_type v = 2 then a\<lparr>createTimeList := (createTimeList a)(sw_next_pid v \<mapsto> sw_time v)\<rparr>
      else if sw_type v = 3 then a\<lparr>exitTimeList := (exitTimeList a)(sw_prev_pid v \<mapsto> sw_time v)\<rparr>
      else a)"

text \<open>The second loop: two assignments, one after the other.\<close>

definition init_prev_state :: "u64 \<Rightarrow> u64 \<Rightarrow> analysis \<Rightarrow> int \<Rightarrow> analysis" where
  "init_prev_state traceSTime traceETime a v =
     (let a1 = (case createTimeList a v of
            Some t \<Rightarrow> a\<lparr>prevStateMap := (prevStateMap a)(v \<mapsto> \<lparr>ps_time = t, ps_state = - 1\<rparr>)\<rparr>
          | None \<Rightarrow> a\<lparr>prevStateMap := (prevStateMap a)(v \<mapsto> \<lparr>ps_time = traceSTime, ps_state = - 1\<rparr>)\<rparr>) in
      case exitTimeList a1 v of
        Some t \<Rightarrow> a1\<lparr>prevStateMap := (prevStateMap a1)(v \<mapsto> \<lparr>ps_time = t, ps_state = - 1\<rparr>)\<rparr>
      | None \<Rightarrow> a1\<lparr>prevStateMap := (prevStateMap a1)(v \<mapsto> \<lparr>ps_time = traceETime, ps_state = - 1\<rparr>)\<rparr>)"

definition init_prev_states :: "int list \<Rightarrow> switch list \<Rightarrow> analysis \<Rightarrow> analysis go" where
  "init_prev_states pl sl a =
     (if sl = [] then Inl IndexOutOfRange
      else Inr (foldl (init_prev_state (sw_time (hd sl)) (sw_time (last sl))) (foldl note_life a sl) pl))"

section \<open>Segments\<close>

definition UpdateToRunning :: "u64 \<Rightarrow> prev_state \<Rightarrow> prev_state" where
  "UpdateToRunning time p = p\<lparr>ps_state := 0, ps_time := time\<rparr>"

definition UpdateToRunnable :: "u64 \<Rightarrow> prev_state \<Rightarrow> prev_state" where
  "UpdateToRunnable time p = p\<lparr>ps_state := 1, ps_time := time\<rparr>"

definition UpdateToStopped :: "u64 \<Rightarrow> prev_state \<Rightarrow> prev_state" where
  "UpdateToStopped time p = p\<lparr>ps_state := 2, ps_time := time\<rparr>"

definition Runnable :: "u64 \<Rightarrow> bool" where
  "Runnable state \<longleftrightarrow> state = 0"

text \<open>The methods of \<open>Segments\<close>; a process that was not listed has no container, a nil pointer.\<close>

definition seg_put :: "int \<Rightarrow> int \<Rightarrow> u64 \<Rightarrow> u64 \<Rightarrow> int \<Rightarrow> segments option \<Rightarrow> segments option go" where
  "seg_put pid state stime etime wait_for s = (case s of None \<Rightarrow> Inl NilDereference
     | Some t \<Rightarrow> res_bind (rb_put stime
         \<lparr>sg_pid = pid, sg_state = state, sg_stime = stime, sg_etime = etime, sg_waitfor = wait_for\<rparr> t)
         (\<lambda>t'. Inr (Some t')))"

definition seg_floor :: "u64 \<Rightarrow> segments \<Rightarrow> (u64 \<times> segment) option" where
  "seg_floor stime t = rb_floor stime t"

text \<open>\<open>Ceiling\<close> converts the key it got; without one the conversion of nil stops the program.\<close>

definition seg_ceiling :: "u64 \<Rightarrow> segments \<Rightarrow> (u64 \<times> segment) go" where
  "seg_ceiling stime t = (case rb_ceiling stime t of None \<Rightarrow> Inl NilConversion | Some e \<Rightarrow> Inr e)"

text \<open>One turn of the loop of \<open>BreakIntoSegments\<close>, on the local copy of the state and the container.\<close>

definition switch_out :: "soft_map \<Rightarrow> int \<Rightarrow> switch \<Rightarrow> prev_state \<Rightarrow> segments option
    \<Rightarrow> (prev_state \<times> segments option) go" where
  "switch_out sm pid sw ps segs =
     (let pt = ps_time ps;
          ps' = (if Runnable (sw_prev_state sw) then UpdateToRunnable (sw_time sw) ps
                 else UpdateToStopped (sw_time sw) ps) in
      res_bind (case get_ceiling_soft sm (sw_cpu sw) pt of
          None \<Rightarrow> seg_put pid RUNNING pt (sw_time sw) NONE segs
        | Some sf \<Rightarrow>
            if sf_stime sf < sw_time sw \<and> sf_etime sf < sw_time sw then
              res_bind (seg_put pid RUNNING pt (sf_stime sf) NONE segs) (\<lambda>s1.
              res_bind (seg_put pid RUNNABLE (sf_stime sf) (sf_etime sf) NONE s1) (\<lambda>s2.
              seg_put pid RUNNING (sf_etime sf) (sw_time sw) NONE s2))
            else seg_put pid RUNNING pt (sw_time sw) NONE segs)
        (\<lambda>segs'. Inr (ps', segs')))"

definition break_step :: "soft_map \<Rightarrow> int \<Rightarrow> switch \<Rightarrow> prev_state \<Rightarrow> segments option
    \<Rightarrow> (prev_state \<times> segments option) go" where
  "break_step sm pid sw ps segs =
     (if sw_type sw = 0 then
        if sw_prev_pid sw = pid then switch_out sm pid sw ps segs
        else if sw_next_pid sw = pid then
          res_bind (seg_put pid RUNNABLE (ps_time ps) (sw_time sw) NONE segs) (\<lambda>segs'.
            Inr (UpdateToRunning (sw_time sw) ps, segs'))
        else Inr (ps, segs)
      else if sw_type sw = 1 then
        if sw_next_pid sw = pid then
          if ps_state ps \<noteq> BLOCKED then Inr (ps, segs)
          else res_bind (if sw_in_which_ctx sw = go_PROCESS
                then seg_put pid BLOCKED (ps_time ps) (sw_time sw) (sw_prev_pid sw) segs
                else seg_put pid BLOCKED (ps_time ps) (sw_time sw) (- sw_in_which_ctx sw) segs) (\<lambda>segs'.
              Inr (UpdateToRunnable (sw_time sw) ps, segs'))
        else Inr (ps, segs)
      else Inr (ps, segs))"

fun break_loop :: "soft_map \<Rightarrow> int \<Rightarrow> switch list \<Rightarrow> prev_state \<Rightarrow> segments option
    \<Rightarrow> (prev_state \<times> segments option) go" where
  "break_loop sm pid [] ps segs = Inr (ps, segs)"
| "break_loop sm pid (sw # swl) ps segs =
     res_bind (break_step sm pid sw ps segs) (\<lambda>(ps', segs'). break_loop sm pid swl ps' segs')"

text \<open>
  What happens behind the loop, where the state is read from the map again: the last segment of the
  process. An exited process has the end of its floor segment set, in place.
\<close>

definition break_end :: "analysis \<Rightarrow> int \<Rightarrow> u64 \<Rightarrow> segments option \<Rightarrow> segments option go" where
  "break_end a pid traceEtime segs =
     (let ps = get_prev_state a pid in
      if ps_state ps = RUNNING then seg_put pid RUNNING (ps_time ps) traceEtime NONE segs
      else if ps_state ps = RUNNABLE then seg_put pid RUNNABLE (ps_time ps) traceEtime NONE segs
      else case has_exit_time a pid of
          Some t \<Rightarrow> (case segs of None \<Rightarrow> Inl NilDereference
            | Some s \<Rightarrow> (case seg_floor t s of None \<Rightarrow> Inl NilDereference
                | Some (k, seg) \<Rightarrow> res_bind (rb_put k (seg\<lparr>sg_etime := t\<rparr>) s) (\<lambda>s'. Inr (Some s'))))
        | None \<Rightarrow> seg_put pid BLOCKED (ps_time ps) traceEtime (- go_UNKNOWN) segs)"

definition break_into_segments :: "soft_map \<Rightarrow> switch list \<Rightarrow> analysis \<Rightarrow> int \<Rightarrow> analysis go" where
  "break_into_segments sm swl a pid =
     res_bind (break_loop sm pid swl (get_prev_state a pid) (get_segments a pid)) (\<lambda>(_, segs).
       if swl = [] then Inl IndexOutOfRange
       else res_bind (break_end a pid (sw_time (last swl)) segs) (\<lambda>segs'.
         Inr (a\<lparr>segMap := (segMap a)(pid := segs')\<rparr>)))"

section \<open>The wait-for graph\<close>

definition add_weight :: "int \<Rightarrow> int \<Rightarrow> u64 \<Rightarrow> u64 \<Rightarrow> analysis \<Rightarrow> analysis" where
  "add_weight waitID wakerID etime stime a =
     (let waitComm = get_comm a waitID; wakerComm = get_comm a wakerID in
      if waitComm = [] \<or> wakerComm = [] then a
      else
        let k = waitComm @ '','' @ wakerComm @ '','';
            g = (if waitForGraph a k = None then (waitForGraph a)(k \<mapsto> 0) else waitForGraph a) in
        a\<lparr>waitForGraph := g(k \<mapsto> the (g k) + (etime - stime))\<rparr>)"

text \<open>
  The loop of \<open>findAllWaitingSegments\<close>, which collects copies of blocked segments; whether it ends is
  part of what is to be shown.
\<close>

partial_function (option) waiting_loop ::
    "segments \<Rightarrow> u64 \<Rightarrow> segment \<Rightarrow> segment list \<Rightarrow> segment list go option" where
  "waiting_loop segs etime seg waitSegs =
     (let waitSegs' = (if sg_state seg = BLOCKED then waitSegs @ [seg] else waitSegs) in
      if etime \<le> sg_etime seg then Some (Inr waitSegs')
      else case seg_ceiling (sg_stime seg + 1) segs of
          Inl e \<Rightarrow> Some (Inl e)
        | Inr (_, seg') \<Rightarrow>
            if etime \<le> sg_stime seg' then Some (Inr waitSegs')
            else waiting_loop segs etime seg' waitSegs')"

declare waiting_loop.simps [code]

text \<open>The function itself drops what the loop has collected.\<close>

definition find_all_waiting_segments :: "analysis \<Rightarrow> int \<Rightarrow> u64 \<Rightarrow> u64 \<Rightarrow> segment list go option" where
  "find_all_waiting_segments a wakerID etime stime =
     (case get_segments a wakerID of None \<Rightarrow> Some (Inr [])
      | Some segs \<Rightarrow> (case seg_floor stime segs of None \<Rightarrow> Some (Inr [])
          | Some (_, seg) \<Rightarrow> (case waiting_loop segs etime seg [] of None \<Rightarrow> None
              | Some (Inl e) \<Rightarrow> Some (Inl e) | Some (Inr _) \<Rightarrow> Some (Inr []))))"

text \<open>\<open>Cascade\<close>; the recursion is bounded by a number of turns (\<open>None\<close>: not enough).\<close>

fun cascade_list :: "(segment \<Rightarrow> analysis \<Rightarrow> analysis go option) \<Rightarrow> segment \<Rightarrow> segment list \<Rightarrow> analysis
    \<Rightarrow> analysis go option" where
  "cascade_list rec w [] a = Some (Inr a)"
| "cascade_list rec w (seg # segs) a =
     (let seg1 = (if sg_stime seg < sg_stime w then seg\<lparr>sg_stime := sg_stime w\<rparr> else seg);
          seg2 = (if sg_etime w < sg_etime seg1 then seg1\<lparr>sg_etime := sg_etime w\<rparr> else seg1) in
      case rec seg2 a of None \<Rightarrow> None | Some (Inl e) \<Rightarrow> Some (Inl e)
      | Some (Inr a') \<Rightarrow> cascade_list rec w segs a')"

fun cascade :: "nat \<Rightarrow> segment \<Rightarrow> analysis \<Rightarrow> analysis go option" where
  "cascade 0 w a = None"
| "cascade (Suc n) w a =
     (if sg_state w \<noteq> BLOCKED then Some (Inr a)
      else let a1 = add_weight (sg_pid w) (sg_waitfor w) (sg_etime w) (sg_stime w) a in
        case find_all_waiting_segments a1 (sg_waitfor w) (sg_etime w) (sg_stime w) of
          None \<Rightarrow> None | Some (Inl e) \<Rightarrow> Some (Inl e)
        | Some (Inr segs) \<Rightarrow> cascade_list (cascade n) w segs a1)"

text \<open>The loops of \<open>main\<close> over the processes and, in each, over its segments.\<close>

fun cascade_segments :: "nat \<Rightarrow> segment list \<Rightarrow> analysis \<Rightarrow> analysis go option" where
  "cascade_segments n [] a = Some (Inr a)"
| "cascade_segments n (w # ws) a = (case cascade n w a of
     None \<Rightarrow> None | Some (Inl e) \<Rightarrow> Some (Inl e) | Some (Inr a') \<Rightarrow> cascade_segments n ws a')"

fun cascade_pids :: "nat \<Rightarrow> int list \<Rightarrow> analysis \<Rightarrow> analysis go option" where
  "cascade_pids n [] a = Some (Inr a)"
| "cascade_pids n (pid # pids) a = (case get_segments a pid of
     None \<Rightarrow> Some (Inl NilDereference)
   | Some t \<Rightarrow> (case visit t At_begin [] of None \<Rightarrow> None
     | Some es \<Rightarrow> (case cascade_segments n (map snd es) a of
         None \<Rightarrow> None | Some (Inl e) \<Rightarrow> Some (Inl e) | Some (Inr a') \<Rightarrow> cascade_pids n pids a')))"

fun break_pids :: "soft_map \<Rightarrow> switch list \<Rightarrow> int list \<Rightarrow> analysis \<Rightarrow> analysis go" where
  "break_pids sm swl [] a = Inr a"
| "break_pids sm swl (pid # pids) a = res_bind (break_into_segments sm swl a pid) (break_pids sm swl pids)"

section \<open>Output\<close>

text \<open>
  \<open>OutputWaitForGraph\<close>, with the order the map is iterated in and the printing of the quotient of a
  weight and the CPU frequency as arguments.
\<close>

definition output_wait_for_graph :: "(u64 \<Rightarrow> string) \<Rightarrow> string list \<Rightarrow> analysis \<Rightarrow> string" where
  "output_wait_for_graph ratio keys a = ''source,target,value'' @ [NL] @
     concat (map (\<lambda>k. k @ ratio (the (waitForGraph a k)) @ [NL])
       (filter (\<lambda>k. \<not> contains k (show_int (- go_UNKNOWN))) keys))"

text \<open>\<open>main\<close>, after its flags are parsed; the files it cannot open or create stop it.\<close>

definition analyze :: "(string \<Rightarrow> 'f option) \<Rightarrow> (string \<Rightarrow> jval option) \<Rightarrow> (switch list \<Rightarrow> switch list)
    \<Rightarrow> string option \<Rightarrow> string option \<Rightarrow> string option \<Rightarrow> string option \<Rightarrow> ('f \<times> analysis) go option" where
  "analyze parse_float parse srt freq_file pid_file switch_file soft_file =
     (case res_bind (read_cpu_freq parse_float freq_file) (\<lambda>freq.
           res_bind (read_pid_file pid_file analysis_start) (\<lambda>(pids, a).
           res_bind (load_switch parse srt switch_file) (\<lambda>swl.
           res_bind (load_soft parse soft_file) (\<lambda>sl.
           res_bind (init_prev_states pids swl (init_comm_map swl a)) (\<lambda>a1.
           res_bind (init_soft_container sl) (\<lambda>sm.
           res_bind (break_pids sm swl pids a1) (\<lambda>a2. Inr (freq, pids, a2)))))))) of
        Inl e \<Rightarrow> Some (Inl e)
      | Inr (freq, pids, a2) \<Rightarrow> (case cascade_pids 2 pids a2 of
          None \<Rightarrow> None | Some (Inl e) \<Rightarrow> Some (Inl e) | Some (Inr a3) \<Rightarrow> Some (Inr (freq, a3))))"

end
