(* ===== verification/GoSegments.thy ===== *)
theory GoSegments
  imports GoProcess
begin

text \<open>
  What \<open>BreakIntoSegments\<close> builds: the segments it puts, as a list in the order it puts them, and the
  container as the result of putting them; their types and the segments of single waits.
\<close>

section \<open>The segments in the order they are put\<close>

definition seg :: "int \<Rightarrow> int \<Rightarrow> u64 \<Rightarrow> u64 \<Rightarrow> int \<Rightarrow> segment" where
  "seg pid st s e w = \<lparr>sg_pid = pid, sg_state = st, sg_stime = s, sg_etime = e, sg_waitfor = w\<rparr>"

lemma seg_simps [simp]:
  "sg_pid (seg pid st s e w) = pid" "sg_state (seg pid st s e w) = st" "sg_stime (seg pid st s e w) = s"
  "sg_etime (seg pid st s e w) = e" "sg_waitfor (seg pid st s e w) = w"
  by (simp_all add: seg_def)

text \<open>The running time before a switch out, with the softirq that interrupted it cut out.\<close>

definition run_segs :: "soft_map \<Rightarrow> int \<Rightarrow> switch \<Rightarrow> u64 \<Rightarrow> segment list" where
  "run_segs sm pid sw pt =
     (case get_ceiling_soft sm (sw_cpu sw) pt of
        None \<Rightarrow> [seg pid RUNNING pt (sw_time sw) NONE]
      | Some sf \<Rightarrow>
          if sf_stime sf < sw_time sw \<and> sf_etime sf < sw_time sw then
            [seg pid RUNNING pt (sf_stime sf) NONE, seg pid RUNNABLE (sf_stime sf) (sf_etime sf) NONE,
             seg pid RUNNING (sf_etime sf) (sw_time sw) NONE]
          else [seg pid RUNNING pt (sw_time sw) NONE])"

definition waker :: "switch \<Rightarrow> int" where
  "waker sw = (if sw_in_which_ctx sw = go_PROCESS then sw_prev_pid sw else - sw_in_which_ctx sw)"

text \<open>What kind of event a record is for a process.\<close>

datatype for_pid = Out | In | Wake | Other

definition kind_for :: "int \<Rightarrow> switch \<Rightarrow> for_pid" where
  "kind_for pid sw =
     (if sw_type sw = 0 \<and> sw_prev_pid sw = pid then Out
      else if sw_type sw = 0 \<and> sw_next_pid sw = pid then In
      else if sw_type sw = 1 \<and> sw_next_pid sw = pid then Wake
      else Other)"

fun turn :: "soft_map \<Rightarrow> int \<Rightarrow> switch \<Rightarrow> prev_state \<Rightarrow> prev_state \<times> segment list" where
  "turn sm pid sw ps = (case kind_for pid sw of
     Out \<Rightarrow> (\<lparr>ps_time = sw_time sw, ps_state = (if sw_prev_state sw = 0 then RUNNABLE else BLOCKED)\<rparr>,
             run_segs sm pid sw (ps_time ps))
   | In \<Rightarrow> (\<lparr>ps_time = sw_time sw, ps_state = RUNNING\<rparr>, [seg pid RUNNABLE (ps_time ps) (sw_time sw) NONE])
   | Wake \<Rightarrow> if ps_state ps = BLOCKED
            then (\<lparr>ps_time = sw_time sw, ps_state = RUNNABLE\<rparr>, [seg pid BLOCKED (ps_time ps) (sw_time sw) (waker sw)])
            else (ps, [])
   | Other \<Rightarrow> (ps, []))"

fun turns :: "soft_map \<Rightarrow> int \<Rightarrow> switch list \<Rightarrow> prev_state \<Rightarrow> prev_state \<times> segment list" where
  "turns sm pid [] ps = (ps, [])"
| "turns sm pid (sw # swl) ps =
     (case turn sm pid sw ps of (ps1, s1) \<Rightarrow> case turns sm pid swl ps1 of (ps2, s2) \<Rightarrow> (ps2, s1 @ s2))"

definition keyed :: "segment list \<Rightarrow> (u64 \<times> segment) list" where
  "keyed ss = map (\<lambda>s. (sg_stime s, s)) ss"

lemma keyed_simps [simp]:
  "keyed [] = []" "keyed (s # ss) = (sg_stime s, s) # keyed ss" "keyed (ss @ ts) = keyed ss @ keyed ts"
  by (simp_all add: keyed_def)

definition puts :: "segment list \<Rightarrow> segments \<Rightarrow> segments option go" where
  "puts ss t = res_bind (rb_puts (keyed ss) t) (\<lambda>t'. Inr (Some t'))"

lemma seg_put_Some: "seg_put pid st s e w (Some t) = res_bind (rb_put s (seg pid st s e w) t) (\<lambda>t'. Inr (Some t'))"
  by (simp add: seg_put_def seg_def)

lemma puts_Cons: "puts (s # ss) t = res_bind (rb_put (sg_stime s) s t) (puts ss)"
  by (simp add: puts_def [abs_def] res_bind_assoc)

lemma puts_Nil [simp]: "puts [] t = Inr (Some t)"
  by (simp add: puts_def)

lemma puts_append: "puts (ss @ ts) t = res_bind (puts ss t) (\<lambda>s. puts ts (the s))"
proof (induction ss arbitrary: t)
  case (Cons s ss)
  then have "puts (ss @ ts) = (\<lambda>t. res_bind (puts ss t) (\<lambda>s. puts ts (the s)))" by blast
  then show ?case by (simp add: puts_Cons res_bind_assoc)
qed simp

lemma prev_state_upd [simp]: "(p :: prev_state)\<lparr>ps_state := st, ps_time := u\<rparr> = \<lparr>ps_time = u, ps_state = st\<rparr>"
  by (cases p) simp

lemma break_step_turn:
  "break_step sm pid sw ps (Some t) =
     (case turn sm pid sw ps of (ps', ss) \<Rightarrow> res_bind (puts ss t) (\<lambda>segs. Inr (ps', segs)))"
proof -
  note d = break_step_def kind_for_def puts_Cons seg_put_Some res_bind_assoc
  consider (out) "sw_type sw = 0" "sw_prev_pid sw = pid" | (in_) "sw_type sw = 0" "sw_prev_pid sw \<noteq> pid"
    | (wake) "sw_type sw = 1" | (other) "sw_type sw \<noteq> 0" "sw_type sw \<noteq> 1" by blast
  then show ?thesis
  proof cases
    case out
    then show ?thesis
      by (simp add: d switch_out_def run_segs_def Let_def Runnable_def UpdateToRunnable_def UpdateToStopped_def
          split: option.split)
  next
    case in_
    then show ?thesis by (simp add: d UpdateToRunning_def)
  next
    case wake
    then show ?thesis by (simp add: d waker_def UpdateToRunnable_def)
  next
    case other
    then show ?thesis by (simp add: d)
  qed
qed

lemma break_loop_turns:
  "break_loop sm pid swl ps (Some t) =
     (case turns sm pid swl ps of (ps', ss) \<Rightarrow> res_bind (puts ss t) (\<lambda>segs. Inr (ps', segs)))"
proof (induction swl arbitrary: ps t)
  case (Cons sw swl)
  obtain ps1 s1 where t1: "turn sm pid sw ps = (ps1, s1)" by fastforce
  have "break_loop sm pid swl ps1 segs =
      (case turns sm pid swl ps1 of (ps', ss) \<Rightarrow> res_bind (puts ss (the segs)) (\<lambda>segs. Inr (ps', segs)))"
    if "puts s1 t = Inr segs" for segs
    using that Cons.IH [of ps1 "the segs"] by (auto simp: puts_def res_bind_Inr_iff)
  with t1 show ?case
    by (cases "puts s1 t") (simp_all add: break_step_turn puts_append split: prod.split)
qed simp

section \<open>Well-typed containers\<close>

text \<open>
  A segment of a process: one of the three states, a process waited for only in the blocked one, and
  no time beyond \<open>te\<close>. A container is a good tree of such segments, each under its starting time.
\<close>

definition seg_typed :: "int \<Rightarrow> u64 \<Rightarrow> segment \<Rightarrow> bool" where
  "seg_typed pid te s \<longleftrightarrow> sg_pid s = pid \<and> sg_state s \<in> {RUNNING, RUNNABLE, BLOCKED} \<and>
     (sg_waitfor s \<noteq> NONE \<longrightarrow> sg_state s = BLOCKED) \<and> sg_stime s \<le> te \<and> sg_etime s \<le> te"

definition store_ok :: "int \<Rightarrow> u64 \<Rightarrow> segments \<Rightarrow> bool" where
  "store_ok pid te t \<longleftrightarrow> rb_inv t \<and> (\<forall>e \<in> set (entries (root t)). fst e = sg_stime (snd e) \<and> seg_typed pid te (snd e))"

lemma store_ok_new [simp]: "store_ok pid te new_with"
  by (simp add: store_ok_def new_with_def rb_inv_new [unfolded new_with_def])

lemma al_put_subset: "set (al_put k v es) \<subseteq> insert (k, v) (set es)"
  by (induction k v es rule: al_put.induct) auto

lemma al_put_in: "(k, v) \<in> set (al_put k v es)"
  by (induction k v es rule: al_put.induct) auto

lemma store_ok_put:
  assumes "store_ok pid te t" and "k = sg_stime s" and "seg_typed pid te s"
  shows "\<exists>t'. rb_put k s t = Inr t' \<and> store_ok pid te t' \<and> (k, s) \<in> set (entries (root t')) \<and>
    entries (root t') = al_put k s (entries (root t))"
proof -
  obtain t' where t': "rb_put k s t = Inr t'" "rb_inv t'" "entries (root t') = al_put k s (entries (root t))"
    using rb_put_ok [of t k s] assms(1) by (auto simp: store_ok_def)
  have "\<forall>e \<in> set (entries (root t')). e = (k, s) \<or> e \<in> set (entries (root t))"
    unfolding t'(3) using al_put_subset [of k s "entries (root t)"] by blast
  then have "store_ok pid te t'" using assms t'(2) by (auto simp: store_ok_def)
  with t' show ?thesis by (simp add: al_put_in)
qed

lemma puts_ok:
  assumes "store_ok pid te t" and "\<forall>s \<in> set ss. seg_typed pid te s"
  shows "\<exists>t'. puts ss t = Inr (Some t') \<and> store_ok pid te t' \<and>
    map_of (entries (root t')) = map_of (entries (root t)) ++ map_of (rev (keyed ss))"
  using assms
proof (induction ss arbitrary: t)
  case (Cons s ss)
  then obtain t1 where t1: "rb_put (sg_stime s) s t = Inr t1" "store_ok pid te t1"
    "entries (root t1) = al_put (sg_stime s) s (entries (root t))"
    using store_ok_put [of pid te t "sg_stime s" s] by (metis list.set_intros(1))
  with Cons.IH [of t1] Cons.prems obtain t' where "puts ss t1 = Inr (Some t')" "store_ok pid te t'"
    "map_of (entries (root t')) = map_of (entries (root t1)) ++ map_of (rev (keyed ss))" by auto
  with t1 show ?case by (auto simp: puts_Cons map_of_al_put simp del: fun_upd_apply)
qed simp

lemma seg_typed_seg [simp]:
  "seg_typed pid te (seg pid st s e w) \<longleftrightarrow>
     st \<in> {RUNNING, RUNNABLE, BLOCKED} \<and> (w \<noteq> NONE \<longrightarrow> st = BLOCKED) \<and> s \<le> te \<and> e \<le> te"
  by (auto simp: seg_typed_def)

lemma run_segs_typed:
  "sw_time sw \<le> te \<Longrightarrow> pt \<le> te \<Longrightarrow> \<forall>s \<in> set (run_segs sm pid sw pt). seg_typed pid te s"
  by (auto simp: run_segs_def NONE_def split: option.splits)

lemma turn_typed:
  assumes "turn sm pid sw ps = (ps', ss)" and "sw_time sw \<le> te" and "ps_time ps \<le> te"
  shows "ps_time ps' \<le> te \<and> (\<forall>s \<in> set ss. seg_typed pid te s)"
  using assms run_segs_typed [of sw te "ps_time ps" sm pid]
  by (auto simp: NONE_def split: for_pid.splits if_splits)

lemma turns_typed:
  "turns sm pid swl ps = (ps', ss) \<Longrightarrow> \<forall>sw \<in> set swl. sw_time sw \<le> te \<Longrightarrow> ps_time ps \<le> te \<Longrightarrow>
   ps_time ps' \<le> te \<and> (\<forall>s \<in> set ss. seg_typed pid te s)"
proof (induction swl arbitrary: ps ps' ss)
  case (Cons sw swl)
  obtain ps1 s1 where t1: "turn sm pid sw ps = (ps1, s1)" by fastforce
  obtain ps2 s2 where t2: "turns sm pid swl ps1 = (ps2, s2)" by fastforce
  from turn_typed [OF t1] Cons.prems have s1: "ps_time ps1 \<le> te" "\<forall>s \<in> set s1. seg_typed pid te s" by auto
  with Cons.IH [OF t2] Cons.prems(2) have "ps_time ps2 \<le> te" "\<forall>s \<in> set s2. seg_typed pid te s" by auto
  with s1 t1 t2 Cons.prems(1) show ?case by (auto simp del: turn.simps)
qed simp

lemma break_loop_ok:
  assumes "store_ok pid te t" and "\<forall>sw \<in> set swl. sw_time sw \<le> te" and "ps_time ps \<le> te"
  shows "\<exists>ps' t'. break_loop sm pid swl ps (Some t) = Inr (ps', Some t') \<and> store_ok pid te t' \<and>
    map_of (entries (root t')) = map_of (entries (root t)) ++ map_of (rev (keyed (snd (turns sm pid swl ps))))"
proof -
  obtain ps' ss where ss: "turns sm pid swl ps = (ps', ss)" by fastforce
  from puts_ok [OF assms(1)] turns_typed [OF ss assms(2,3)] obtain t' where
    "puts ss t = Inr (Some t')" "store_ok pid te t'"
    "map_of (entries (root t')) = map_of (entries (root t)) ++ map_of (rev (keyed ss))" by blast
  with ss show ?thesis by (simp add: break_loop_turns)
qed

section \<open>What the analysis starts from\<close>

lemma note_life_frame [simp]:
  "prevStateMap (note_life a v) = prevStateMap a" "segMap (note_life a v) = segMap a"
  "commMap (note_life a v) = commMap a" "waitForGraph (note_life a v) = waitForGraph a"
  by (simp_all add: note_life_def)

lemma note_lives_frame [simp]:
  "prevStateMap (foldl note_life a sl) = prevStateMap a" "segMap (foldl note_life a sl) = segMap a"
  "commMap (foldl note_life a sl) = commMap a" "waitForGraph (foldl note_life a sl) = waitForGraph a"
  by (induction sl arbitrary: a) simp_all

lemma init_prev_state_frame [simp]:
  "createTimeList (init_prev_state s e a v) = createTimeList a"
  "exitTimeList (init_prev_state s e a v) = exitTimeList a" "segMap (init_prev_state s e a v) = segMap a"
  "commMap (init_prev_state s e a v) = commMap a" "waitForGraph (init_prev_state s e a v) = waitForGraph a"
  by (simp_all add: init_prev_state_def Let_def split: option.split)

lemma init_prev_states_frame [simp]:
  "createTimeList (foldl (init_prev_state s e) a pl) = createTimeList a"
  "exitTimeList (foldl (init_prev_state s e) a pl) = exitTimeList a"
  "segMap (foldl (init_prev_state s e) a pl) = segMap a"
  "commMap (foldl (init_prev_state s e) a pl) = commMap a"
  "waitForGraph (foldl (init_prev_state s e) a pl) = waitForGraph a"
  by (induction pl arbitrary: a) simp_all

text \<open>The second assignment of \<open>init_prev_state\<close> overwrites the first.\<close>

lemma init_prev_state_map:
  "prevStateMap (init_prev_state s e a v) = (prevStateMap a)(v \<mapsto>
     \<lparr>ps_time = (case exitTimeList a v of None \<Rightarrow> e | Some t \<Rightarrow> t), ps_state = - 1\<rparr>)"
  by (simp add: init_prev_state_def Let_def split: option.split)

lemma init_prev_states_map:
  "prevStateMap (foldl (init_prev_state s e) a pl) v =
     (if v \<in> set pl then Some \<lparr>ps_time = (case exitTimeList a v of None \<Rightarrow> e | Some t \<Rightarrow> t), ps_state = - 1\<rparr>
      else prevStateMap a v)"
  by (induction pl arbitrary: a) (auto simp: init_prev_state_map)

text \<open>The exits a trace records for a process.\<close>

definition exits_of :: "int \<Rightarrow> switch list \<Rightarrow> switch list" where
  "exits_of pid sl = filter (\<lambda>v. sw_type v = 3 \<and> sw_prev_pid v = pid) sl"

lemma note_lives_exit:
  "exitTimeList (foldl note_life a sl) pid =
     (if exits_of pid sl = [] then exitTimeList a pid else Some (sw_time (last (exits_of pid sl))))"
proof (induction sl rule: rev_induct)
  case (snoc v sl)
  then show ?case by (auto simp: note_life_def exits_of_def)
qed (simp add: exits_of_def)

text \<open>The state after the inputs are read.\<close>

definition prepared :: "int list \<Rightarrow> switch list \<Rightarrow> analysis go" where
  "prepared pids swl = init_prev_states pids swl (init_comm_map swl (segment_map_init pids analysis_start))"

lemma fold_new_segments: "foldl (\<lambda>m pid. m(pid \<mapsto> x)) m pids p = (if p \<in> set pids then Some x else m p)"
  by (induction pids arbitrary: m) auto

lemma prepared_facts:
  assumes "prepared pids swl = Inr a"
  shows "swl \<noteq> []"
    and "segMap a p = (if p \<in> set pids then Some new_with else None)"
    and "p \<in> set pids \<Longrightarrow> get_prev_state a p = \<lparr>ps_time = (case exitTimeList a p of
        None \<Rightarrow> sw_time (last swl) | Some t \<Rightarrow> t), ps_state = - 1\<rparr>"
    and "exitTimeList a p = (if exits_of p swl = [] then None else Some (sw_time (last (exits_of p swl))))"
    and "commMap a = comm_map_init swl Map.empty" and "waitForGraph a = Map.empty"
  using assms
  by (auto simp: prepared_def init_prev_states_def init_comm_map_def segment_map_init_def analysis_start_def
      fold_new_segments init_prev_states_map note_lives_exit get_prev_state_def split: if_splits)

section \<open>Breaking up the listed processes\<close>

text \<open>What holds before and while the processes are broken up, for a trace with no time beyond \<open>te\<close>.\<close>

definition ready :: "int list \<Rightarrow> u64 \<Rightarrow> analysis \<Rightarrow> bool" where
  "ready pids te a \<longleftrightarrow>
     (\<forall>p t. segMap a p = Some t \<longrightarrow> store_ok p te t) \<and>
     (\<forall>p \<in> set pids. segMap a p \<noteq> None \<and> ps_state (get_prev_state a p) = - 1 \<and>
        ps_time (get_prev_state a p) \<le> te \<and> (\<forall>t. exitTimeList a p = Some t \<longrightarrow> t \<le> te))"

lemma readyD:
  assumes "ready pids te a" and "pid \<in> set pids"
  obtains t where "segMap a pid = Some t" "store_ok pid te t" "ps_state (get_prev_state a pid) = - 1"
    "ps_time (get_prev_state a pid) \<le> te" "\<forall>t. exitTimeList a pid = Some t \<longrightarrow> t \<le> te"
  using assms by (fastforce simp: ready_def)

lemma prepared_ready:
  assumes "prepared pids swl = Inr a" and "\<forall>sw \<in> set swl. sw_time sw \<le> te"
  shows "ready pids te a"
proof -
  note p = prepared_facts [OF assms(1)]
  have "t \<le> te" if "exitTimeList a v = Some t" for v t
  proof -
    from that p(4) have "exits_of v swl \<noteq> []" "t = sw_time (last (exits_of v swl))" by (auto split: if_splits)
    with last_in_set [of "exits_of v swl"] assms(2) show ?thesis by (auto simp: exits_of_def)
  qed
  with p(1-3) assms(2) show ?thesis
    by (auto simp: ready_def split: option.split if_splits)
qed

lemma ready_upd:
  assumes "ready pids te a" and "store_ok pid te t"
  shows "ready pids te (a\<lparr>segMap := (segMap a)(pid \<mapsto> t)\<rparr>)"
  using assms by (auto simp: ready_def get_prev_state_def)

lemma break_into_ok:
  assumes "ready pids te a" and "pid \<in> set pids" and "swl \<noteq> []" and "\<forall>sw \<in> set swl. sw_time sw \<le> te"
    and "break_into_segments sm swl a pid = Inr a'"
  shows "\<exists>t. a' = a\<lparr>segMap := (segMap a)(pid \<mapsto> t)\<rparr> \<and> store_ok pid te t"
proof -
  obtain t where t: "segMap a pid = Some t" "store_ok pid te t" "ps_state (get_prev_state a pid) = - 1"
    "ps_time (get_prev_state a pid) \<le> te" "\<forall>t. exitTimeList a pid = Some t \<longrightarrow> t \<le> te"
    using readyD [OF assms(1,2)] by blast
  obtain ps1 t1 where t1: "break_loop sm pid swl (get_prev_state a pid) (Some t) = Inr (ps1, Some t1)" "store_ok pid te t1"
    using break_loop_ok [OF t(2) assms(4) t(4)] by blast
  have te: "sw_time (last swl) \<le> te" using assms(3,4) by simp
  show ?thesis
  proof (cases "exitTimeList a pid")
    case None
    have "seg_typed pid te (seg pid BLOCKED (ps_time (get_prev_state a pid)) (sw_time (last swl)) (- go_UNKNOWN))"
      using t(4) te by simp
    from store_ok_put [OF t1(2) _ this, of "ps_time (get_prev_state a pid)"] assms(3,5) t t1 None show ?thesis
      by (auto simp: break_into_segments_def break_end_def get_segments_def has_exit_time_def Let_def seg_put_Some)
  next
    case (Some x)
    from assms(3,5) t t1 Some obtain k s where f: "seg_floor x t1 = Some (k, s)" and
      put: "res_bind (rb_put k (s\<lparr>sg_etime := x\<rparr>) t1) (\<lambda>s'. Inr (a\<lparr>segMap := (segMap a)(pid \<mapsto> s')\<rparr>)) = Inr a'"
      by (auto simp: break_into_segments_def break_end_def get_segments_def has_exit_time_def Let_def
          res_bind_assoc split: option.splits)
    have "rb_inv t1" using t1(2) by (simp add: store_ok_def)
    from rb.floor_spec [OF this] f have "(k, s) \<in> set (entries (root t1))" by (auto simp: seg_floor_def)
    with t1(2) have "k = sg_stime s" "seg_typed pid te s" by (force simp: store_ok_def)+
    with t(5) Some have "seg_typed pid te (s\<lparr>sg_etime := x\<rparr>)" "k = sg_stime (s\<lparr>sg_etime := x\<rparr>)"
      by (simp_all add: seg_typed_def)
    from store_ok_put [OF t1(2) this(2,1)] put show ?thesis by auto
  qed
qed

text \<open>A process that does not exit is broken up without a stop; its last segment ends with the trace.\<close>

lemma break_into_alive:
  assumes "ready pids te a" and "pid \<in> set pids" and "swl \<noteq> []" and "\<forall>sw \<in> set swl. sw_time sw \<le> te"
    and "exitTimeList a pid = None"
  shows "\<exists>t. break_into_segments sm swl a pid = Inr (a\<lparr>segMap := (segMap a)(pid \<mapsto> t)\<rparr>) \<and> store_ok pid te t \<and>
    (let last_start = ps_time (get_prev_state a pid) in
     (last_start, seg pid BLOCKED last_start (sw_time (last swl)) (- go_UNKNOWN)) \<in> set (entries (root t)))"
proof -
  obtain t where t: "segMap a pid = Some t" "store_ok pid te t" "ps_state (get_prev_state a pid) = - 1"
    "ps_time (get_prev_state a pid) \<le> te"
    using readyD [OF assms(1,2)] by blast
  obtain ps1 t1 where t1: "break_loop sm pid swl (get_prev_state a pid) (Some t) = Inr (ps1, Some t1)" "store_ok pid te t1"
    using break_loop_ok [OF t(2) assms(4) t(4)] by blast
  have "seg_typed pid te (seg pid BLOCKED (ps_time (get_prev_state a pid)) (sw_time (last swl)) (- go_UNKNOWN))"
    using t(4) assms(3,4) by simp
  from store_ok_put [OF t1(2) _ this, of "ps_time (get_prev_state a pid)"] assms(3,5) t t1 show ?thesis
    by (auto simp: break_into_segments_def break_end_def get_segments_def has_exit_time_def Let_def seg_put_Some)
qed

lemma break_pids_ready:
  "break_pids sm swl ps a = Inr a' \<Longrightarrow> ready pids te a \<Longrightarrow> set ps \<subseteq> set pids \<Longrightarrow> swl \<noteq> [] \<Longrightarrow>
   \<forall>sw \<in> set swl. sw_time sw \<le> te \<Longrightarrow>
   ready pids te a' \<and> exitTimeList a' = exitTimeList a \<and> commMap a' = commMap a \<and>
   waitForGraph a' = waitForGraph a \<and> prevStateMap a' = prevStateMap a"
proof (induction ps arbitrary: a)
  case (Cons pid ps)
  from Cons.prems(1) obtain a1 where a1: "break_into_segments sm swl a pid = Inr a1" "break_pids sm swl ps a1 = Inr a'"
    by (auto simp: res_bind_Inr_iff)
  from break_into_ok [OF Cons.prems(2) _ Cons.prems(4,5) a1(1)] Cons.prems(3) obtain t where
    t: "a1 = a\<lparr>segMap := (segMap a)(pid \<mapsto> t)\<rparr>" "store_ok pid te t" by auto
  from Cons.IH [OF a1(2)] ready_upd [OF Cons.prems(2) t(2)] Cons.prems t(1) show ?case by simp
qed simp

text \<open>The container of a process whose last segment lies at the end of the trace.\<close>

definition closed_at :: "u64 \<Rightarrow> analysis \<Rightarrow> int \<Rightarrow> bool" where
  "closed_at te a p \<longleftrightarrow> (\<exists>t. segMap a p = Some t \<and> (te, seg p BLOCKED te te (- go_UNKNOWN)) \<in> set (entries (root t)))"

lemma break_pids_alive:
  assumes "ready pids te a" and "set ps \<subseteq> set pids" and "swl \<noteq> []" and "\<forall>sw \<in> set swl. sw_time sw \<le> te"
    and "sw_time (last swl) = te"
    and "\<forall>p \<in> set ps. exitTimeList a p = None \<and> ps_time (get_prev_state a p) = te"
  shows "\<exists>a'. break_pids sm swl ps a = Inr a' \<and> (\<forall>p. p \<in> set ps \<or> closed_at te a p \<longrightarrow> closed_at te a' p)"
  using assms
proof (induction ps arbitrary: a)
  case (Cons pid ps)
  from break_into_alive [OF Cons.prems(1) _ Cons.prems(3,4), of pid sm] Cons.prems(2,5,6) obtain t where
    t: "break_into_segments sm swl a pid = Inr (a\<lparr>segMap := (segMap a)(pid \<mapsto> t)\<rparr>)" "store_ok pid te t"
      "(te, seg pid BLOCKED te te (- go_UNKNOWN)) \<in> set (entries (root t))"
    by (auto simp: Let_def)
  let ?a = "a\<lparr>segMap := (segMap a)(pid \<mapsto> t)\<rparr>"
  have "\<forall>p \<in> set ps. exitTimeList ?a p = None \<and> ps_time (get_prev_state ?a p) = te"
    using Cons.prems(6) by (auto simp: get_prev_state_def)
  with Cons.IH [of ?a] ready_upd [OF Cons.prems(1) t(2)] Cons.prems obtain a' where
    a': "break_pids sm swl ps ?a = Inr a'" "\<forall>p. p \<in> set ps \<or> closed_at te ?a p \<longrightarrow> closed_at te a' p" by auto
  moreover have "closed_at te ?a p" if "p = pid \<or> closed_at te a p" for p
    using that t(3) by (auto simp: closed_at_def)
  ultimately show ?case using t(1) by auto
qed simp

lemma turns_append:
  "turns sm pid (xs @ ys) ps =
     (case turns sm pid xs ps of (ps1, s1) \<Rightarrow> case turns sm pid ys ps1 of (ps2, s2) \<Rightarrow> (ps2, s1 @ s2))"
  by (induction xs arbitrary: ps) (simp_all split: prod.split del: turn.simps)

lemma turns_other: "\<forall>v \<in> set swl. kind_for pid v = Other \<Longrightarrow> turns sm pid swl ps = (ps, [])"
  by (induction swl) simp_all

section \<open>Properties\<close>

text \<open>
  C15: The loop that breaks a process into segments puts exactly the segments of the reference function
  \<open>turns\<close>, in its order, and stops only where putting them stops.
\<close>

theorem break_loop_refines_turns:
  "break_loop sm pid swl ps (Some t) =
     (case turns sm pid swl ps of (ps', ss) \<Rightarrow> res_bind (rb_puts (keyed ss) t) (\<lambda>t'. Inr (ps', Some t')))"
  by (simp add: break_loop_turns puts_def res_bind_assoc split: prod.split)

text \<open>
  C19: All segments of all processes are well typed: they carry the process they are filed under, start
  at the key they are filed at, are running, runnable or blocked, name a process waited for only
  when blocked, and neither start nor end after the last event of a trace in the order of time.
\<close>

theorem segments_typed:
  assumes "prepared pids swl = Inr a" and "sorted (map sw_time swl)" and "break_pids sm swl pids a = Inr a'"
    and "segMap a' pid = Some t" and "(k, s) \<in> set (entries (root t))"
  shows "sg_pid s = pid \<and> sg_stime s = k \<and> sg_state s \<in> {RUNNING, RUNNABLE, BLOCKED} \<and>
    (sg_waitfor s \<noteq> NONE \<longrightarrow> sg_state s = BLOCKED) \<and>
    sg_stime s \<le> sw_time (last swl) \<and> sg_etime s \<le> sw_time (last swl)"
proof -
  have te: "\<forall>sw \<in> set swl. sw_time sw \<le> sw_time (last swl)" by (rule sorted_last [OF assms(2)])
  from break_pids_ready [OF assms(3) prepared_ready [OF assms(1) te] subset_refl prepared_facts(1) [OF assms(1)] te]
  have "store_ok pid (sw_time (last swl)) t" using assms(4) by (simp add: ready_def)
  with assms(5) show ?thesis by (force simp: store_ok_def seg_typed_def)
qed

text \<open>
  A wait becomes one blocked segment: when a process is switched out unrunnable and the next record
  about it is its wake-up, the segment filed under the time of the switch lasts until the wake-up and
  waits for the waker, or for the context of the wake-up when that was no process.
\<close>

theorem wait_becomes_segment:
  assumes "kind_for pid out = Out" and "sw_prev_state out \<noteq> 0" and "\<forall>v \<in> set mid. kind_for pid v = Other"
    and "kind_for pid wake = Wake"
  shows "\<exists>ps' t. break_loop sm pid (pre @ out # mid @ [wake]) ps (Some new_with) = Inr (ps', Some t) \<and>
    map_of (entries (root t)) (sw_time out) = Some (seg pid BLOCKED (sw_time out) (sw_time wake)
      (if sw_in_which_ctx wake = go_PROCESS then sw_prev_pid wake else - sw_in_which_ctx wake))"
proof -
  obtain ps1 s1 where pre: "turns sm pid pre ps = (ps1, s1)" by fastforce
  have "turns sm pid (out # mid @ [wake]) ps1 =
      (\<lparr>ps_time = sw_time wake, ps_state = RUNNABLE\<rparr>, run_segs sm pid out (ps_time ps1) @
        [seg pid BLOCKED (sw_time out) (sw_time wake) (waker wake)])"
    using assms by (simp add: turns_append turns_other)
  with pre have turns: "snd (turns sm pid (pre @ out # mid @ [wake]) ps) =
      (s1 @ run_segs sm pid out (ps_time ps1)) @ [seg pid BLOCKED (sw_time out) (sw_time wake) (waker wake)]"
    by (simp add: turns_append [of sm pid pre])
  from break_loop_ok [of pid "- 1" new_with "pre @ out # mid @ [wake]" ps sm] show ?thesis
    by (auto simp: turns waker_def simp del: turns.simps)
qed

definition ex_switch :: "u64 \<Rightarrow> int \<Rightarrow> int \<Rightarrow> int \<Rightarrow> u64 \<Rightarrow> switch" where
  "ex_switch time ty prev next st = \<lparr>sw_cpu = 0, sw_time = time, sw_type = ty, sw_prev_pid = prev,
     sw_next_pid = next, sw_prev_state = st, sw_next_state = 0, sw_prev_comm = ''p'' @ show_int prev,
     sw_next_comm = ''p'' @ show_int next, sw_in_which_ctx = 12\<rparr>"

theorem wait_becomes_segment_witness:
  "\<exists>ps' t. break_loop Map.empty 7 [ex_switch 10 0 7 0 1, ex_switch 20 1 8 7 0] \<lparr>ps_time = 0, ps_state = - 1\<rparr>
      (Some new_with) = Inr (ps', Some t) \<and> map_of (entries (root t)) 10 = Some (seg 7 BLOCKED 10 20 8)"
  using wait_becomes_segment [of 7 "ex_switch 10 0 7 0 1" "[]" "ex_switch 20 1 8 7 0" Map.empty "[]"
      "\<lparr>ps_time = 0, ps_state = - 1\<rparr>"]
  by (simp add: ex_switch_def kind_for_def go_PROCESS_def)

text \<open>
  The state a process starts from does not depend on when it was created or on where the trace
  begins: the time stored is that of its exit or, without one, of the end of the trace, so that the time
  before its first event is not covered.
\<close>

theorem prev_state_overwritten:
  assumes "prepared pids swl = Inr a" and "pid \<in> set pids"
  shows "get_prev_state a pid = \<lparr>ps_time =
      (if exits_of pid swl = [] then sw_time (last swl) else sw_time (last (exits_of pid swl))), ps_state = - 1\<rparr>"
  using prepared_facts(3,4) [OF assms(1), of pid] assms(2) by simp

definition ex_trace :: "switch list" where
  "ex_trace = [ex_switch 1 0 0 7 0, ex_switch 3 0 7 0 0, ex_switch 5 0 0 7 0, ex_switch 6 3 7 0 0]"

lemma ex_prepared: "\<exists>a. prepared [7] ex_trace = Inr a"
  by (simp add: prepared_def init_prev_states_def ex_trace_def)

theorem prev_state_overwritten_witness:
  "\<exists>a. prepared [7] ex_trace = Inr a \<and> get_prev_state a 7 = \<lparr>ps_time = 6, ps_state = - 1\<rparr>"
proof -
  obtain a where "prepared [7] ex_trace = Inr a" using ex_prepared by blast
  with prev_state_overwritten [OF this, of 7] show ?thesis
    by (simp add: exits_of_def ex_trace_def ex_switch_def)
qed

theorem segments_typed_witness:
  "\<exists>a a' t k s. prepared [7] [ex_switch 1 0 0 7 0] = Inr a \<and> break_pids Map.empty [ex_switch 1 0 0 7 0] [7] a = Inr a' \<and>
     segMap a' 7 = Some t \<and> (k, s) \<in> set (entries (root t)) \<and> sg_pid s = 7 \<and> sg_etime s \<le> 1"
proof -
  let ?swl = "[ex_switch 1 0 0 7 0]"
  obtain a where a: "prepared [7] ?swl = Inr a" by (simp add: prepared_def init_prev_states_def)
  have te: "\<forall>sw \<in> set ?swl. sw_time sw \<le> 1" by (simp add: ex_switch_def)
  note r = prepared_ready [OF a te]
  have "\<forall>p \<in> set [7]. exitTimeList a p = None \<and> ps_time (get_prev_state a p) = 1"
    using prepared_facts(3,4) [OF a, of 7] by (simp add: exits_of_def ex_switch_def)
  with break_pids_alive [OF r subset_refl _ te, of Map.empty] obtain a' where
    a': "break_pids Map.empty ?swl [7] a = Inr a'" "closed_at 1 a' 7" by (auto simp: ex_switch_def)
  then obtain t where t: "segMap a' 7 = Some t" "(1, seg 7 BLOCKED 1 1 (- go_UNKNOWN)) \<in> set (entries (root t))"
    by (auto simp: closed_at_def)
  from segments_typed [OF a _ a'(1) t] have "sg_etime (seg 7 BLOCKED 1 1 (- go_UNKNOWN)) \<le> 1"
    by (simp add: ex_switch_def)
  with a a'(1) t show ?thesis by (metis seg_simps(1))
qed

end
