(* ===== verification/GoGraph.thy ===== *)
theory GoGraph
  imports GoSegments
begin

text \<open>
  The second half of the analysis: the search for the waits of a waker (\<open>findAllWaitingSegments\<close>) ends,
  what it finds is dropped, and so the wait-for graph is the sum of the direct waits; where the analysis
  stops and where it cannot.
\<close>

section \<open>The search loop\<close>

text \<open>The entries behind a segment: what the loop still can see.\<close>

definition later :: "segments \<Rightarrow> segment \<Rightarrow> (u64 \<times> segment) set" where
  "later t s = {e \<in> set (entries (root t)). sg_stime s < fst e}"

lemma later_psubset: "(k, s') \<in> later t s \<Longrightarrow> k = sg_stime s' \<Longrightarrow> later t s' \<subset> later t s"
  unfolding later_def by (rule psubsetI, use less_trans in force, use less_irrefl in force)

lemma finite_later: "finite (later t s)"
  by (simp add: later_def)

text \<open>A container whose last segment lasts to the end \<open>te\<close>.\<close>

definition ends_at :: "u64 \<Rightarrow> segments \<Rightarrow> bool" where
  "ends_at te t \<longleftrightarrow> (\<exists>s. (te, s) \<in> set (entries (root t)) \<and> sg_etime s = te)"

text \<open>The step from one segment to the next.\<close>

lemma seg_ceiling_next:
  assumes "store_ok pid te t" and "sg_stime s < x"
  shows "(seg_ceiling (sg_stime s + 1) t = Inl NilConversion \<and> later t s = {}) \<or>
    (\<exists>k s'. seg_ceiling (sg_stime s + 1) t = Inr (k, s') \<and> (k, s') \<in> later t s \<and> k = sg_stime s')"
proof (cases "rb_ceiling (sg_stime s + 1) t")
  case None
  with rb.ceiling_None [of t "sg_stime s + 1"] assms(1) have "\<forall>e \<in> set (entries (root t)). fst e < sg_stime s + 1"
    by (simp add: store_ok_def)
  then have "later t s = {}" using inc_le_iff [OF assms(2)] by (auto simp: later_def not_le [symmetric])
  with None show ?thesis by (simp add: seg_ceiling_def)
next
  case (Some e)
  obtain k s' where e: "e = (k, s')" by fastforce
  have "(k, s') \<in> set (entries (root t))" "sg_stime s + 1 \<le> k"
    using rb.ceiling_spec [of t "sg_stime s + 1" k s'] assms(1) Some e by (auto simp: store_ok_def)
  moreover from this(1) assms(1) have "k = sg_stime s'" by (force simp: store_ok_def)
  ultimately show ?thesis using Some e inc_le_iff [OF assms(2), of k] by (simp add: seg_ceiling_def later_def)
qed

lemma waiting_loop_ends:
  assumes "store_ok pid te t" and "(sg_stime s, s) \<in> set (entries (root t))"
    and "te < - 1 \<or> ends_at te t \<and> etime \<le> te"
  shows "\<exists>r. waiting_loop t etime s acc = Some r \<and> (ends_at te t \<and> etime \<le> te \<longrightarrow> ok r) \<and>
    (\<not> ok r \<longrightarrow> r = Inl NilConversion)"
  using assms(2)
proof (induction "card (later t s)" arbitrary: s acc rule: less_induct)
  case less
  let ?acc = "if sg_state s = BLOCKED then acc @ [s] else acc"
  show ?case
  proof (cases "etime \<le> sg_etime s")
    case True
    then show ?thesis by (subst waiting_loop.simps) simp
  next
    case False
    have le: "sg_stime s \<le> te" "distinct (map fst (entries (root t)))"
      using less.prems assms(1) by (auto simp: store_ok_def seg_typed_def rb_inv_def keys_ascend_def strict_sorted_iff)
    have before_end: "sg_stime s < te" if "ends_at te t \<and> etime \<le> te"
    proof -
      from that obtain e where "(te, e) \<in> set (entries (root t))" "sg_etime e = te" by (auto simp: ends_at_def)
      with eq_key_imp_eq_value [OF le(2)] less.prems False that have "sg_stime s \<noteq> te" by fastforce
      with le(1) show ?thesis by simp
    qed
    then have room: "\<exists>x. sg_stime s < x" using assms(3) le(1) by (auto intro: le_less_trans)
    then obtain x where "sg_stime s < x" ..
    from seg_ceiling_next [OF assms(1) this] show ?thesis
    proof (elim disjE exE conjE)
      assume none: "seg_ceiling (sg_stime s + 1) t = Inl NilConversion" "later t s = {}"
      have "\<not> (ends_at te t \<and> etime \<le> te)"
        using none(2) before_end by (auto simp: ends_at_def later_def)
      with none(1) False show ?thesis by (subst waiting_loop.simps) simp
    next
      fix k s'
      assume nxt: "seg_ceiling (sg_stime s + 1) t = Inr (k, s')" "(k, s') \<in> later t s" "k = sg_stime s'"
      show ?thesis
      proof (cases "etime \<le> sg_stime s'")
        case True
        with nxt False show ?thesis by (subst waiting_loop.simps) simp
      next
        case far: False
        have "card (later t s') < card (later t s)"
          by (rule psubset_card_mono [OF finite_later later_psubset [OF nxt(2,3)]])
        moreover have "(sg_stime s', s') \<in> set (entries (root t))" using nxt(2,3) by (simp add: later_def)
        ultimately have "\<exists>r. waiting_loop t etime s' ?acc = Some r \<and>
            (ends_at te t \<and> etime \<le> te \<longrightarrow> ok r) \<and> (\<not> ok r \<longrightarrow> r = Inl NilConversion)"
          by (rule less.hyps)
        with nxt(1) False far show ?thesis by (subst waiting_loop.simps) simp
      qed
    qed
  qed
qed

section \<open>Cascading adds the direct wait\<close>

definition direct :: "segment \<Rightarrow> analysis \<Rightarrow> analysis" where
  "direct w a = (if sg_state w = BLOCKED then add_weight (sg_pid w) (sg_waitfor w) (sg_etime w) (sg_stime w) a else a)"

lemma add_weight_frame [simp]:
  "segMap (add_weight p q e s a) = segMap a" "commMap (add_weight p q e s a) = commMap a"
  "exitTimeList (add_weight p q e s a) = exitTimeList a"
  by (simp_all add: add_weight_def Let_def)

lemma direct_frame [simp]:
  "segMap (direct w a) = segMap a" "commMap (direct w a) = commMap a"
  by (simp_all add: direct_def)

lemma find_all_nothing: "find_all_waiting_segments a p e s = Some (Inr l) \<Longrightarrow> l = []"
  by (auto simp: find_all_waiting_segments_def split: option.splits sum.splits)

lemma cascade_direct: "cascade (Suc n) w a = Some (Inr a') \<Longrightarrow> a' = direct w a"
  by (auto simp: direct_def Let_def dest: find_all_nothing split: if_splits option.splits sum.splits)

lemma cascade_segments_direct:
  "cascade_segments (Suc n) ws a = Some (Inr a') \<Longrightarrow> a' = foldl (\<lambda>a w. direct w a) a ws"
  by (induction ws arbitrary: a) (auto dest: cascade_direct split: option.splits sum.splits simp del: cascade.simps)

lemma fold_direct_frame [simp]:
  "segMap (foldl (\<lambda>a w. direct w a) a ws) = segMap a" "commMap (foldl (\<lambda>a w. direct w a) a ws) = commMap a"
  by (induction ws arbitrary: a) simp_all

definition segments_of :: "analysis \<Rightarrow> int \<Rightarrow> segment list" where
  "segments_of a p = (case segMap a p of None \<Rightarrow> [] | Some t \<Rightarrow> map snd (entries (root t)))"

lemma cascade_pids_direct:
  assumes "\<forall>p t. segMap a p = Some t \<longrightarrow> rb_inv t" and "cascade_pids (Suc n) pids a = Some (Inr a')"
  shows "a' = foldl (\<lambda>a w. direct w a) a (concat (map (segments_of a) pids))"
  using assms
proof (induction pids arbitrary: a)
  case (Cons p pids)
  from Cons.prems(2) obtain t where t: "segMap a p = Some t" by (auto simp: get_segments_def split: option.splits)
  with Cons.prems(1) have "visit t At_begin [] = Some (entries (root t))" by (simp add: visit_entries)
  with Cons.prems(2) t obtain a1 where
    a1: "cascade_segments (Suc n) (map snd (entries (root t))) a = Some (Inr a1)" "cascade_pids (Suc n) pids a1 = Some (Inr a')"
    by (auto simp: get_segments_def split: option.splits sum.splits simp del: cascade.simps)
  have a1': "a1 = foldl (\<lambda>a w. direct w a) a (segments_of a p)"
    using cascade_segments_direct [OF a1(1)] t by (simp add: segments_of_def)
  then have "segments_of a1 = segments_of a" by (simp add: segments_of_def fun_eq_iff)
  with Cons.IH [OF _ a1(2)] Cons.prems(1) a1' show ?case by simp
qed simp

section \<open>The weight of an edge\<close>

text \<open>The edge a segment counts for, and how much.\<close>

definition edge_of :: "analysis \<Rightarrow> segment \<Rightarrow> string option" where
  "edge_of a w =
     (if sg_state w = BLOCKED \<and> get_comm a (sg_pid w) \<noteq> [] \<and> get_comm a (sg_waitfor w) \<noteq> []
      then Some (get_comm a (sg_pid w) @ '','' @ get_comm a (sg_waitfor w) @ '','') else None)"

definition waited :: "segment \<Rightarrow> u64" where
  "waited w = sg_etime w - sg_stime w"

definition on_edge :: "analysis \<Rightarrow> string \<Rightarrow> segment list \<Rightarrow> segment list" where
  "on_edge a k ws = filter (\<lambda>w. edge_of a w = Some k) ws"

lemma direct_graph:
  "waitForGraph (direct w a) k =
     (if edge_of a w = Some k then Some ((case waitForGraph a k of None \<Rightarrow> 0 | Some x \<Rightarrow> x) + waited w)
      else waitForGraph a k)"
  by (auto simp: direct_def add_weight_def edge_of_def waited_def Let_def split: option.splits)

lemma edge_of_direct [simp]: "edge_of (direct v a) w = edge_of a w"
  by (simp add: edge_of_def get_comm_def)

lemma on_edge_direct [simp]: "on_edge (direct v a) k ws = on_edge a k ws"
  by (simp add: on_edge_def)

lemma fold_direct_graph:
  "waitForGraph (foldl (\<lambda>a w. direct w a) a ws) k =
     (if on_edge a k ws = [] then waitForGraph a k
      else Some ((case waitForGraph a k of None \<Rightarrow> 0 | Some x \<Rightarrow> x) + sum_list (map waited (on_edge a k ws))))"
proof (induction ws arbitrary: a)
  case (Cons w ws)
  have "on_edge a k (w # ws) = (if edge_of a w = Some k then [w] else []) @ on_edge a k ws"
    by (simp add: on_edge_def)
  with Cons.IH [of "direct w a"] show ?case by (simp add: direct_graph add.assoc)
qed (simp add: on_edge_def)

section \<open>No stop\<close>

lemma find_all_ok:
  assumes "\<forall>p t. segMap a p = Some t \<longrightarrow> store_ok p te t"
    and "te < - 1 \<or> (\<forall>p t. segMap a p = Some t \<longrightarrow> ends_at te t) \<and> etime \<le> te"
  shows "\<exists>r. find_all_waiting_segments a p etime stime = Some r \<and>
    ((\<forall>p t. segMap a p = Some t \<longrightarrow> ends_at te t) \<and> etime \<le> te \<longrightarrow> ok r)"
proof (cases "segMap a p")
  case None
  then show ?thesis by (simp add: find_all_waiting_segments_def get_segments_def)
next
  case t: (Some t)
  with assms(1) have store: "store_ok p te t" by blast
  show ?thesis
  proof (cases "seg_floor stime t")
    case None
    with t show ?thesis by (simp add: find_all_waiting_segments_def get_segments_def)
  next
    case (Some e)
    obtain k s where e: "e = (k, s)" by fastforce
    have "(k, s) \<in> set (entries (root t))"
      using rb.floor_spec [of t stime k s] store Some e by (auto simp: store_ok_def seg_floor_def)
    moreover from this store have "k = sg_stime s" by (force simp: store_ok_def)
    ultimately have "(sg_stime s, s) \<in> set (entries (root t))" by simp
    from waiting_loop_ends [OF store this, of etime "[]"] assms(2) t obtain r where
      "waiting_loop t etime s [] = Some r" "ends_at te t \<and> etime \<le> te \<longrightarrow> ok r" by blast
    with t Some e show ?thesis
      by (cases r) (auto simp: find_all_waiting_segments_def get_segments_def)
  qed
qed

text \<open>The condition the analysis keeps while it cascades: the containers do not change.\<close>

definition calm :: "u64 \<Rightarrow> bool \<Rightarrow> analysis \<Rightarrow> bool" where
  "calm te alive a \<longleftrightarrow> (\<forall>p t. segMap a p = Some t \<longrightarrow> store_ok p te t \<and> (alive \<longrightarrow> ends_at te t)) \<and> (alive \<or> te < - 1)"

lemma cascade_ends:
  assumes "calm te alive a" and "sg_etime w \<le> te"
  shows "\<exists>r. cascade (Suc n) w a = Some r \<and> (alive \<longrightarrow> ok r)"
proof (cases "sg_state w = BLOCKED")
  case True
  let ?a = "add_weight (sg_pid w) (sg_waitfor w) (sg_etime w) (sg_stime w) a"
  from assms find_all_ok [of ?a te "sg_etime w" "sg_waitfor w" "sg_stime w"] obtain r where
    r: "find_all_waiting_segments ?a (sg_waitfor w) (sg_etime w) (sg_stime w) = Some r" "alive \<longrightarrow> ok r"
    by (auto simp: calm_def)
  with True show ?thesis
    by (cases r) (auto simp: Let_def dest: find_all_nothing)
qed simp

lemma cascade_segments_ends:
  "calm te alive a \<Longrightarrow> \<forall>w \<in> set ws. sg_etime w \<le> te \<Longrightarrow>
   \<exists>r. cascade_segments (Suc n) ws a = Some r \<and> (alive \<longrightarrow> ok r)"
proof (induction ws arbitrary: a)
  case (Cons w ws)
  from cascade_ends [OF Cons.prems(1)] Cons.prems(2) obtain r where
    r: "cascade (Suc n) w a = Some r" "alive \<longrightarrow> ok r" by fastforce
  show ?case
  proof (cases r)
    case (Inl e)
    with r show ?thesis by (simp del: cascade.simps)
  next
    case (Inr a1)
    with r cascade_direct have "a1 = direct w a" by blast
    with Cons.prems(1) have "calm te alive a1" by (simp add: calm_def)
    from Cons.IH [OF this] Cons.prems(2) r Inr show ?thesis by (simp del: cascade.simps)
  qed
qed simp

lemma cascade_pids_ends:
  "calm te alive a \<Longrightarrow> \<forall>p \<in> set pids. segMap a p \<noteq> None \<Longrightarrow>
   \<exists>r. cascade_pids (Suc n) pids a = Some r \<and> (alive \<longrightarrow> ok r)"
proof (induction pids arbitrary: a)
  case (Cons p pids)
  then obtain t where t: "segMap a p = Some t" by auto
  with Cons.prems(1) have store: "store_ok p te t" by (simp add: calm_def)
  then have visit: "visit t At_begin [] = Some (entries (root t))"
    and "\<forall>w \<in> set (map snd (entries (root t))). sg_etime w \<le> te"
    by (auto simp: store_ok_def seg_typed_def visit_entries)
  from cascade_segments_ends [OF Cons.prems(1) this(2), of n] obtain r where
    r: "cascade_segments (Suc n) (map snd (entries (root t))) a = Some r" "alive \<longrightarrow> ok r" by blast
  show ?case
  proof (cases r)
    case (Inl e)
    with r t visit show ?thesis by (simp add: get_segments_def)
  next
    case (Inr a1)
    with r cascade_segments_direct have a1: "a1 = foldl (\<lambda>a w. direct w a) a (map snd (entries (root t)))" by blast
    with Cons.prems have "calm te alive a1" "\<forall>p \<in> set pids. segMap a1 p \<noteq> None" by (simp_all add: calm_def)
    from Cons.IH [OF this] r Inr t visit show ?thesis by (simp add: get_segments_def)
  qed
qed simp

section \<open>The whole run\<close>

lemma comm_map_init_dom:
  "comm_map_init sl c p \<noteq> None \<Longrightarrow> c p \<noteq> None \<or> (\<exists>v \<in> set sl. p = sw_prev_pid v \<or> p = sw_next_pid v)"
proof (induction sl c rule: comm_map_init.induct)
  case (2 v sl c)
  then show ?case by (fastforce simp: Let_def split: if_splits)
qed simp

lemma break_pids_dom:
  "break_pids sm swl ps a = Inr a' \<Longrightarrow> segMap a' p \<noteq> None \<Longrightarrow> segMap a p \<noteq> None \<or> p \<in> set ps"
proof (induction ps arbitrary: a)
  case (Cons q ps)
  from Cons.prems(1) obtain a1 where a1: "break_into_segments sm swl a q = Inr a1" "break_pids sm swl ps a1 = Inr a'"
    by (auto simp: res_bind_Inr_iff)
  from a1(1) obtain s where "a1 = a\<lparr>segMap := (segMap a)(q := s)\<rparr>"
    by (auto simp: break_into_segments_def res_bind_Inr_iff split: if_splits)
  with Cons.IH [OF a1(2) Cons.prems(2)] show ?case by (auto split: if_splits)
qed simp

lemma read_pid_file_start:
  "read_pid_file f analysis_start = Inr (pids, a) \<Longrightarrow> a = segment_map_init pids analysis_start"
  by (auto simp: read_pid_file_def res_bind_Inr_iff split: option.splits)

lemma analyze_prepared:
  assumes "read_cpu_freq parse_float f1 = Inr freq" and "read_pid_file f2 analysis_start = Inr (pids, a0)"
    and "load_switch parse srt f3 = Inr swl" and "load_soft parse f4 = Inr sl"
    and "init_soft_container sl = Inr sm"
  shows "analyze parse_float parse srt f1 f2 f3 f4 =
    (case res_bind (prepared pids swl) (break_pids sm swl pids) of
       Inl e \<Rightarrow> Some (Inl e)
     | Inr a \<Rightarrow> (case cascade_pids 2 pids a of
         None \<Rightarrow> None | Some (Inl e) \<Rightarrow> Some (Inl e) | Some (Inr a') \<Rightarrow> Some (Inr (freq, a'))))"
  using assms read_pid_file_start [OF assms(2)]
  by (simp add: analyze_def prepared_def res_bind_def split: sum.split)

text \<open>Once a run has broken up all processes, cascading ends; without exits it ends without a stop.\<close>

lemma cascade_after_break:
  assumes "prepared pids swl = Inr a" and "sorted (map sw_time swl)" and "break_pids sm swl pids a = Inr a'"
    and "sw_time (last swl) < - 1"
  shows "\<exists>r. cascade_pids (Suc n) pids a' = Some r"
proof -
  have te: "\<forall>sw \<in> set swl. sw_time sw \<le> sw_time (last swl)" by (rule sorted_last [OF assms(2)])
  note r = break_pids_ready [OF assms(3) prepared_ready [OF assms(1) te] subset_refl prepared_facts(1) [OF assms(1)] te]
  then have "calm (sw_time (last swl)) False a'" using assms(4) by (simp add: calm_def ready_def)
  from cascade_pids_ends [OF this, of pids n] r show ?thesis by (auto simp: ready_def)
qed

lemma break_and_cascade_alive:
  assumes "prepared pids swl = Inr a" and "sorted (map sw_time swl)" and "\<forall>p \<in> set pids. exits_of p swl = []"
  shows "\<exists>a' a''. break_pids sm swl pids a = Inr a' \<and> cascade_pids (Suc n) pids a' = Some (Inr a'')"
proof -
  let ?te = "sw_time (last swl)"
  have te: "\<forall>sw \<in> set swl. sw_time sw \<le> ?te" by (rule sorted_last [OF assms(2)])
  note p = prepared_facts [OF assms(1)] and r = prepared_ready [OF assms(1) te]
  have "\<forall>p \<in> set pids. exitTimeList a p = None \<and> ps_time (get_prev_state a p) = ?te"
    using p(3,4) assms(3) by simp
  from break_pids_alive [OF r subset_refl p(1) te refl this] obtain a' where
    a': "break_pids sm swl pids a = Inr a'" "\<forall>p \<in> set pids. closed_at ?te a' p" by blast
  note r' = break_pids_ready [OF a'(1) r subset_refl p(1) te]
  have dom: "segMap a' p = Some t \<Longrightarrow> p \<in> set pids" for p t
    using break_pids_dom [OF a'(1), of p] p(2) [of p] by (cases "p \<in> set pids") auto
  have "calm ?te True a'"
    using r' a'(2) dom by (force simp: calm_def ready_def closed_at_def ends_at_def)
  from cascade_pids_ends [OF this, of pids n] r' obtain x where
    "cascade_pids (Suc n) pids a' = Some x" "ok x" by (auto simp: ready_def)
  with a'(1) show ?thesis by (auto simp: ok_def)
qed

section \<open>Properties\<close>

text \<open>
  On a trace in which no listed process exits, the analysis runs to its end: no nil pointer, no
  index and no conversion stops it, and all its loops end.
\<close>

theorem analysis_completes:
  assumes "read_cpu_freq parse_float f1 = Inr freq" and "read_pid_file f2 analysis_start = Inr (pids, a0)"
    and "sorts_by_time srt" and "load_switch parse srt f3 = Inr swl" and "load_soft parse f4 = Inr sl"
    and "swl \<noteq> []" and "\<forall>p \<in> set pids. exits_of p swl = []"
  shows "\<exists>a. analyze parse_float parse srt f1 f2 f3 f4 = Some (Inr (freq, a))"
proof -
  obtain sm where sm: "init_soft_container sl = Inr sm" using init_soft_container_ok by blast
  obtain a where a: "prepared pids swl = Inr a" using assms(6) by (simp add: prepared_def init_prev_states_def)
  from break_and_cascade_alive [OF a load_switch_sorted [OF assms(3,4)] assms(7), of sm 1] obtain a' a'' where
    "break_pids sm swl pids a = Inr a'" "cascade_pids 2 pids a' = Some (Inr a'')" by (auto simp: numeral_2_eq_2)
  with a show ?thesis by (simp add: analyze_prepared [OF assms(1,2,4,5) sm])
qed

text \<open>
  C18: The analysis always ends, by itself or by a stop, on any trace that does not contain the last of
  all 64-bit times: the search for the waits of a waker moves on to later segments only.
\<close>

theorem analysis_terminates:
  assumes "sorts_by_time srt" and "\<forall>swl. load_switch parse srt f3 = Inr swl \<longrightarrow> (\<forall>v \<in> set swl. sw_time v < - 1)"
  shows "analyze parse_float parse srt f1 f2 f3 f4 \<noteq> None"
proof (cases "\<exists>freq pids a0 swl sl. read_cpu_freq parse_float f1 = Inr freq \<and>
    read_pid_file f2 analysis_start = Inr (pids, a0) \<and> load_switch parse srt f3 = Inr swl \<and> load_soft parse f4 = Inr sl")
  case True
  then obtain freq pids a0 swl sl where read: "read_cpu_freq parse_float f1 = Inr freq"
    "read_pid_file f2 analysis_start = Inr (pids, a0)" "load_switch parse srt f3 = Inr swl" "load_soft parse f4 = Inr sl"
    by blast
  obtain sm where sm: "init_soft_container sl = Inr sm" using init_soft_container_ok by blast
  show ?thesis
  proof (cases "res_bind (prepared pids swl) (break_pids sm swl pids)")
    case (Inl e)
    then show ?thesis by (simp add: analyze_prepared [OF read sm])
  next
    case (Inr a')
    then obtain a where a: "prepared pids swl = Inr a" "break_pids sm swl pids a = Inr a'"
      by (auto simp: res_bind_Inr_iff)
    have "sw_time (last swl) < - 1" using assms(2) read(3) prepared_facts(1) [OF a(1)] by simp
    from cascade_after_break [OF a(1) load_switch_sorted [OF assms(1) read(3)] a(2) this, of 1] obtain r where
      "cascade_pids 2 pids a' = Some r" by (auto simp: numeral_2_eq_2)
    with Inr show ?thesis by (simp add: analyze_prepared [OF read sm] split: sum.split)
  qed
next
  case False
  then show ?thesis
    by (cases "read_cpu_freq parse_float f1"; cases "read_pid_file f2 analysis_start";
        cases "load_switch parse srt f3"; cases "load_soft parse f4") (auto simp: analyze_def)
qed

text \<open>A run on two processes, of which the second waits for the first.\<close>

definition ex_wait :: "switch list" where
  "ex_wait = [ex_switch 1 0 0 7 0, ex_switch 5 0 7 0 0, ex_switch 10 0 0 7 0, ex_switch 12 0 8 0 1,
     ex_switch 20 1 7 8 0, ex_switch 21 0 7 0 0]"

lemma ex_wait_sorted: "sorted (map sw_time ex_wait)" "ex_wait \<noteq> []"
  by (simp_all add: ex_wait_def ex_switch_def)

lemma ex_wait_prepared: "\<exists>a. prepared [7, 8] ex_wait = Inr a"
  by (simp add: prepared_def init_prev_states_def ex_wait_def)

lemma parse_int_7: "parse_int ''7'' = Some 7"
  by (simp add: parse_int_def all_digits_def is_digit_def read_nat_def digit_val_def)

lemma ex_pid_file: "\<exists>a. read_pid_file (Some ''7'') analysis_start = Inr ([7], a)"
proof -
  have "go_split CHR '','' ''7'' = [''7'']" by (simp add: go_split_def tokens_last)
  then show ?thesis by (simp add: read_pid_file_def trim_suffix_def parse_int_7)
qed

definition ex_parse :: "string \<Rightarrow> jval option" where
  "ex_parse l = Some (JObj [(''next_pid'', JStr ''7'')])"

lemma ex_unmarshal: "unmarshal ex_parse switch_member [] zero_switch = Some (zero_switch\<lparr>sw_next_pid := 7\<rparr>)"
proof -
  have "number_start ''7''" by (simp add: number_start_def is_digit_def)
  then show ?thesis
    by (simp add: unmarshal_def ex_parse_def switch_member_def is_field_def to_lower_def store_quoted_def parse_int_7)
qed

lemma ex_load: "load_switch ex_parse (sort_key sw_time) (Some [NL]) = Inr [zero_switch\<lparr>sw_next_pid := 7\<rparr>]"
  and ex_load_soft: "load_soft ex_parse (Some []) = Inr []"
proof -
  have "go_split NL [NL] = [[], []]" using tokens_cons [of NL "[]" "[]"] by (simp add: go_split_def tokens_last)
  then show "load_switch ex_parse (sort_key sw_time) (Some [NL]) = Inr [zero_switch\<lparr>sw_next_pid := 7\<rparr>]"
    by (simp add: load_switch_def trim_suffix_def map_filter_simps ex_unmarshal)
  show "load_soft ex_parse (Some []) = Inr []"
    by (simp add: load_soft_def go_split_def tokens_last map_filter_simps)
qed

theorem analysis_completes_witness:
  "\<exists>a. analyze (\<lambda>s. Some (1 :: nat)) ex_parse (sort_key sw_time) (Some ''2.4'') (Some ''7'') (Some [NL]) (Some []) =
     Some (Inr (1, a))"
proof -
  obtain a0 where pids: "read_pid_file (Some ''7'') analysis_start = Inr ([7], a0)" using ex_pid_file by blast
  have freq: "read_cpu_freq (\<lambda>s. Some (1 :: nat)) (Some ''2.4'') = Inr 1"
    by (simp add: read_cpu_freq_def go_split_def tokens_last)
  show ?thesis
    by (rule analysis_completes [OF freq pids sorts_by_time_sort_key ex_load ex_load_soft])
      (simp_all add: exits_of_def zero_switch_def)
qed

theorem analysis_terminates_witness:
  "analyze (\<lambda>s. Some (1 :: nat)) ex_parse (sort_key sw_time) (Some ''2.4'') (Some ''7'') (Some [NL]) (Some []) \<noteq> None"
  by (rule analysis_terminates [OF sorts_by_time_sort_key])
    (simp add: ex_load zero_switch_def less_le)

text \<open>
  C9: The search for the waits of a waker never contributes: when cascading the listed processes
  ends without a stop, the outcome is that of adding the direct wait of every blocked segment, process
  by process.
\<close>

theorem cascade_equals_direct:
  assumes "prepared pids swl = Inr a" and "sorted (map sw_time swl)" and "break_pids sm swl pids a = Inr a'"
    and "cascade_pids (Suc n) pids a' = Some (Inr a'')"
  shows "a'' = foldl (\<lambda>a w. if sg_state w = BLOCKED
      then add_weight (sg_pid w) (sg_waitfor w) (sg_etime w) (sg_stime w) a else a)
    a' (concat (map (segments_of a') pids))"
proof -
  have te: "\<forall>sw \<in> set swl. sw_time sw \<le> sw_time (last swl)" by (rule sorted_last [OF assms(2)])
  have "\<forall>p t. segMap a' p = Some t \<longrightarrow> rb_inv t"
    using break_pids_ready [OF assms(3) prepared_ready [OF assms(1) te] subset_refl prepared_facts(1) [OF assms(1)] te]
    by (simp add: ready_def store_ok_def)
  from cascade_pids_direct [OF this assms(4)] show ?thesis by (simp add: direct_def [abs_def])
qed

lemma ex_wait_run: "\<exists>a a' a''. prepared [7, 8] ex_wait = Inr a \<and> break_pids Map.empty ex_wait [7, 8] a = Inr a' \<and>
    cascade_pids 1 [7, 8] a' = Some (Inr a'')"
proof -
  obtain a where a: "prepared [7, 8] ex_wait = Inr a" using ex_wait_prepared by blast
  have "\<forall>p \<in> set [7, 8]. exits_of p ex_wait = []" by (simp add: exits_of_def ex_wait_def ex_switch_def)
  from break_and_cascade_alive [OF a ex_wait_sorted(1) this, of Map.empty 0] a show ?thesis by auto
qed

theorem cascade_equals_direct_witness:
  "\<exists>a a' a''. prepared [7, 8] ex_wait = Inr a \<and> break_pids Map.empty ex_wait [7, 8] a = Inr a' \<and>
     cascade_pids 1 [7, 8] a' = Some (Inr a'') \<and>
     a'' = foldl (\<lambda>a w. direct w a) a' (segments_of a' 7 @ segments_of a' 8)"
proof -
  obtain a a' a'' where r: "prepared [7, 8] ex_wait = Inr a" "break_pids Map.empty ex_wait [7, 8] a = Inr a'"
    "cascade_pids 1 [7, 8] a' = Some (Inr a'')" using ex_wait_run by blast
  with cascade_equals_direct [OF r(1) ex_wait_sorted(1) r(2), of 0 a''] show ?thesis
    by (simp add: direct_def [abs_def])
qed

text \<open>
  The wait-for graph at the end of a run: an edge is there when some blocked segment of a listed
  process has its two command names, and its weight is the sum of the lengths of those segments,
  modulo 2 to the 64.
\<close>

theorem graph_weights:
  assumes "prepared pids swl = Inr a" and "sorted (map sw_time swl)" and "break_pids sm swl pids a = Inr a'"
    and "cascade_pids (Suc n) pids a' = Some (Inr a'')"
  shows "waitForGraph a'' k =
    (let ws = filter (\<lambda>w. sg_state w = BLOCKED \<and> get_comm a (sg_pid w) \<noteq> [] \<and> get_comm a (sg_waitfor w) \<noteq> [] \<and>
           k = get_comm a (sg_pid w) @ '','' @ get_comm a (sg_waitfor w) @ '','') (concat (map (segments_of a') pids))
     in if ws = [] then None else Some (\<Sum>w\<leftarrow>ws. sg_etime w - sg_stime w))"
proof -
  have te: "\<forall>sw \<in> set swl. sw_time sw \<le> sw_time (last swl)" by (rule sorted_last [OF assms(2)])
  note r = break_pids_ready [OF assms(3) prepared_ready [OF assms(1) te] subset_refl prepared_facts(1) [OF assms(1)] te]
  then have "\<forall>p t. segMap a' p = Some t \<longrightarrow> rb_inv t" by (simp add: ready_def store_ok_def)
  note d = cascade_pids_direct [OF this assms(4)]
  have comm: "get_comm a' = get_comm a" and empty: "waitForGraph a' k = None"
    using r prepared_facts(6) [OF assms(1)] by (simp_all add: get_comm_def fun_eq_iff)
  have "on_edge a' k ws = filter (\<lambda>w. sg_state w = BLOCKED \<and> get_comm a (sg_pid w) \<noteq> [] \<and>
      get_comm a (sg_waitfor w) \<noteq> [] \<and> k = get_comm a (sg_pid w) @ '','' @ get_comm a (sg_waitfor w) @ '','') ws" for ws
    by (auto simp: on_edge_def edge_of_def comm intro!: filter_cong)
  with fold_direct_graph [of a' "concat (map (segments_of a') pids)" k] empty show ?thesis
    unfolding d by (simp add: Let_def waited_def [abs_def])
qed

text \<open>Cascading after breaking up, without softirqs, from the processes and the trace alone.\<close>

definition run_of :: "int list \<Rightarrow> switch list \<Rightarrow> analysis go option" where
  "run_of pids swl = (case res_bind (prepared pids swl) (break_pids Map.empty swl pids) of
     Inl e \<Rightarrow> Some (Inl e) | Inr a \<Rightarrow> cascade_pids 1 pids a)"

lemma ex_wait_weight: "case run_of [7, 8] ex_wait of Some (Inr a) \<Rightarrow> waitForGraph a ''p8,p7,'' = Some 8 | _ \<Rightarrow> False"
  by code_simp

theorem graph_weights_witness:
  "\<exists>a a' a''. prepared [7, 8] ex_wait = Inr a \<and> break_pids Map.empty ex_wait [7, 8] a = Inr a' \<and>
     cascade_pids 1 [7, 8] a' = Some (Inr a'') \<and> waitForGraph a'' ''p8,p7,'' = Some 8 \<and>
     (\<exists>w \<in> set (concat (map (segments_of a') [7, 8])). sg_state w = BLOCKED \<and> get_comm a (sg_waitfor w) \<noteq> [])"
proof -
  obtain a a' a'' where r: "prepared [7, 8] ex_wait = Inr a" "break_pids Map.empty ex_wait [7, 8] a = Inr a'"
    "cascade_pids 1 [7, 8] a' = Some (Inr a'')" using ex_wait_run by blast
  have w: "waitForGraph a'' ''p8,p7,'' = Some 8" using ex_wait_weight r by (simp add: run_of_def)
  with graph_weights [OF r(1) ex_wait_sorted(1) r(2), of 0 a'' "''p8,p7,''"] r(3) have
    "filter (\<lambda>w. sg_state w = BLOCKED \<and> get_comm a (sg_pid w) \<noteq> [] \<and> get_comm a (sg_waitfor w) \<noteq> [] \<and>
       ''p8,p7,'' = get_comm a (sg_pid w) @ '','' @ get_comm a (sg_waitfor w) @ '','')
       (concat (map (segments_of a') [7, 8])) \<noteq> []"
    by (auto simp: Let_def split: if_splits)
  then show ?thesis using r w unfolding filter_empty_conv by blast
qed

text \<open>
  A wake-up out of an interrupt is not accounted: where all processes of a trace have numbers
  that are not negative, a segment that waits for an interrupt context adds to no edge. A wake-up out of
  softirq 0 is filed under process 0, the idle task.
\<close>

theorem irq_waits_uncounted:
  assumes "prepared pids swl = Inr a" and "\<forall>v \<in> set swl. 0 \<le> sw_prev_pid v \<and> 0 \<le> sw_next_pid v"
    and "sw_in_which_ctx wake \<noteq> go_PROCESS"
  shows "(0 < sw_in_which_ctx wake \<longrightarrow> add_weight pid (waker wake) e s a = a) \<and>
    (sw_in_which_ctx wake = 0 \<longrightarrow> waker wake = 0)"
proof -
  have "get_comm a (- ctx) = []" if "0 < ctx" for ctx
    using comm_map_init_dom [of swl Map.empty "- ctx"] assms(2) that prepared_facts(5) [OF assms(1)]
    by (force simp: get_comm_def split: option.split)
  with assms(3) show ?thesis by (simp add: waker_def add_weight_def)
qed

theorem irq_waits_uncounted_witness:
  "\<exists>a. prepared [7, 8] ex_wait = Inr a \<and>
     add_weight 8 (waker ((ex_switch 20 1 7 8 0)\<lparr>sw_in_which_ctx := 11\<rparr>)) 20 12 a = a"
proof -
  obtain a where a: "prepared [7, 8] ex_wait = Inr a" using ex_wait_prepared by blast
  have "\<forall>v \<in> set ex_wait. 0 \<le> sw_prev_pid v \<and> 0 \<le> sw_next_pid v" by (simp add: ex_wait_def ex_switch_def)
  from irq_waits_uncounted [OF a this, of "(ex_switch 20 1 7 8 0)\<lparr>sw_in_which_ctx := 11\<rparr>"] a show ?thesis
    by (simp add: go_PROCESS_def)
qed

definition late_wake :: "switch list" where
  "late_wake = [ex_switch 1 0 0 7 0, ex_switch 5 0 7 0 0, ex_switch 10 0 0 7 0, ex_switch 12 0 8 0 1,
     ex_switch 20 3 7 0 0, ex_switch 21 1 7 8 0]"

text \<open>
  The analysis can stop: process 7 exits at 20 and, before it is switched out, wakes process 8 at 21,
  where the trace ends. The search for a segment of process 7 after 20 finds none, and the
  conversion of the nil key ends the program.
\<close>

theorem late_wake_stops:
  "case run_of [7, 8] late_wake of Some (Inl e) \<Rightarrow> e = NilConversion | _ \<Rightarrow> False"
  by code_simp

end
