(* ===== verification/GoReport.thy ===== *)
theory GoReport
  imports GoGraph
begin

text \<open>
  The analyzer against its report: what it computes over trees, package variables and a cascade is a
  sum over the segments of the listed processes, which are computed from the events alone, without
  any container.
\<close>

section \<open>The report\<close>

text \<open>The segment in place at a time: the one put last among those that start last up to then.\<close>

definition segment_at :: "u64 \<Rightarrow> segment list \<Rightarrow> segment option" where
  "segment_at t ss = foldl (\<lambda>best s.
     if sg_stime s \<le> t \<and> (case best of None \<Rightarrow> True | Some b \<Rightarrow> sg_stime b \<le> sg_stime s) then Some s else best) None ss"

text \<open>All segments of a process in the order they are put, to the end of the trace or its exit.\<close>

definition life :: "soft_map \<Rightarrow> switch list \<Rightarrow> int \<Rightarrow> segment list" where
  "life sm swl pid =
     (let te = sw_time (last swl); ex = exits_of pid swl;
          t0 = (if ex = [] then te else sw_time (last ex));
          ss = snd (turns sm pid swl \<lparr>ps_time = t0, ps_state = - 1\<rparr>) in
      if ex = [] then ss @ [seg pid BLOCKED t0 te (- go_UNKNOWN)]
      else case segment_at t0 ss of None \<Rightarrow> ss | Some s \<Rightarrow> ss @ [s\<lparr>sg_etime := t0\<rparr>])"

text \<open>Of segments with the same start only the one put last is left.\<close>

fun surviving :: "segment list \<Rightarrow> segment list" where
  "surviving [] = []"
| "surviving (s # ss) = (if sg_stime s \<in> sg_stime ` set ss then surviving ss else s # surviving ss)"

text \<open>The name of a process is the one that comes with its number first.\<close>

fun name_of :: "switch list \<Rightarrow> int \<Rightarrow> string" where
  "name_of [] p = []"
| "name_of (v # swl) p = (if sw_prev_pid v = p then sw_prev_comm v
     else if sw_next_pid v = p then sw_next_comm v else name_of swl p)"

definition edge_name :: "switch list \<Rightarrow> segment \<Rightarrow> string option" where
  "edge_name swl w =
     (if sg_state w = BLOCKED \<and> name_of swl (sg_pid w) \<noteq> [] \<and> name_of swl (sg_waitfor w) \<noteq> []
      then Some (name_of swl (sg_pid w) @ '','' @ name_of swl (sg_waitfor w) @ '','') else None)"

definition report :: "soft_map \<Rightarrow> switch list \<Rightarrow> int list \<Rightarrow> string \<Rightarrow> u64 option" where
  "report sm swl pids k =
     (let ws = filter (\<lambda>w. edge_name swl w = Some k) (concat (map (\<lambda>p. surviving (life sm swl p)) pids)) in
      if ws = [] then None else Some (\<Sum>w\<leftarrow>ws. sg_etime w - sg_stime w))"

section \<open>Segments of a process\<close>

lemma segment_at_snoc:
  "segment_at t (ss @ [s]) = (if sg_stime s \<le> t \<and> (case segment_at t ss of None \<Rightarrow> True | Some b \<Rightarrow> sg_stime b \<le> sg_stime s)
     then Some s else segment_at t ss)"
  by (simp add: segment_at_def)

lemma segment_at_None: "segment_at t ss = None \<longleftrightarrow> (\<forall>v \<in> set ss. t < sg_stime v)"
  by (induction ss rule: rev_induct)
    (auto simp: segment_at_snoc not_le not_less split: option.splits, simp_all add: segment_at_def)

lemma segment_at_Some:
  "segment_at t ss = Some s \<Longrightarrow> map_of (rev (keyed ss)) (sg_stime s) = Some s \<and> sg_stime s \<le> t \<and>
     (\<forall>v \<in> set ss. sg_stime v \<le> t \<longrightarrow> sg_stime v \<le> sg_stime s)"
proof (induction ss arbitrary: s rule: rev_induct)
  case (snoc v ss)
  show ?case
  proof (cases "segment_at t ss")
    case None
    with snoc.prems have "s = v" "sg_stime v \<le> t" by (auto simp: segment_at_snoc split: if_splits)
    with None show ?thesis by (auto simp: segment_at_None)
  next
    case (Some b)
    with snoc show ?thesis by (force simp: segment_at_snoc split: if_splits)
  qed
qed (simp add: segment_at_def)

lemma floor_segment_at:
  assumes "rb_puts (keyed ss) new_with = Inr t"
  shows "seg_floor x t = map_option (\<lambda>s. (sg_stime s, s)) (segment_at x ss)"
proof (cases "segment_at x ss")
  case (Some s)
  from segment_at_Some [OF Some] have "seg_floor x t = Some (sg_stime s, s)"
    unfolding seg_floor_def rb_puts_neighbours(1) [OF assms] by (auto simp: keyed_def)
  with Some show ?thesis by simp
next
  case None
  have "seg_floor x t = None"
  proof (cases "seg_floor x t")
    case (Some e)
    obtain k s where e: "e = (k, s)" by fastforce
    have "map_of (rev (keyed ss)) k = Some s" "k \<le> x"
      using rb_puts_neighbours(1) [OF assms, of x k s] Some e by (simp_all add: seg_floor_def)
    then have "s \<in> set ss" "sg_stime s \<le> x" by (auto dest!: map_of_SomeD simp: keyed_def)
    with None show ?thesis by (auto simp: segment_at_None)
  qed
  with None show ?thesis by simp
qed

lemma break_life:
  assumes "segMap a pid = Some new_with" and "exitTimeList a pid =
      (if exits_of pid swl = [] then None else Some (sw_time (last (exits_of pid swl))))"
    and "get_prev_state a pid = \<lparr>ps_time = (case exitTimeList a pid of None \<Rightarrow> sw_time (last swl) | Some t \<Rightarrow> t),
      ps_state = - 1\<rparr>"
    and "break_into_segments sm swl a pid = Inr a'"
  shows "\<exists>t. a' = a\<lparr>segMap := (segMap a)(pid \<mapsto> t)\<rparr> \<and> rb_puts (keyed (life sm swl pid)) new_with = Inr t"
proof -
  let ?ps = "get_prev_state a pid"
  obtain ps1 ss where ss: "turns sm pid swl ?ps = (ps1, ss)" by fastforce
  obtain t where t: "rb_puts (keyed ss) new_with = Inr t" using rb_puts_ok [of "keyed ss"] by blast
  have app: "rb_puts (keyed ss @ [(k, s)]) new_with = rb_put k s t" for k s
    using t by (cases "rb_put k s t") (simp_all add: rb_puts_append)
  have loop: "break_loop sm pid swl ?ps (Some new_with) = Inr (ps1, Some t)"
    using ss t by (simp add: break_loop_turns puts_def)
  note d = break_into_segments_def break_end_def get_segments_def has_exit_time_def Let_def seg_put_Some
  show ?thesis
  proof (cases "exits_of pid swl = []")
    case True
    with assms loop app ss show ?thesis
      by (auto simp: d life_def res_bind_Inr_iff split: if_splits)
  next
    case False
    with assms loop app ss show ?thesis
      by (auto simp: d life_def res_bind_Inr_iff floor_segment_at [OF t] split: if_splits option.splits)
  qed
qed

text \<open>Each of the listed processes, listed once, is left with the tree of its segments.\<close>

lemma break_into_frame:
  "break_into_segments sm swl a pid = Inr a' \<Longrightarrow> \<exists>s. a' = a\<lparr>segMap := (segMap a)(pid := s)\<rparr>"
  by (auto simp: break_into_segments_def res_bind_Inr_iff split: if_splits)

lemma break_pids_frame:
  "break_pids sm swl ps a = Inr a' \<Longrightarrow>
   exitTimeList a' = exitTimeList a \<and> prevStateMap a' = prevStateMap a \<and> (\<forall>p. p \<notin> set ps \<longrightarrow> segMap a' p = segMap a p)"
proof (induction ps arbitrary: a)
  case (Cons p ps)
  then obtain a1 where a1: "break_into_segments sm swl a p = Inr a1" "break_pids sm swl ps a1 = Inr a'"
    by (auto simp: res_bind_Inr_iff)
  from break_into_frame [OF a1(1)] Cons.IH [OF a1(2)] show ?case by auto
qed simp

lemma break_pids_lives:
  assumes "break_pids sm swl ps a = Inr a'" and "distinct ps"
    and "\<forall>p \<in> set ps. segMap a p = Some new_with \<and>
      exitTimeList a p = (if exits_of p swl = [] then None else Some (sw_time (last (exits_of p swl)))) \<and>
      get_prev_state a p = \<lparr>ps_time = (case exitTimeList a p of None \<Rightarrow> sw_time (last swl) | Some t \<Rightarrow> t), ps_state = - 1\<rparr>"
  shows "\<forall>p \<in> set ps. \<exists>t. segMap a' p = Some t \<and> rb_puts (keyed (life sm swl p)) new_with = Inr t"
  using assms
proof (induction ps arbitrary: a)
  case (Cons p ps)
  then obtain a1 where a1: "break_into_segments sm swl a p = Inr a1" "break_pids sm swl ps a1 = Inr a'"
    by (auto simp: res_bind_Inr_iff)
  from break_life [OF _ _ _ a1(1)] Cons.prems(3) obtain t where
    t: "a1 = a\<lparr>segMap := (segMap a)(p \<mapsto> t)\<rparr>" "rb_puts (keyed (life sm swl p)) new_with = Inr t" by auto
  have "\<forall>q \<in> set ps. \<exists>t. segMap a' q = Some t \<and> rb_puts (keyed (life sm swl q)) new_with = Inr t"
    using Cons.IH [OF a1(2)] Cons.prems(2,3) unfolding t(1) by (auto simp: get_prev_state_def)
  moreover have "segMap a' p = Some t" using break_pids_frame [OF a1(2)] Cons.prems(2) t(1) by simp
  ultimately show ?case using t(2) by auto
qed simp

section \<open>The sum over a container and over the report\<close>

lemma surviving_keys: "sg_stime ` set (surviving ss) = sg_stime ` set ss"
  by (induction ss) (auto simp: image_iff)

lemma surviving_distinct: "distinct (map fst (keyed (surviving ss)))"
  using surviving_keys by (induction ss) (auto simp: keyed_def)

lemma surviving_subset: "set (surviving ss) \<subseteq> set ss"
  by (induction ss) auto

lemma keyed_lookup_None: "k \<notin> sg_stime ` set ss \<longleftrightarrow> map_of (keyed ss) k = None"
  by (induction ss) auto

lemma map_of_surviving: "map_of (keyed (surviving ss)) = map_of (rev (keyed ss))"
proof (induction ss)
  case (Cons s ss)
  have "map_of (rev (keyed ss)) k = None \<longleftrightarrow> k \<notin> sg_stime ` set ss" for k
    using Cons.IH keyed_lookup_None [of k "surviving ss"] by (simp add: surviving_keys)
  with Cons.IH show ?case by (auto simp: fun_eq_iff map_add_def split: option.splits; metis option.distinct(1))
qed simp

lemma same_map_same_mset:
  assumes "map_of xs = map_of ys" and "distinct (map fst xs)" and "distinct (map fst ys)"
  shows "mset xs = mset ys"
proof -
  have "set xs = set ys" using assms by (metis subset_antisym subrelI map_of_eq_Some_iff)
  with assms(2,3) show ?thesis by (simp add: distinct_map set_eq_iff_mset_eq_distinct)
qed

lemma container_entries:
  assumes "rb_puts (keyed ss) new_with = Inr t"
  shows "mset (entries (root t)) = mset (keyed (surviving ss))"
proof -
  note inv = rb_puts_inv [OF assms]
  have "distinct (map fst (entries (root t)))"
    using inv(1) by (simp add: rb_inv_def keys_ascend_def strict_sorted_iff)
  from same_map_same_mset [OF _ this surviving_distinct [of ss]] inv(2) show ?thesis by (simp add: map_of_surviving)
qed

lemma container_segments:
  assumes "rb_puts (keyed ss) new_with = Inr t"
  shows "mset (map snd (entries (root t))) = mset (surviving ss)"
proof -
  have "image_mset snd (mset (entries (root t))) = image_mset snd (mset (keyed (surviving ss)))"
    by (simp add: container_entries [OF assms])
  then show ?thesis by (simp add: keyed_def multiset.map_comp comp_def)
qed

lemma concat_mset:
  "\<forall>p \<in> set ps. mset (f p) = mset (g p) \<Longrightarrow> mset (concat (map f ps)) = mset (concat (map g ps))"
  by (induction ps) auto

lemma sum_filter_mset:
  fixes f :: "'a \<Rightarrow> 'b::comm_monoid_add"
  assumes "mset xs = mset ys"
  shows "sum_list (map f (filter P xs)) = sum_list (map f (filter P ys))" and "filter P xs = [] \<longleftrightarrow> filter P ys = []"
proof -
  have m: "mset (filter P xs) = mset (filter P ys)" using assms by simp
  then have "sum_mset (image_mset f (mset (filter P xs))) = sum_mset (image_mset f (mset (filter P ys)))" by simp
  then show "sum_list (map f (filter P xs)) = sum_list (map f (filter P ys))"
    by (metis mset_map sum_mset_sum_list)
  show "filter P xs = [] \<longleftrightarrow> filter P ys = []" using m by (metis mset_zero_iff)
qed

text \<open>Names.\<close>

lemma comm_map_init_name:
  "get_comm (a\<lparr>commMap := comm_map_init swl c\<rparr>) p =
     (case c p of Some n \<Rightarrow> n | None \<Rightarrow> name_of swl p)"
proof (induction swl c rule: comm_map_init.induct)
  case (2 v sl c)
  then show ?case by (auto simp: get_comm_def Let_def split: option.splits if_splits)
qed (simp add: get_comm_def split: option.split)

lemma prepared_comm: "prepared pids swl = Inr a \<Longrightarrow> get_comm a p = name_of swl p"
  using comm_map_init_name [of swl Map.empty a p] by (simp add: get_comm_def prepared_facts(5))

section \<open>A run\<close>

lemma run_reports:
  assumes "prepared pids swl = Inr a" and "sorted (map sw_time swl)" and "distinct pids"
    and "break_pids sm swl pids a = Inr a'" and "cascade_pids (Suc n) pids a' = Some (Inr a'')"
  shows "waitForGraph a'' k = report sm swl pids k"
proof -
  have te: "\<forall>sw \<in> set swl. sw_time sw \<le> sw_time (last swl)" by (rule sorted_last [OF assms(2)])
  note p = prepared_facts [OF assms(1)]
  note r = break_pids_ready [OF assms(4) prepared_ready [OF assms(1) te] subset_refl p(1) te]
  then have "\<forall>p t. segMap a' p = Some t \<longrightarrow> rb_inv t" by (simp add: ready_def store_ok_def)
  note graph = cascade_pids_direct [OF this assms(5)]
  have name: "get_comm a' q = name_of swl q" for q
    using prepared_comm [OF assms(1), of q] r by (simp add: get_comm_def)
  have "\<forall>q \<in> set pids. \<exists>t. segMap a' q = Some t \<and> rb_puts (keyed (life sm swl q)) new_with = Inr t"
    by (rule break_pids_lives [OF assms(4,3)]) (simp add: p(2-4))
  then have "\<forall>q \<in> set pids. mset (segments_of a' q) = mset (surviving (life sm swl q))"
    using container_segments by (fastforce simp: segments_of_def)
  then have same: "mset (concat (map (segments_of a') pids)) = mset (concat (map (\<lambda>q. surviving (life sm swl q)) pids))"
    by (rule concat_mset)
  have "on_edge a' k ws = filter (\<lambda>w. edge_name swl w = Some k) ws" for ws
    by (simp add: on_edge_def edge_of_def edge_name_def name)
  with fold_direct_graph [of a' "concat (map (segments_of a') pids)" k] r p(6)
    sum_filter_mset(1) [OF same, where P = "\<lambda>w. edge_name swl w = Some k" and f = waited]
    sum_filter_mset(2) [OF same, where P = "\<lambda>w. edge_name swl w = Some k"]
  show ?thesis by (simp add: graph report_def Let_def waited_def [abs_def] del: filter_concat)
qed

lemma analyze_reports:
  assumes "read_cpu_freq parse_float f1 = Inr freq" and "read_pid_file f2 analysis_start = Inr (pids, a0)"
    and "sorts_by_time srt" and "load_switch parse srt f3 = Inr swl" and "load_soft parse f4 = Inr sl"
    and "init_soft_container sl = Inr sm" and "distinct pids"
  shows "analyze parse_float parse srt f1 f2 f3 f4 = Some (Inr (freq, a)) \<Longrightarrow> waitForGraph a = report sm swl pids"
    and "swl \<noteq> [] \<Longrightarrow> \<forall>p \<in> set pids. exits_of p swl = [] \<Longrightarrow>
      \<exists>a. analyze parse_float parse srt f1 f2 f3 f4 = Some (Inr (freq, a))"
proof -
  note an = analyze_prepared [OF assms(1,2,4,5,6)] and sorted = load_switch_sorted [OF assms(3,4)]
  {
    assume "analyze parse_float parse srt f1 f2 f3 f4 = Some (Inr (freq, a))"
    then obtain a1 a2 where "prepared pids swl = Inr a1" "break_pids sm swl pids a1 = Inr a2"
      "cascade_pids (Suc 1) pids a2 = Some (Inr a)"
      by (auto simp: an res_bind_def numeral_2_eq_2 split: sum.splits option.splits)
    with run_reports [OF _ sorted assms(7)] show "waitForGraph a = report sm swl pids" by blast
  next
    assume "swl \<noteq> []" and alive: "\<forall>p \<in> set pids. exits_of p swl = []"
    then obtain a1 where a1: "prepared pids swl = Inr a1" by (auto simp: prepared_def init_prev_states_def)
    from break_and_cascade_alive [OF a1 sorted alive, of sm 1] a1
    show "\<exists>a. analyze parse_float parse srt f1 f2 f3 f4 = Some (Inr (freq, a))"
      by (auto simp: an numeral_2_eq_2)
  }
qed

section \<open>Properties\<close>

text \<open>
  The analyzer computes the report: whenever a run on processes that are listed once ends without a
  stop, the graph has exactly the edges of the report with its weights, and it ends so on every trace in
  which no listed process exits.
\<close>

theorem analysis_reports:
  assumes "read_cpu_freq parse_float f1 = Inr freq" and "read_pid_file f2 analysis_start = Inr (pids, a0)"
    and "sorts_by_time srt" and "load_switch parse srt f3 = Inr swl" and "load_soft parse f4 = Inr sl"
    and "init_soft_container sl = Inr sm" and "distinct pids"
  shows "(analyze parse_float parse srt f1 f2 f3 f4 = Some (Inr (freq, a)) \<longrightarrow> waitForGraph a = report sm swl pids) \<and>
    (swl \<noteq> [] \<and> (\<forall>p \<in> set pids. exits_of p swl = []) \<longrightarrow>
      (\<exists>a. analyze parse_float parse srt f1 f2 f3 f4 = Some (Inr (freq, a))))"
  using analyze_reports [OF assms] by blast

theorem analysis_reports_witness:
  "\<exists>a. analyze (\<lambda>_. Some ()) ex_parse (sort_key sw_time) (Some ''2.4'') (Some ''7'') (Some [NL]) (Some []) = Some (Inr ((), a)) \<and>
     waitForGraph a = report Map.empty [zero_switch\<lparr>sw_next_pid := 7\<rparr>] [7]"
proof -
  obtain a0 where pids: "read_pid_file (Some ''7'') analysis_start = Inr ([7], a0)" using ex_pid_file by blast
  have freq: "read_cpu_freq (\<lambda>_. Some ()) (Some ''2.4'') = Inr ()"
    by (simp add: read_cpu_freq_def go_split_def tokens_last)
  have sm: "init_soft_container [] = Inr Map.empty" by (simp add: init_soft_container_def)
  note run = analysis_reports [OF freq pids sorts_by_time_sort_key ex_load ex_load_soft sm]
  have "\<forall>p \<in> set [7]. exits_of p [zero_switch\<lparr>sw_next_pid := 7\<rparr>] = []" by (simp add: exits_of_def zero_switch_def)
  with run obtain a where
    "analyze (\<lambda>_. Some ()) ex_parse (sort_key sw_time) (Some ''2.4'') (Some ''7'') (Some [NL]) (Some []) = Some (Inr ((), a))"
    by auto
  with run [of a] show ?thesis by auto
qed

text \<open>The report of the example: process 8 waited for process 7 from 12 to 20.\<close>

lemma ex_wait_report:
  "report Map.empty ex_wait [7, 8] ''p8,p7,'' = Some 8" "report Map.empty ex_wait [7, 8] ''p7,p8,'' = None"
  by code_simp+

end
