(* ===== verification/GoOutcome.thy ===== *)
theory GoOutcome
  imports GoReport
begin

text \<open>
  How a run of the analyzer ends, exactly: which traces make it stop, with which stop, told from the
  events alone; on all others it ends with the report.
\<close>

section \<open>The verdict\<close>

text \<open>
  Whether the search for what a waker did up to \<open>etime\<close> runs past its last segment: neither the segment in place
  at the start nor a later one lasts until then, and none starts at or after it.
\<close>

definition overrun :: "u64 \<Rightarrow> u64 \<Rightarrow> segment list \<Rightarrow> bool" where
  "overrun etime stime ss \<longleftrightarrow> (case segment_at stime ss of None \<Rightarrow> False
     | Some s \<Rightarrow> sg_etime s < etime \<and>
         (\<forall>v \<in> set (surviving ss). sg_stime s < sg_stime v \<longrightarrow> sg_stime v < etime \<and> sg_etime v < etime))"

text \<open>A wait for a listed process that did not live, in the trace, to the end of the wait.\<close>

definition unanswered :: "soft_map \<Rightarrow> switch list \<Rightarrow> int list \<Rightarrow> segment \<Rightarrow> bool" where
  "unanswered sm swl pids w \<longleftrightarrow> sg_state w = BLOCKED \<and> sg_waitfor w \<in> set pids \<and>
     overrun (sg_etime w) (sg_stime w) (life sm swl (sg_waitfor w))"

text \<open>An exit with no segment to end there.\<close>

definition lost_exit :: "soft_map \<Rightarrow> switch list \<Rightarrow> int \<Rightarrow> bool" where
  "lost_exit sm swl p \<longleftrightarrow> exits_of p swl \<noteq> [] \<and>
     (let t0 = sw_time (last (exits_of p swl)) in
      segment_at t0 (snd (turns sm p swl \<lparr>ps_time = t0, ps_state = - 1\<rparr>)) = None)"

definition verdict :: "soft_map \<Rightarrow> switch list \<Rightarrow> int list \<Rightarrow> go_stop option" where
  "verdict sm swl pids =
     (if swl = [] then Some IndexOutOfRange
      else if \<exists>p \<in> set pids. lost_exit sm swl p then Some NilDereference
      else if \<exists>p \<in> set pids. \<exists>w \<in> set (surviving (life sm swl p)). unanswered sm swl pids w then Some NilConversion
      else None)"

section \<open>The search loop\<close>

definition runs_out :: "u64 \<Rightarrow> segment \<Rightarrow> segments \<Rightarrow> bool" where
  "runs_out etime s t \<longleftrightarrow> sg_etime s < etime \<and> (\<forall>e \<in> later t s. fst e < etime \<and> sg_etime (snd e) < etime)"

lemma seg_ceiling_least:
  assumes "store_ok pid te t" and "sg_stime s < x"
  shows "(seg_ceiling (sg_stime s + 1) t = Inl NilConversion \<and> later t s = {}) \<or>
    (\<exists>s'. seg_ceiling (sg_stime s + 1) t = Inr (sg_stime s', s') \<and> sg_stime s < sg_stime s' \<and>
       (sg_stime s', s') \<in> set (entries (root t)) \<and> later t s = insert (sg_stime s', s') (later t s'))"
  using seg_ceiling_next [OF assms]
proof (elim disjE exE conjE)
  fix k s'
  assume c: "seg_ceiling (sg_stime s + 1) t = Inr (k, s')" "(k, s') \<in> later t s" "k = sg_stime s'"
  then have least: "\<forall>e \<in> set (entries (root t)). sg_stime s < fst e \<longrightarrow> k \<le> fst e"
    using rb.ceiling_spec [of t "sg_stime s + 1" k s'] assms(1) inc_le_iff [OF assms(2)]
    by (auto simp: seg_ceiling_def store_ok_def split: option.splits)
  have "distinct (map fst (entries (root t)))"
    using assms(1) by (auto simp: store_ok_def rb_inv_def keys_ascend_def strict_sorted_iff)
  from eq_key_imp_eq_value [OF this] c(2) have "e = (k, s')" if "e \<in> later t s" "\<not> k < fst e" for e
    using that least by (cases e) (auto simp: later_def)
  then have "later t s = insert (k, s') (later t s')" using c(2,3) by (auto simp: later_def)
  with c show ?thesis by (auto simp: later_def)
qed simp

lemma waiting_loop_exact:
  assumes "store_ok pid te t" and "(sg_stime s, s) \<in> set (entries (root t))" and "te < - 1"
  shows "\<exists>r. waiting_loop t etime s acc = Some r \<and> (if runs_out etime s t then r = Inl NilConversion else ok r)"
  using assms(2)
proof (induction "card (later t s)" arbitrary: s acc rule: less_induct)
  case less
  let ?acc = "if sg_state s = BLOCKED then acc @ [s] else acc"
  show ?case
  proof (cases "etime \<le> sg_etime s")
    case True
    then show ?thesis by (subst waiting_loop.simps) (auto simp: runs_out_def)
  next
    case False
    have "sg_stime s \<le> te" using less.prems assms(1) by (auto simp: store_ok_def seg_typed_def)
    then have "sg_stime s < - 1" using assms(3) by (rule le_less_trans)
    from seg_ceiling_least [OF assms(1) this] show ?thesis
    proof (elim disjE exE conjE)
      assume "seg_ceiling (sg_stime s + 1) t = Inl NilConversion" "later t s = {}"
      with False show ?thesis by (subst waiting_loop.simps) (simp add: runs_out_def)
    next
      fix s'
      assume nxt: "seg_ceiling (sg_stime s + 1) t = Inr (sg_stime s', s')" "sg_stime s < sg_stime s'"
        "(sg_stime s', s') \<in> set (entries (root t))" "later t s = insert (sg_stime s', s') (later t s')"
      show ?thesis
      proof (cases "etime \<le> sg_stime s'")
        case True
        with nxt False show ?thesis by (subst waiting_loop.simps) (auto simp: runs_out_def)
      next
        case far: False
        have "later t s' \<subset> later t s" by (rule later_psubset [of "sg_stime s'"]) (simp_all add: nxt(4))
        then have "card (later t s') < card (later t s)" by (rule psubset_card_mono [OF finite_later])
        moreover have "waiting_loop t etime s acc = waiting_loop t etime s' ?acc"
          using nxt(1) False far by (subst waiting_loop.simps) simp
        moreover have "runs_out etime s t \<longleftrightarrow> runs_out etime s' t"
          using nxt(4) False far by (auto simp: runs_out_def)
        ultimately show ?thesis using less.hyps [OF _ nxt(3), of ?acc] by simp
      qed
    qed
  qed
qed

text \<open>A wait whose search stops the program.\<close>

definition stops :: "analysis \<Rightarrow> segment \<Rightarrow> bool" where
  "stops a w \<longleftrightarrow> sg_state w = BLOCKED \<and> (\<exists>t k s. segMap a (sg_waitfor w) = Some t \<and>
     seg_floor (sg_stime w) t = Some (k, s) \<and> runs_out (sg_etime w) s t)"

lemma stops_direct [simp]: "stops (direct v a) = stops a"
  by (simp add: stops_def fun_eq_iff)

lemma cascade_exact:
  assumes "calm te False a"
  shows "cascade (Suc n) w a = Some (if stops a w then Inl NilConversion else Inr (direct w a))"
proof (cases "sg_state w = BLOCKED")
  case True
  let ?a = "add_weight (sg_pid w) (sg_waitfor w) (sg_etime w) (sg_stime w) a"
  have "find_all_waiting_segments ?a (sg_waitfor w) (sg_etime w) (sg_stime w) =
      Some (if stops a w then Inl NilConversion else Inr [])"
  proof (cases "segMap a (sg_waitfor w)")
    case None
    then show ?thesis by (simp add: find_all_waiting_segments_def get_segments_def stops_def)
  next
    case t: (Some t)
    with assms have store: "store_ok (sg_waitfor w) te t" "te < - 1" by (auto simp: calm_def)
    show ?thesis
    proof (cases "seg_floor (sg_stime w) t")
      case None
      with t show ?thesis by (simp add: find_all_waiting_segments_def get_segments_def stops_def)
    next
      case (Some e)
      obtain k s where e: "e = (k, s)" by fastforce
      have "(k, s) \<in> set (entries (root t))"
        using rb.floor_spec [of t "sg_stime w" k s] store Some e by (auto simp: store_ok_def seg_floor_def)
      moreover from this store have "k = sg_stime s" by (force simp: store_ok_def)
      ultimately have "(sg_stime s, s) \<in> set (entries (root t))" by simp
      from waiting_loop_exact [OF store(1) this store(2), of "sg_etime w" "[]"] t Some e True show ?thesis
        by (auto simp: find_all_waiting_segments_def get_segments_def stops_def ok_def split: if_splits)
    qed
  qed
  with True show ?thesis by (simp add: Let_def direct_def)
qed (simp add: stops_def direct_def)

lemma calm_direct: "calm te b a \<Longrightarrow> calm te b (direct w a)"
  by (simp add: calm_def)

lemma cascade_segments_exact:
  "calm te False a \<Longrightarrow> cascade_segments (Suc n) ws a =
     Some (if \<exists>w \<in> set ws. stops a w then Inl NilConversion else Inr (foldl (\<lambda>a w. direct w a) a ws))"
  by (induction ws arbitrary: a) (simp_all add: cascade_exact calm_direct del: cascade.simps)

lemma cascade_pids_exact:
  "calm te False a \<Longrightarrow> \<forall>p \<in> set pids. segMap a p \<noteq> None \<Longrightarrow> \<exists>a'. cascade_pids (Suc n) pids a =
     Some (if \<exists>p \<in> set pids. \<exists>w \<in> set (segments_of a p). stops a w then Inl NilConversion else Inr a')"
proof (induction pids arbitrary: a)
  case (Cons p pids)
  then obtain t where t: "segMap a p = Some t" by auto
  let ?a = "foldl (\<lambda>a w. direct w a) a (segments_of a p)"
  have visit: "visit t At_begin [] = Some (entries (root t))" "segments_of a p = map snd (entries (root t))"
    using t Cons.prems(1) by (auto simp: calm_def store_ok_def visit_entries segments_of_def)
  have same: "stops ?a = stops a" "segments_of ?a = segments_of a"
    by (simp_all add: stops_def segments_of_def fun_eq_iff)
  have "calm te False ?a" "\<forall>p \<in> set pids. segMap ?a p \<noteq> None" using Cons.prems by (simp_all add: calm_def)
  from Cons.IH [OF this] obtain a' where
    "cascade_pids (Suc n) pids ?a =
       Some (if \<exists>p \<in> set pids. \<exists>w \<in> set (segments_of a p). stops a w then Inl NilConversion else Inr a')"
    unfolding same by blast
  with cascade_segments_exact [OF Cons.prems(1), of n "segments_of a p"] t visit show ?case
    by (simp add: get_segments_def)
qed simp

section \<open>Breaking up, exactly\<close>

lemma break_exact:
  assumes "segMap a pid = Some new_with" and "exitTimeList a pid =
      (if exits_of pid swl = [] then None else Some (sw_time (last (exits_of pid swl))))"
    and "get_prev_state a pid = \<lparr>ps_time = (case exitTimeList a pid of None \<Rightarrow> sw_time (last swl) | Some t \<Rightarrow> t),
      ps_state = - 1\<rparr>" and "swl \<noteq> []"
  shows "\<exists>t. break_into_segments sm swl a pid =
    (if lost_exit sm swl pid then Inl NilDereference else Inr (a\<lparr>segMap := (segMap a)(pid \<mapsto> t)\<rparr>))"
proof -
  let ?ps = "get_prev_state a pid"
  obtain ps1 ss where ss: "turns sm pid swl ?ps = (ps1, ss)" by fastforce
  obtain t where t: "rb_puts (keyed ss) new_with = Inr t" using rb_puts_ok [of "keyed ss"] by blast
  have put: "\<exists>t'. rb_put k s t = Inr t'" for k s
    using rb_put_ok [OF rb_puts_inv(1) [OF t], of k s] by blast
  have loop: "break_loop sm pid swl ?ps (Some new_with) = Inr (ps1, Some t)"
    using ss t by (simp add: break_loop_turns puts_def)
  note d = break_into_segments_def break_end_def get_segments_def has_exit_time_def Let_def seg_put_Some lost_exit_def
  show ?thesis
  proof (cases "exits_of pid swl = []")
    case True
    obtain t' where "rb_put (ps_time ?ps) (seg pid BLOCKED (ps_time ?ps) (sw_time (last swl)) (- go_UNKNOWN)) t = Inr t'"
      using put by blast
    with True assms loop show ?thesis by (auto simp: d)
  next
    case False
    let ?t0 = "sw_time (last (exits_of pid swl))"
    have "snd (turns sm pid swl \<lparr>ps_time = ?t0, ps_state = - 1\<rparr>) = ss" using ss assms(2,3) False by simp
    then have lost: "lost_exit sm swl pid \<longleftrightarrow> segment_at ?t0 ss = None" using False by (simp add: lost_exit_def Let_def)
    show ?thesis
    proof (cases "segment_at ?t0 ss")
      case None
      with lost False assms loop show ?thesis by (simp add: d floor_segment_at [OF t])
    next
      case (Some s)
      obtain t' where "rb_put (sg_stime s) (s\<lparr>sg_etime := ?t0\<rparr>) t = Inr t'" using put by blast
      with Some lost False assms loop show ?thesis by (auto simp: d floor_segment_at [OF t])
    qed
  qed
qed

lemma break_pids_exact:
  assumes "distinct ps" and "swl \<noteq> []" and "\<forall>p \<in> set ps. segMap a p = Some new_with \<and>
      exitTimeList a p = (if exits_of p swl = [] then None else Some (sw_time (last (exits_of p swl)))) \<and>
      get_prev_state a p = \<lparr>ps_time = (case exitTimeList a p of None \<Rightarrow> sw_time (last swl) | Some t \<Rightarrow> t), ps_state = - 1\<rparr>"
  shows "if \<exists>p \<in> set ps. lost_exit sm swl p then break_pids sm swl ps a = Inl NilDereference
    else ok (break_pids sm swl ps a)"
  using assms(1,3)
proof (induction ps arbitrary: a)
  case (Cons p ps)
  from break_exact [of a p swl sm] Cons.prems(2) assms(2) obtain t where
    t: "break_into_segments sm swl a p =
      (if lost_exit sm swl p then Inl NilDereference else Inr (a\<lparr>segMap := (segMap a)(p \<mapsto> t)\<rparr>))" by auto
  have "if \<exists>p \<in> set ps. lost_exit sm swl p then break_pids sm swl ps (a\<lparr>segMap := (segMap a)(p \<mapsto> t)\<rparr>) = Inl NilDereference
    else ok (break_pids sm swl ps (a\<lparr>segMap := (segMap a)(p \<mapsto> t)\<rparr>))"
    by (rule Cons.IH) (use Cons.prems in \<open>auto simp: get_prev_state_def\<close>)
  with t show ?case by auto
qed (simp add: ok_def)

text \<open>The searches over the containers are those over the lives.\<close>

lemma stops_unanswered:
  assumes "\<forall>p \<in> set pids. \<exists>t. segMap a p = Some t \<and> rb_puts (keyed (life sm swl p)) new_with = Inr t"
    and "\<And>p. p \<notin> set pids \<Longrightarrow> segMap a p = None"
  shows "stops a w \<longleftrightarrow> unanswered sm swl pids w"
proof (cases "sg_waitfor w \<in> set pids")
  case True
  let ?l = "life sm swl (sg_waitfor w)"
  obtain t where t: "segMap a (sg_waitfor w) = Some t" "rb_puts (keyed ?l) new_with = Inr t"
    using assms(1) True by blast
  have "set (entries (root t)) = set (keyed (surviving ?l))"
    using container_entries [OF t(2)] by (metis set_mset_mset)
  then have "runs_out etime s t \<longleftrightarrow> sg_etime s < etime \<and>
      (\<forall>v \<in> set (surviving ?l). sg_stime s < sg_stime v \<longrightarrow> sg_stime v < etime \<and> sg_etime v < etime)" for etime s
    by (auto simp: runs_out_def later_def keyed_def)
  with t True show ?thesis
    by (auto simp: stops_def unanswered_def overrun_def floor_segment_at [OF t(2)] split: option.splits)
qed (use assms(2) in \<open>simp add: stops_def unanswered_def\<close>)

lemma cascade_outcome:
  assumes "prepared pids swl = Inr a" and "sorted (map sw_time swl)" and "distinct pids" and "\<forall>v \<in> set swl. sw_time v < - 1"
    and "break_pids sm swl pids a = Inr a'"
  shows "\<exists>r. cascade_pids 2 pids a' = Some r \<and>
    (r = Inl NilConversion \<longleftrightarrow> (\<exists>p \<in> set pids. \<exists>w \<in> set (surviving (life sm swl p)). unanswered sm swl pids w)) \<and>
    (r \<noteq> Inl NilConversion \<longrightarrow> ok r)"
proof -
  let ?te = "sw_time (last swl)"
  note p = prepared_facts [OF assms(1)] and te = sorted_last [OF assms(2)]
  have start: "\<forall>p \<in> set pids. segMap a p = Some new_with \<and>
      exitTimeList a p = (if exits_of p swl = [] then None else Some (sw_time (last (exits_of p swl)))) \<and>
      get_prev_state a p = \<lparr>ps_time = (case exitTimeList a p of None \<Rightarrow> ?te | Some t \<Rightarrow> t), ps_state = - 1\<rparr>"
    by (simp add: p(2-4))
  note lives = break_pids_lives [OF assms(5,3) start]
  have outside: "segMap a' q = None" if "q \<notin> set pids" for q
    using break_pids_frame [OF assms(5)] that p(2) by simp
  note ready = break_pids_ready [OF assms(5) prepared_ready [OF assms(1) te] subset_refl p(1) te]
  have "?te < - 1" using assms(4) p(1) by simp
  with ready have "calm ?te False a'" by (simp add: calm_def ready_def)
  from cascade_pids_exact [OF this, of pids 1] lives obtain a'' where
    "cascade_pids 2 pids a' = Some (if \<exists>p \<in> set pids. \<exists>w \<in> set (segments_of a' p). stops a' w then Inl NilConversion else Inr a'')"
    by (auto simp: numeral_2_eq_2)
  moreover have "set (segments_of a' q) = set (surviving (life sm swl q))" if "q \<in> set pids" for q
    using lives that container_segments by (fastforce simp: segments_of_def dest: mset_eq_setD)
  ultimately show ?thesis
    by (auto simp: stops_unanswered [OF lives outside] ok_def)
qed

section \<open>Properties\<close>

text \<open>
  C5: The outcome of the analyzer, exactly: on files that can be read, with processes that are listed once and a
  trace without the last of all 64-bit times, it stops if and only if the trace is empty, or a listed process exits
  before the first of its segments, or a listed process waits for one that is listed and of which no segment reaches the
  end of the wait; otherwise it ends with the report as its graph.
\<close>

theorem analysis_outcome:
  assumes "read_cpu_freq parse_float f1 = Inr freq" and "read_pid_file f2 analysis_start = Inr (pids, a0)"
    and "sorts_by_time srt" and "load_switch parse srt f3 = Inr swl" and "load_soft parse f4 = Inr sl"
    and "init_soft_container sl = Inr sm" and "distinct pids" and "\<forall>v \<in> set swl. sw_time v < - 1"
  shows "case verdict sm swl pids of
      Some e \<Rightarrow> analyze parse_float parse srt f1 f2 f3 f4 = Some (Inl e)
    | None \<Rightarrow> \<exists>a. analyze parse_float parse srt f1 f2 f3 f4 = Some (Inr (freq, a)) \<and> waitForGraph a = report sm swl pids"
proof -
  note an = analyze_prepared [OF assms(1,2,4-6)] and sorted = load_switch_sorted [OF assms(3,4)]
  note reports = analyze_reports(1) [OF assms(1-7)]
  show ?thesis
  proof (cases "swl = []")
    case True
    then show ?thesis by (simp add: an verdict_def prepared_def init_prev_states_def)
  next
    case ne: False
    then obtain a1 where a1: "prepared pids swl = Inr a1" by (auto simp: prepared_def init_prev_states_def)
    note p = prepared_facts [OF a1]
    have start: "\<forall>p \<in> set pids. segMap a1 p = Some new_with \<and>
        exitTimeList a1 p = (if exits_of p swl = [] then None else Some (sw_time (last (exits_of p swl)))) \<and>
        get_prev_state a1 p = \<lparr>ps_time = (case exitTimeList a1 p of None \<Rightarrow> sw_time (last swl) | Some t \<Rightarrow> t), ps_state = - 1\<rparr>"
      by (simp add: p(2-4))
    note broken = break_pids_exact [OF assms(7) ne start, of sm]
    show ?thesis
    proof (cases "\<exists>p \<in> set pids. lost_exit sm swl p")
      case True
      with broken ne a1 show ?thesis by (simp add: an verdict_def)
    next
      case False
      with broken obtain a2 where a2: "break_pids sm swl pids a1 = Inr a2" by (auto simp: ok_def)
      obtain r where r: "cascade_pids 2 pids a2 = Some r"
        "r = Inl NilConversion \<longleftrightarrow> (\<exists>p \<in> set pids. \<exists>w \<in> set (surviving (life sm swl p)). unanswered sm swl pids w)"
        "r \<noteq> Inl NilConversion \<longrightarrow> ok r"
        using cascade_outcome [OF a1 sorted assms(7,8) a2] by blast
      with a1 a2 ne False reports show ?thesis
        by (auto simp: an verdict_def ok_def split: sum.splits)
    qed
  qed
qed

lemma ex_verdicts:
  "verdict Map.empty [zero_switch\<lparr>sw_next_pid := 7\<rparr>] [7] = None" "verdict Map.empty ex_wait [7, 8] = None"
  "verdict Map.empty late_wake [7, 8] = Some NilConversion"
  by code_simp+

theorem analysis_outcome_witness:
  "\<exists>a. analyze (\<lambda>_. Some ()) ex_parse (sort_key sw_time) (Some ''2.4'') (Some ''7'') (Some [NL]) (Some []) = Some (Inr ((), a)) \<and>
     waitForGraph a = report Map.empty [zero_switch\<lparr>sw_next_pid := 7\<rparr>] [7]"
proof -
  obtain a0 where pids: "read_pid_file (Some ''7'') analysis_start = Inr ([7], a0)" using ex_pid_file by blast
  have freq: "read_cpu_freq (\<lambda>_. Some ()) (Some ''2.4'') = Inr ()"
    by (simp add: read_cpu_freq_def go_split_def tokens_last)
  have sm: "init_soft_container [] = Inr Map.empty" by (simp add: init_soft_container_def)
  have "distinct [7 :: int]" "\<forall>v \<in> set [zero_switch\<lparr>sw_next_pid := 7\<rparr>]. sw_time v < - 1" by (simp_all add: zero_switch_def less_le)
  from analysis_outcome [OF freq pids sorts_by_time_sort_key ex_load ex_load_soft sm this] show ?thesis
    by (simp add: ex_verdicts)
qed

end
