(* ===== verification/Encorder.thy ===== *)
theory Encorder
  imports GoLib
begin

text \<open>
  scripts/encorder.py: each line of a trace is cut into the fields the kernel prints in front of an event
  and the fields of the event, and written as one JSON object. \<open>None\<close> is an exception, which makes the
  script report the line and leave it out. The text of a JSON object is made by an argument.
\<close>

section \<open>Functions of the Python library\<close>

definition py_space :: "char \<Rightarrow> bool" where
  "py_space c \<longleftrightarrow> c \<in> {CHR '' '', CHR 0x09, CHR 0x0A, CHR 0x0B, CHR 0x0C, CHR 0x0D}"

text \<open>\<open>s.split()\<close>: the words between white space.\<close>

function py_words :: "string \<Rightarrow> string list" where
  "py_words s = (case dropWhile py_space s of [] \<Rightarrow> []
     | c # t \<Rightarrow> (c # takeWhile (\<lambda>x. \<not> py_space x) t) # py_words (dropWhile (\<lambda>x. \<not> py_space x) t))"
  by pat_completeness auto
termination
proof (relation "measure length")
  fix s c t
  assume "dropWhile py_space s = c # t"
  then have "length (c # t) \<le> length s" by (metis length_dropWhile_le)
  with length_dropWhile_le [of "\<lambda>x. \<not> py_space x" t]
  show "(dropWhile (\<lambda>x. \<not> py_space x) t, s) \<in> measure length" by simp
qed simp

declare py_words.simps [simp del]

text \<open>\<open>s.split(c)\<close>, \<open>c.join(ss)\<close>.\<close>

definition py_split :: "char \<Rightarrow> string \<Rightarrow> string list" where
  "py_split c s = tokens c (Some s)"

text \<open>The cut of \<open>s.rsplit(sep, 1)\<close>: at the last place where the separator stands.\<close>

fun cut_last :: "string \<Rightarrow> string \<Rightarrow> (string \<times> string) option" where
  "cut_last sep [] = None"
| "cut_last sep (c # s) = (case cut_last sep s of
     Some (a, b) \<Rightarrow> Some (c # a, b)
   | None \<Rightarrow> if take (length sep) (c # s) = sep then Some ([], drop (length sep) (c # s)) else None)"

definition py_rsplit2 :: "string \<Rightarrow> string \<Rightarrow> (string \<times> string \<times> string) option" where
  "py_rsplit2 sep s = (case cut_last sep s of None \<Rightarrow> None
     | Some (ab, c) \<Rightarrow> (case cut_last sep ab of None \<Rightarrow> None | Some (a, b) \<Rightarrow> Some (a, b, c)))"

text \<open>\<open>s.strip(c)\<close> of one character, \<open>s.replace(c, "")\<close>, \<open>int(s)\<close>.\<close>

definition py_strip :: "char \<Rightarrow> string \<Rightarrow> string" where
  "py_strip c s = rev (dropWhile (\<lambda>x. x = c) (rev (dropWhile (\<lambda>x. x = c) s)))"

definition py_remove :: "char \<Rightarrow> string \<Rightarrow> string" where
  "py_remove c s = filter (\<lambda>x. x \<noteq> c) s"

definition py_int :: "string \<Rightarrow> int option" where
  "py_int s = (case s of [] \<Rightarrow> None
     | c # t \<Rightarrow>
         if c = CHR ''-'' then (if all_digits t then Some (- int (read_nat t)) else None)
         else if c = CHR ''+'' then (if all_digits t then Some (int (read_nat t)) else None)
         else if all_digits s then Some (int (read_nat s)) else None)"

text \<open>A dictionary, as the list of its items in the order they came first.\<close>

fun dict_set :: "string \<Rightarrow> jval \<Rightarrow> members \<Rightarrow> members" where
  "dict_set k v [] = [(k, v)]"
| "dict_set k v ((k', v') # d) = (if k = k' then (k, v) # d else (k', v') # dict_set k v d)"

section \<open>The script\<close>

text \<open>The fields of the data: blanks removed, then a key and a value around one equals sign.\<close>

fun data_fields :: "string list \<Rightarrow> members \<Rightarrow> members option" where
  "data_fields [] d = Some d"
| "data_fields (f # fs) d = (case py_split CHR ''='' (py_remove CHR '' '' f) of
     [k, v] \<Rightarrow> data_fields fs (dict_set k (JStr v) d)
   | _ \<Rightarrow> None)"

definition encode_head :: "string \<Rightarrow> members option" where
  "encode_head comm = (case py_split CHR '' '' (join CHR '' '' (py_words comm)) of
     [task_pid, cpu, sched, timestamp] \<Rightarrow>
       (case cut_last ''-'' task_pid of None \<Rightarrow> None
        | Some (task, pid) \<Rightarrow> (case py_int (py_strip CHR '']'' (py_strip CHR ''['' cpu)) of None \<Rightarrow> None
        | Some n \<Rightarrow>
            if length sched < 4 then None
            else Some [(''comm'', JStr task), (''pid'', JStr pid), (''cpu'', JNum (show_int n)),
              (''irqs_off'', JStr [sched ! 0]), (''need_resched'', JStr [sched ! 1]), (''ctx'', JStr [sched ! 2]),
              (''preempt_depth'', JStr [sched ! 3]), (''timestamp'', JStr timestamp)]))
   | _ \<Rightarrow> None)"

definition encode_line :: "string \<Rightarrow> members option" where
  "encode_line line = (case py_rsplit2 '': '' line of None \<Rightarrow> None
     | Some (comm, event, data) \<Rightarrow> (case encode_head comm of None \<Rightarrow> None
         | Some d \<Rightarrow> data_fields (py_split CHR '','' (py_strip NL data)) d))"

text \<open>\<open>encode\<close> and \<open>output\<close>: an object for each good line, each with a newline.\<close>

definition encode :: "(members \<Rightarrow> string option) \<Rightarrow> string list \<Rightarrow> string list" where
  "encode dumps lines = List.map_filter (\<lambda>l. case encode_line l of None \<Rightarrow> None | Some d \<Rightarrow> dumps d) lines"

definition encode_output :: "string list \<Rightarrow> string" where
  "encode_output objs = concat (map (\<lambda>s. s @ [NL]) objs)"

text \<open>\<open>load\<close>: the lines of the input, each with its newline, are encoded and written.\<close>

fun py_readlines :: "string \<Rightarrow> string list" where
  "py_readlines [] = []"
| "py_readlines (c # s) =
     (if c = NL then [NL] # py_readlines s
      else case py_readlines s of [] \<Rightarrow> [[c]] | l # ls \<Rightarrow> (c # l) # ls)"

definition load_encode :: "(members \<Rightarrow> string option) \<Rightarrow> string \<Rightarrow> string" where
  "load_encode dumps content = encode_output (encode dumps (py_readlines content))"

lemma py_readlines_line: "NL \<notin> set l \<Longrightarrow> py_readlines (l @ NL # s) = (l @ [NL]) # py_readlines s"
  by (induction l) auto

lemma py_readlines_concat:
  "\<forall>l \<in> set ls. \<exists>b. l = b @ [NL] \<and> NL \<notin> set b \<Longrightarrow> py_readlines (concat ls) = ls"
proof (induction ls)
  case (Cons l ls)
  then obtain b where "l = b @ [NL]" "NL \<notin> set b" by auto
  with Cons show ?case by (simp add: py_readlines_line)
qed simp

end
