(* ===== verification/Pipeline.thy ===== *)
theory Pipeline
  imports TraceEvents Encorder GoEvents
begin

text \<open>
  The way of a record from the module to the analyzer: the line the tracepoint prints, with what ftrace
  puts in front of it, is encoded by scripts/encorder.py and read back by \<open>LoadSwitch\<close> or \<open>LoadSoft\<close>.
\<close>

section \<open>The Python functions on printed lines\<close>

lemma contains2_append:
  "contains (s @ t) [x, y] \<longleftrightarrow> contains s [x, y] \<or> contains t [x, y] \<or>
     (s \<noteq> [] \<and> t \<noteq> [] \<and> last s = x \<and> hd t = y)"
proof (induction s)
  case (Cons c s)
  then show ?case by (cases s; cases t) auto
qed simp

lemma contains2_notin: "x \<notin> set s \<Longrightarrow> \<not> contains s [x, y]"
  by (induction s) auto

lemma cut_last_None: "\<not> contains s sep \<Longrightarrow> cut_last sep s = None"
  by (induction s) auto

lemma cut_last2:
  assumes "\<not> contains b [x, y]" and "x \<noteq> y"
  shows "cut_last [x, y] (a @ x # y # b) = Some (a, b)"
proof (induction a)
  case Nil
  have "\<not> contains (y # b) [x, y]" using assms by simp
  then have "cut_last [x, y] (y # b) = None" by (rule cut_last_None)
  then show ?case by simp
qed simp

lemma cut_last1: "x \<notin> set b \<Longrightarrow> cut_last [x] (a @ x # b) = Some (a, b)"
proof (induction a)
  case Nil
  then have "\<not> contains b [x]" by (induction b) auto
  then show ?case by (simp add: cut_last_None)
qed simp

lemma py_words_spaceless: "w \<in> set (py_words s) \<Longrightarrow> c \<in> set w \<Longrightarrow> \<not> py_space c"
proof (induction s rule: py_words.induct)
  case (1 s)
  show ?case
  proof (cases "dropWhile py_space s")
    case Nil
    with "1.prems" show ?thesis by (simp add: py_words.simps [of s])
  next
    case (Cons d t)
    then have "\<not> py_space d" by (metis dropWhile_eq_Cons_conv)
    with Cons "1" show ?thesis
      by (auto simp: py_words.simps [of s] dest: set_takeWhileD)
  qed
qed

lemma dropWhile_hd: "s = [] \<or> \<not> P (hd s) \<Longrightarrow> dropWhile P s = s"
  by (cases s) auto

lemma py_strip_Cons: "py_strip c (c # s) = py_strip c s"
  by (simp add: py_strip_def)

lemma py_strip_same: "s \<noteq> [] \<Longrightarrow> hd s \<noteq> c \<Longrightarrow> last s \<noteq> c \<Longrightarrow> py_strip c s = s"
  by (simp add: py_strip_def dropWhile_hd hd_rev)

lemma py_strip_snoc: "s \<noteq> [] \<Longrightarrow> hd s \<noteq> c \<Longrightarrow> py_strip c (s @ [c]) = py_strip c s"
  by (simp add: py_strip_def dropWhile_hd)

lemma py_strip_brackets:
  assumes "all_digits ds"
  shows "py_strip CHR '']'' (py_strip CHR ''['' (''['' @ ds @ '']'')) = ds"
proof -
  from assms have ds: "ds \<noteq> []" "is_digit (hd ds)" "is_digit (last ds)" by (auto simp: all_digits_def list_all_iff)
  then have "hd ds \<noteq> CHR ''[''" "hd ds \<noteq> CHR '']''" "last ds \<noteq> CHR '']''" by (auto simp: is_digit_def)
  with ds(1) show ?thesis by (simp add: py_strip_Cons py_strip_same py_strip_snoc)
qed

lemma py_int_digits: "all_digits ds \<Longrightarrow> py_int ds = Some (int (read_nat ds))"
  by (cases ds) (auto simp: py_int_def all_digits_def is_digit_def)

section \<open>What stands in front of a record\<close>

text \<open>
  The words ftrace prints when the name of the task has no white space inside or at its end: the task with its number behind the last
  hyphen, the CPU in brackets, at least four flags, and the time. LineFate says what becomes of the others.
\<close>

definition ftrace_head :: "string \<Rightarrow> string \<Rightarrow> bool" where
  "ftrace_head digits head \<longleftrightarrow> all_digits digits \<and> (\<exists>task pid flags ts. CHR ''-'' \<notin> set pid \<and> 4 \<le> length flags \<and>
     py_words head = [task @ CHR ''-'' # pid, ''['' @ digits @ '']'', flags, ts])"

definition ftrace_line :: "string \<Rightarrow> string \<Rightarrow> string \<Rightarrow> string" where
  "ftrace_line head event data = head @ '': '' @ event @ '': '' @ data @ [NL]"

text \<open>The members the head becomes; only that of the CPU is a field of the analyzer's records.\<close>

definition head_members :: "string \<Rightarrow> members \<Rightarrow> bool" where
  "head_members digits d \<longleftrightarrow> (\<exists>a b e f g h i. d = [(''comm'', JStr a), (''pid'', JStr b),
     (''cpu'', JNum (show_int (int (read_nat digits)))), (''irqs_off'', JStr e), (''need_resched'', JStr f),
     (''ctx'', JStr g), (''preempt_depth'', JStr h), (''timestamp'', JStr i)])"

lemma encode_head_members:
  assumes "ftrace_head digits head"
  shows "\<exists>d. encode_head head = Some d \<and> head_members digits d"
proof -
  obtain task pid flags ts where h: "all_digits digits" "CHR ''-'' \<notin> set pid" "4 \<le> length flags"
    "py_words head = [task @ CHR ''-'' # pid, ''['' @ digits @ '']'', flags, ts]"
    using assms by (auto simp: ftrace_head_def)
  have "\<forall>w \<in> set (py_words head). CHR '' '' \<notin> set w"
    using py_words_spaceless by (fastforce simp: py_space_def)
  then have "py_split CHR '' '' (join CHR '' '' (py_words head)) = py_words head"
    unfolding py_split_def by (intro tokens_join) (simp_all add: h(4))
  moreover have "cut_last ''-'' (task @ CHR ''-'' # pid) = Some (task, pid)"
    by (rule cut_last1 [OF h(2)])
  moreover have "py_int (py_strip CHR '']'' (py_strip CHR ''['' (''['' @ digits @ '']''))) = Some (int (read_nat digits))"
    by (simp only: py_strip_brackets [OF h(1)] py_int_digits [OF h(1)])
  ultimately show ?thesis
    using h(3) by (simp add: encode_head_def h(4) head_members_def)
qed

lemma encode_line_ftrace:
  assumes "ftrace_head digits head" and "\<not> contains event '': ''" and "\<not> contains data '': ''"
    and "data \<noteq> []" and "hd data \<noteq> NL" and "last data \<noteq> NL"
  shows "\<exists>d. encode_line (ftrace_line head event data) = data_fields (py_split CHR '','' data) d \<and> head_members digits d"
proof -
  obtain d where d: "encode_head head = Some d" "head_members digits d"
    using encode_head_members [OF assms(1)] by blast
  have "\<not> contains (data @ [NL]) '': ''" using assms(3) by (simp add: contains2_append)
  from cut_last2 [OF this, of "head @ '': '' @ event"] cut_last2 [OF assms(2), of head]
  have "py_rsplit2 '': '' (ftrace_line head event data) = Some (head, event, data @ [NL])"
    by (simp add: py_rsplit2_def ftrace_line_def)
  moreover have "py_strip NL (data @ [NL]) = data"
    using assms(4-6) by (simp add: py_strip_snoc py_strip_same)
  ultimately show ?thesis using d by (auto simp: encode_line_def)
qed

section \<open>The fields of the data\<close>

definition is_item :: "string \<Rightarrow> string \<times> string \<Rightarrow> bool" where
  "is_item f kv \<longleftrightarrow> py_split CHR ''='' (py_remove CHR '' '' f) = [fst kv, snd kv]"

lemma data_fields_items:
  "list_all2 is_item fs kvs \<Longrightarrow> data_fields fs d = Some (foldl (\<lambda>d kv. dict_set (fst kv) (JStr (snd kv)) d) d kvs)"
  by (induction fs kvs arbitrary: d rule: list_all2_induct) (simp_all add: is_item_def)

lemma py_remove_simps [simp]:
  "py_remove c [] = []" "py_remove c (s @ t) = py_remove c s @ py_remove c t"
  "py_remove c (x # s) = (if x = c then py_remove c s else x # py_remove c s)"
  by (simp_all add: py_remove_def)

lemma py_remove_notin [simp]: "c \<notin> set s \<Longrightarrow> py_remove c s = s"
  by (induction s) auto

lemma py_remove_replicate [simp]: "py_remove c (replicate n c) = []"
  by (induction n) auto

lemma set_py_remove [simp]: "set (py_remove c s) = set s - {c}"
  by (auto simp: py_remove_def)

lemma is_item_field:
  assumes "CHR '' '' \<notin> set k" and "CHR ''='' \<notin> set k" and "CHR ''='' \<notin> set v"
    and "v' = py_remove CHR '' '' v"
  shows "is_item (replicate n CHR '' '' @ k @ CHR ''='' # v) (k, v')"
proof -
  have "py_remove CHR '' '' (replicate n CHR '' '' @ k @ CHR ''='' # v) = k @ CHR ''='' # py_remove CHR '' '' v"
    using assms(1) by simp
  then show ?thesis
    using assms(2,3) by (simp only: is_item_def py_split_def assms(4)) (simp add: tokens_cons tokens_last)
qed

lemmas is_item_plain = is_item_field [of _ _ _ 0, unfolded replicate.simps append.simps]
lemmas is_item_blank = is_item_field [of _ _ _ "Suc 0", unfolded replicate.simps append.simps]
lemmas is_item_blanks = is_item_field [of _ _ _ "Suc (Suc 0)", unfolded replicate.simps append.simps]

lemma number_chars [simp]:
  "CHR ''='' \<notin> set (show_int i)" "CHR '' '' \<notin> set (show_int i)" "CHR '':'' \<notin> set (show_int i)" "NL \<notin> set (show_int i)"
  "CHR ''='' \<notin> set (fmt_ld w)" "CHR '' '' \<notin> set (fmt_ld w)" "CHR '':'' \<notin> set (fmt_ld w)" "NL \<notin> set (fmt_ld w)"
  "CHR ''='' \<notin> set (fmt_llu w)" "CHR '' '' \<notin> set (fmt_llu w)" "CHR '':'' \<notin> set (fmt_llu w)" "NL \<notin> set (fmt_llu w)"
  by (simp_all add: fmt_ld_def fmt_llu_def is_digit_def show_int_notin show_nat_notin)

text \<open>A command name that can pass: no comma, no equals sign, and no colon followed by a blank.\<close>

definition passes :: "string \<Rightarrow> bool" where
  "passes s \<longleftrightarrow> CHR '','' \<notin> set s \<and> CHR ''='' \<notin> set s \<and> \<not> contains s '': ''"

definition sched_items :: "sched_entry \<Rightarrow> (string \<times> string) list" where
  "sched_items e =
     [(''type'', show_int (e_type e)), (''tsc'', fmt_llu (e_tsc e)),
      (''prev_comm'', py_remove CHR '' '' (cstr (e_prev_comm e))), (''next_comm'', py_remove CHR '' '' (cstr (e_next_comm e))),
      (''prev_pid'', show_int (e_prev_pid e)), (''next_pid'', show_int (e_next_pid e)),
      (''prev_state'', fmt_ld (e_prev_state e)), (''next_state'', fmt_ld (e_next_state e)),
      (''in_which_ctx'', show_int (e_ctx e))]"

definition names_pass :: "sched_entry \<Rightarrow> bool" where
  "names_pass e \<longleftrightarrow> passes (cstr (e_prev_comm e)) \<and> passes (cstr (e_next_comm e))"

text \<open>The lines of the four scheduling events.\<close>

definition sched_line :: "sched_entry \<Rightarrow> string set" where
  "sched_line e = {print_switch_to e, print_try_to_wake_up e, print_wake_up_new_task e, print_do_exit e}"

lemma sched_fields_items:
  assumes "names_pass e"
  shows "list_all2 is_item (sched_fields e) (sched_items e)"
    and "list_all2 is_item ((sched_fields e)[4 := CHR '' '' # sched_fields e ! 4]) (sched_items e)"
proof -
  have comm: "CHR ''='' \<notin> set (cstr (e_prev_comm e))" "CHR ''='' \<notin> set (cstr (e_next_comm e))"
    using assms by (simp_all add: names_pass_def passes_def)
  note item = is_item_plain [of "''type''"] is_item_blank [of "''tsc''"] is_item_blank [of "''prev_comm''"]
    is_item_blank [of "''next_comm''"] is_item_blank [of "''prev_pid''"] is_item_blank [of "''next_pid''"]
    is_item_blank [of "''prev_state''"] is_item_blank [of "''next_state''"] is_item_blank [of "''in_which_ctx''"]
    is_item_blanks [of "''prev_pid''"]
  note item' = item [unfolded append.simps]
  show "list_all2 is_item (sched_fields e) (sched_items e)"
    by (simp add: sched_fields_def sched_items_def item' comm)
  show "list_all2 is_item ((sched_fields e)[4 := CHR '' '' # sched_fields e ! 4]) (sched_items e)"
    by (simp add: sched_fields_def sched_items_def item' comm numeral_eq_Suc)
qed

lemma print_parts:
  assumes "names_pass e" and "data \<in> sched_line e"
  shows "list_all2 is_item (py_split CHR '','' data) (sched_items e)"
proof -
  have "CHR '','' \<notin> set (cstr (e_prev_comm e))" "CHR '','' \<notin> set (cstr (e_next_comm e))"
    using assms(1) by (simp_all add: names_pass_def passes_def)
  note t = print_tokens [OF this] and i = sched_fields_items [OF assms(1)]
  have "print_try_to_wake_up e = print_switch_to e" "print_wake_up_new_task e = print_switch_to e"
    by (simp_all add: print_try_to_wake_up_def print_wake_up_new_task_def print_switch_to_def)
  with assms(2) t i show ?thesis by (auto simp: sched_line_def py_split_def)
qed

lemma contains2_skip: "x \<notin> set s \<Longrightarrow> contains (s @ t) [x, y] \<longleftrightarrow> contains t [x, y]"
  by (auto simp: contains2_append contains2_notin)

lemma contains2_skip_name:
  "\<not> contains s [x, y] \<Longrightarrow> c \<noteq> y \<Longrightarrow> contains (s @ c # t) [x, y] \<longleftrightarrow> contains (c # t) [x, y]"
  by (simp add: contains2_append)

lemma show_int_not_Nil [simp]: "show_int i \<noteq> []"
  by (simp add: show_int_def)

lemma last_show_int: "last (show_int i) \<noteq> NL"
  by (metis last_in_set number_chars(4) show_int_not_Nil)

lemma print_clean:
  assumes "names_pass e" and "data \<in> sched_line e"
  shows "\<not> contains data '': ''" and "data \<noteq> [] \<and> hd data \<noteq> NL \<and> last data \<noteq> NL"
proof -
  have comm: "\<not> contains (cstr (e_prev_comm e)) '': ''" "\<not> contains (cstr (e_next_comm e)) '': ''"
    using assms(1) by (simp_all add: names_pass_def passes_def)
  note p = print_try_to_wake_up_def print_wake_up_new_task_def print_switch_to_def print_do_exit_def sched_fields_def
  have "\<not> contains (print_switch_to e) '': ''" "\<not> contains (print_do_exit e) '': ''"
    using comm by (simp_all add: p numeral_eq_Suc contains2_skip contains2_skip_name contains2_notin)
  moreover have "print_try_to_wake_up e = print_switch_to e" "print_wake_up_new_task e = print_switch_to e"
    by (simp_all add: p)
  ultimately show "\<not> contains data '': ''" using assms(2) by (auto simp: sched_line_def)
  have "print_switch_to e \<noteq> [] \<and> hd (print_switch_to e) \<noteq> NL \<and> last (print_switch_to e) \<noteq> NL"
    "print_do_exit e \<noteq> [] \<and> hd (print_do_exit e) \<noteq> NL \<and> last (print_do_exit e) \<noteq> NL"
    by (simp_all add: p numeral_eq_Suc last_show_int)
  with assms(2) show "data \<noteq> [] \<and> hd data \<noteq> NL \<and> last data \<noteq> NL"
    by (auto simp: sched_line_def p)
qed

section \<open>Reading the object back\<close>

text \<open>What \<open>LoadSwitch\<close> is to make of a record.\<close>

definition switch_of :: "int \<Rightarrow> sched_entry \<Rightarrow> switch" where
  "switch_of cpu e = \<lparr>sw_cpu = cpu, sw_time = e_tsc e, sw_type = e_type e, sw_prev_pid = e_prev_pid e,
     sw_next_pid = e_next_pid e, sw_prev_state = e_prev_state e, sw_next_state = e_next_state e,
     sw_prev_comm = py_remove CHR '' '' (cstr (e_prev_comm e)), sw_next_comm = py_remove CHR '' '' (cstr (e_next_comm e)),
     sw_in_which_ctx = e_ctx e\<rparr>"

definition int64 :: "int \<Rightarrow> bool" where
  "int64 i \<longleftrightarrow> - (2 ^ 63) \<le> i \<and> i < 2 ^ 63"

text \<open>The numbers of a record that fit the analyzer's fields.\<close>

definition numbers_fit :: "sched_entry \<Rightarrow> bool" where
  "numbers_fit e \<longleftrightarrow> int64 (e_type e) \<and> int64 (e_prev_pid e) \<and> int64 (e_next_pid e) \<and> int64 (e_ctx e) \<and>
     0 \<le> sint (e_prev_state e) \<and> 0 \<le> sint (e_next_state e)"

lemma dict_set_new: "k \<notin> fst ` set d \<Longrightarrow> dict_set k v d = d @ [(k, v)]"
  by (induction k v d rule: dict_set.induct) auto

lemma store_members_append:
  "store_members f (d @ d') x = (case store_members f d x of None \<Rightarrow> None | Some y \<Rightarrow> store_members f d' y)"
  by (induction f d x rule: store_members.induct) (simp_all split: option.split)

lemma dict_fold:
  "distinct (map fst kvs) \<Longrightarrow> set (map fst kvs) \<inter> set (map fst d) = {} \<Longrightarrow>
   foldl (\<lambda>d kv. dict_set (fst kv) (JStr (snd kv)) d) d kvs = d @ map (\<lambda>kv. (fst kv, JStr (snd kv))) kvs"
proof (induction kvs arbitrary: d)
  case (Cons kv kvs)
  then have "dict_set (fst kv) (JStr (snd kv)) d = d @ [(fst kv, JStr (snd kv))]" by (intro dict_set_new) auto
  moreover have "set (map fst kvs) \<inter> set (map fst (d @ [(fst kv, JStr (snd kv))])) = {}"
    using Cons.prems by auto
  ultimately show ?case using Cons.IH Cons.prems(1) by simp
qed simp

definition head_keys :: "string list" where
  "head_keys = [''comm'', ''pid'', ''cpu'', ''irqs_off'', ''need_resched'', ''ctx'', ''preempt_depth'', ''timestamp'']"

lemma head_members_keys: "head_members digits d \<Longrightarrow> map fst d = head_keys"
  by (auto simp: head_members_def head_keys_def)

lemma sched_dict:
  assumes "head_members digits d"
  shows "foldl (\<lambda>d kv. dict_set (fst kv) (JStr (snd kv)) d) d (sched_items e) =
    d @ map (\<lambda>kv. (fst kv, JStr (snd kv))) (sched_items e)"
proof -
  have keys: "map fst (sched_items e) = [''type'', ''tsc'', ''prev_comm'', ''next_comm'', ''prev_pid'', ''next_pid'',
      ''prev_state'', ''next_state'', ''in_which_ctx'']"
    by (simp add: sched_items_def)
  have "distinct (map fst (sched_items e))" unfolding keys by simp
  moreover have "set (map fst (sched_items e)) \<inter> set (map fst d) = {}"
    unfolding keys head_members_keys [OF assms] head_keys_def by simp
  ultimately show ?thesis by (rule dict_fold)
qed

lemmas member_defs = switch_member_def is_field_def to_lower_def

lemma switch_member_head [simp]:
  "switch_member ''comm'' v e = Some e" "switch_member ''pid'' v e = Some e" "switch_member ''irqs_off'' v e = Some e"
  "switch_member ''need_resched'' v e = Some e" "switch_member ''ctx'' v e = Some e"
  "switch_member ''preempt_depth'' v e = Some e" "switch_member ''timestamp'' v e = Some e"
  "switch_member ''cpu'' v e = map_option (\<lambda>x. e\<lparr>sw_cpu := x\<rparr>) (store_int v (sw_cpu e))"
  by (simp_all add: member_defs)

lemma switch_member_data [simp]:
  "switch_member ''tsc'' v e = map_option (\<lambda>x. e\<lparr>sw_time := x\<rparr>) (store_quoted parse_uint v (sw_time e))"
  "switch_member ''type'' v e = map_option (\<lambda>x. e\<lparr>sw_type := x\<rparr>) (store_quoted parse_int v (sw_type e))"
  "switch_member ''prev_pid'' v e = map_option (\<lambda>x. e\<lparr>sw_prev_pid := x\<rparr>) (store_quoted parse_int v (sw_prev_pid e))"
  "switch_member ''next_pid'' v e = map_option (\<lambda>x. e\<lparr>sw_next_pid := x\<rparr>) (store_quoted parse_int v (sw_next_pid e))"
  "switch_member ''prev_state'' v e = map_option (\<lambda>x. e\<lparr>sw_prev_state := x\<rparr>) (store_quoted parse_uint v (sw_prev_state e))"
  "switch_member ''next_state'' v e = map_option (\<lambda>x. e\<lparr>sw_next_state := x\<rparr>) (store_quoted parse_uint v (sw_next_state e))"
  "switch_member ''prev_comm'' v e = map_option (\<lambda>x. e\<lparr>sw_prev_comm := x\<rparr>) (store_string v (sw_prev_comm e))"
  "switch_member ''next_comm'' v e = map_option (\<lambda>x. e\<lparr>sw_next_comm := x\<rparr>) (store_string v (sw_next_comm e))"
  "switch_member ''in_which_ctx'' v e = map_option (\<lambda>x. e\<lparr>sw_in_which_ctx := x\<rparr>) (store_quoted parse_int v (sw_in_which_ctx e))"
  by (simp_all add: member_defs)

lemma head_members_store:
  assumes "head_members digits d" and "read_nat digits < 2 ^ 63"
  shows "store_members switch_member (d @ d') zero_switch =
    store_members switch_member d' (zero_switch\<lparr>sw_cpu := int (read_nat digits)\<rparr>)"
  using assms by (auto simp: head_members_def store_int_def parse_show_int)

lemma sched_items_store:
  assumes "numbers_fit e"
  shows "store_members switch_member (map (\<lambda>kv. (fst kv, JStr (snd kv))) (sched_items e))
      (zero_switch\<lparr>sw_cpu := cpu\<rparr>) = Some (switch_of cpu e)"
  using assms by (simp add: sched_items_def numbers_fit_def int64_def store_string_def switch_of_def zero_switch_def)

lemma sched_items_negative:
  assumes "int64 (e_type e)" "int64 (e_prev_pid e)" "int64 (e_next_pid e)" "sint (e_prev_state e) < 0 \<or> sint (e_next_state e) < 0"
  shows "store_members switch_member (map (\<lambda>kv. (fst kv, JStr (snd kv))) (sched_items e))
      (zero_switch\<lparr>sw_cpu := cpu\<rparr>) = None"
  using assms by (cases "sint (e_prev_state e) < 0")
    (simp_all add: sched_items_def int64_def store_string_def zero_switch_def)

section \<open>Properties\<close>

text \<open>A line of the trace file that shows the record \<open>e\<close> of the CPU with these digits.\<close>

definition record_line :: "string \<Rightarrow> sched_entry \<Rightarrow> string \<Rightarrow> bool" where
  "record_line digits e line \<longleftrightarrow> (\<exists>head event data. ftrace_head digits head \<and> read_nat digits < 2 ^ 63 \<and>
     \<not> contains event '': '' \<and> data \<in> sched_line e \<and> line = ftrace_line head event data)"

text \<open>The JSON text of the object of a line is on one line and parses back.\<close>

definition json_law :: "(members \<Rightarrow> string option) \<Rightarrow> (string \<Rightarrow> jval option) \<Rightarrow> string \<Rightarrow> bool" where
  "json_law dumps parse line \<longleftrightarrow> (\<forall>d. encode_line line = Some d \<longrightarrow>
     (\<exists>s. dumps d = Some s \<and> NL \<notin> set s \<and> parse s = Some (JObj d)))"

lemma record_line_encoded:
  assumes "record_line digits e line" and "names_pass e"
  shows "\<exists>d. encode_line line = Some (d @ map (\<lambda>kv. (fst kv, JStr (snd kv))) (sched_items e)) \<and> head_members digits d"
proof -
  obtain head event data where l: "ftrace_head digits head" "\<not> contains event '': ''" "data \<in> sched_line e"
    "line = ftrace_line head event data"
    using assms(1) by (auto simp: record_line_def)
  note clean = print_clean [OF assms(2) l(3)]
  obtain d where d: "encode_line line = data_fields (py_split CHR '','' data) d" "head_members digits d"
    using encode_line_ftrace [OF l(1,2) clean(1)] clean(2) unfolding l(4) by blast
  with data_fields_items [OF print_parts [OF assms(2) l(3)], of d] sched_dict [OF d(2), of e] show ?thesis by auto
qed

lemma record_line_read:
  assumes "record_line digits e line" and "names_pass e" and "json_law dumps parse line"
  shows "\<exists>s. (case encode_line line of None \<Rightarrow> None | Some d \<Rightarrow> dumps d) = Some s \<and> NL \<notin> set s \<and>
    unmarshal parse switch_member s zero_switch =
      store_members switch_member (map (\<lambda>kv. (fst kv, JStr (snd kv))) (sched_items e))
        (zero_switch\<lparr>sw_cpu := int (read_nat digits)\<rparr>)"
proof -
  have small: "read_nat digits < 2 ^ 63" using assms(1) by (auto simp: record_line_def)
  obtain d where d: "encode_line line = Some (d @ map (\<lambda>kv. (fst kv, JStr (snd kv))) (sched_items e))"
    "head_members digits d"
    using record_line_encoded [OF assms(1,2)] by blast
  with assms(3) obtain s where "dumps (d @ map (\<lambda>kv. (fst kv, JStr (snd kv))) (sched_items e)) = Some s"
    "NL \<notin> set s" "parse s = Some (JObj (d @ map (\<lambda>kv. (fst kv, JStr (snd kv))) (sched_items e)))"
    by (auto simp: json_law_def)
  with d head_members_store [OF d(2) small] show ?thesis by (auto simp: unmarshal_def)
qed

lemma split_output:
  "\<forall>s \<in> set objs. NL \<notin> set s \<Longrightarrow> butlast (go_split NL (encode_output objs)) = objs"
proof (induction objs)
  case (Cons s objs)
  have "go_split NL (encode_output (s # objs)) = s # go_split NL (encode_output objs)"
    using Cons.prems by (simp add: go_split_def encode_output_def tokens_cons)
  moreover have "go_split NL (encode_output objs) \<noteq> []"
    by (simp add: go_split_def tokens.simps strsep_def)
  ultimately show ?case using Cons by simp
qed (simp add: go_split_def encode_output_def tokens_last)

lemma load_switch_lines:
  assumes "list_all2 (\<lambda>l r. record_line (fst r) (snd r) l \<and> json_law dumps parse l) lines recs"
    and "\<forall>r \<in> set recs. names_pass (snd r) \<and> numbers_fit (snd r)" and "sorts_by_time srt"
  shows "\<exists>swl. load_switch parse srt (Some (encode_output (encode dumps lines))) = Inr swl \<and>
    mset swl = mset (map (\<lambda>r. switch_of (int (read_nat (fst r))) (snd r)) recs) \<and> sorted (map sw_time swl)"
proof -
  have "(\<forall>s \<in> set (encode dumps lines). NL \<notin> set s) \<and>
      List.map_filter (\<lambda>l. unmarshal parse switch_member (trim_suffix l [NL]) zero_switch) (encode dumps lines) =
      map (\<lambda>r. switch_of (int (read_nat (fst r))) (snd r)) recs"
    using assms(1,2)
  proof (induction lines recs rule: list_all2_induct)
    case Nil
    then show ?case by (simp add: encode_def map_filter_simps)
  next
    case (Cons l ls r rs)
    then have "names_pass (snd r)" "numbers_fit (snd r)" "record_line (fst r) (snd r) l" "json_law dumps parse l" by auto
    with record_line_read [of "fst r" "snd r" l dumps parse] sched_items_store [of "snd r"] obtain s where
      "(case encode_line l of None \<Rightarrow> None | Some d \<Rightarrow> dumps d) = Some s" "NL \<notin> set s"
      "unmarshal parse switch_member s zero_switch = Some (switch_of (int (read_nat (fst r))) (snd r))" by auto
    with Cons show ?case by (simp add: encode_def map_filter_simps)
  qed
  with split_output [of "encode dumps lines"] assms(3) show ?thesis
    by (simp add: load_switch_def sorts_by_time_def)
qed

text \<open>
  A record with a negative task state does not reach the analyzer: the module prints the state as a
  signed number, and the analyzer's field is an unsigned one, so that the line is skipped.
\<close>

theorem negative_state_dropped:
  assumes "record_line digits e line" and "names_pass e" and "json_law dumps parse line"
    and "int64 (e_type e)" "int64 (e_prev_pid e)" "int64 (e_next_pid e)"
    and "sint (e_prev_state e) < 0 \<or> sint (e_next_state e) < 0"
  shows "load_switch parse srt (Some (encode_output (encode dumps [line]))) = Inr (srt [])"
proof -
  obtain s where s: "(case encode_line line of None \<Rightarrow> None | Some d \<Rightarrow> dumps d) = Some s" "NL \<notin> set s"
    "unmarshal parse switch_member s zero_switch = None"
    using record_line_read [OF assms(1-3)] sched_items_negative [OF assms(4-7)] by auto
  then have "encode dumps [line] = [s]" by (simp add: encode_def map_filter_simps)
  with s(2,3) split_output [of "[s]"] show ?thesis by (simp add: load_switch_def map_filter_simps)
qed

text \<open>A head, a line and the law of its JSON text for the witnesses.\<close>

definition ex_head :: string where
  "ex_head = ''  swapper/3-0     [003] d..3 12.5''"

lemma ex_head_ok: "ftrace_head ''003'' ex_head"
proof -
  have "py_words ex_head = [''swapper/3'' @ CHR ''-'' # ''0'', ''['' @ ''003'' @ '']'', ''d..3'', ''12.5'']"
    by code_simp
  moreover have "all_digits ''003''" "CHR ''-'' \<notin> set ''0''" "4 \<le> length ''d..3''"
    by (simp_all add: all_digits_def is_digit_def)
  ultimately show ?thesis unfolding ftrace_head_def by blast
qed

lemma ex_record_line: "record_line ''003'' e (ftrace_line ex_head ''__switch_to'' (print_switch_to e))"
proof -
  have "read_nat ''003'' < 2 ^ 63" by (simp add: read_nat_def digit_val_def)
  moreover have "\<not> contains ''__switch_to'' '': ''" by simp
  ultimately show ?thesis using ex_head_ok unfolding record_line_def sched_line_def by blast
qed

lemma json_law_one: "json_law (\<lambda>d. Some ''x'') (\<lambda>s. map_option JObj (encode_line line)) line"
  by (simp add: json_law_def)

theorem negative_state_dropped_witness:
  "load_switch (\<lambda>s. map_option JObj (encode_line (ftrace_line ex_head ''__switch_to''
      (print_switch_to (ref_slot\<lparr>e_prev_state := - 1\<rparr>))))) (sort_key sw_time) (Some (encode_output (encode (\<lambda>d. Some ''x'')
        [ftrace_line ex_head ''__switch_to'' (print_switch_to (ref_slot\<lparr>e_prev_state := - 1\<rparr>))]))) = Inr []"
proof -
  let ?e = "ref_slot\<lparr>e_prev_state := - 1\<rparr>"
  have "names_pass ?e" "int64 (e_type ?e)" "int64 (e_prev_pid ?e)" "int64 (e_next_pid ?e)" "sint (e_prev_state ?e) < 0"
    by (simp_all add: names_pass_def passes_def ref_slot_def cstr_def int64_def)
  from negative_state_dropped [OF ex_record_line this(1) json_law_one this(2-4) disjI1, OF this(5), of "sort_key sw_time"]
  show ?thesis by simp
qed

end
