(* ===== verification/TraceFiles.thy ===== *)
theory TraceFiles
  imports Pipeline
begin

text \<open>
  Whole trace files: the softirq intervals on their way from the module to the analyzer, and both
  files as the recorder wrote them, read line by line by scripts/encorder.py.
\<close>

section \<open>Softirq intervals\<close>

text \<open>A printed interval: the digits of its CPU, the command name and the two times.\<close>

record soft_rec =
  sr_digits :: string
  sr_comm :: string
  sr_begin :: u64
  sr_end :: u64

definition soft_fields :: "soft_rec \<Rightarrow> string list" where
  "soft_fields r = [''prev_comm='' @ cstr (sr_comm r), '' begin_time='' @ fmt_llu (sr_begin r),
     '' end_time='' @ fmt_llu (sr_end r)]"

definition soft_items :: "soft_rec \<Rightarrow> (string \<times> string) list" where
  "soft_items r = [(''prev_comm'', py_remove CHR '' '' (cstr (sr_comm r))), (''begin_time'', fmt_llu (sr_begin r)),
     (''end_time'', fmt_llu (sr_end r))]"

definition soft_line :: "soft_rec \<Rightarrow> string \<Rightarrow> bool" where
  "soft_line r line \<longleftrightarrow> (\<exists>head event. ftrace_head (sr_digits r) head \<and> read_nat (sr_digits r) < 2 ^ 63 \<and>
     \<not> contains event '': '' \<and>
     line = ftrace_line head event (print_do_softirq_ret (sr_comm r) (sr_begin r) (sr_end r)))"

definition soft_of :: "soft_rec \<Rightarrow> soft" where
  "soft_of r = \<lparr>sf_cpu = int (read_nat (sr_digits r)), sf_stime = sr_begin r, sf_etime = sr_end r\<rparr>"

lemma print_soft_fields: "print_do_softirq_ret (sr_comm r) (sr_begin r) (sr_end r) = join CHR '','' (soft_fields r)"
  by (simp add: print_do_softirq_ret_def soft_fields_def)

lemma comma_notin [simp]: "CHR '','' \<notin> set (fmt_llu w)"
  by (simp add: fmt_llu_def show_nat_notin is_digit_def)

lemma soft_fields_split:
  assumes "passes (cstr (sr_comm r))"
  shows "list_all2 is_item (py_split CHR '','' (join CHR '','' (soft_fields r))) (soft_items r)"
proof -
  have "py_split CHR '','' (join CHR '','' (soft_fields r)) = soft_fields r"
    using assms unfolding py_split_def by (intro tokens_join) (auto simp: soft_fields_def passes_def)
  moreover have "CHR ''='' \<notin> set (cstr (sr_comm r))" using assms by (simp add: passes_def)
  note item = is_item_plain [of "''prev_comm''"] is_item_blank [of "''begin_time''"] is_item_blank [of "''end_time''"]
  then have "list_all2 is_item (soft_fields r) (soft_items r)"
    by (simp add: soft_fields_def soft_items_def item [unfolded append.simps] \<open>CHR ''='' \<notin> _\<close>)
  ultimately show ?thesis by simp
qed

lemma soft_print_clean:
  assumes "passes (cstr (sr_comm r))"
  shows "\<not> contains (join CHR '','' (soft_fields r)) '': ''"
    and "join CHR '','' (soft_fields r) \<noteq> []" and "hd (join CHR '','' (soft_fields r)) \<noteq> NL"
    and "last (join CHR '','' (soft_fields r)) \<noteq> NL"
proof -
  have "\<not> contains (cstr (sr_comm r)) '': ''" using assms by (simp add: passes_def)
  then show "\<not> contains (join CHR '','' (soft_fields r)) '': ''"
    by (simp add: soft_fields_def contains2_skip contains2_skip_name contains2_notin)
  show "join CHR '','' (soft_fields r) \<noteq> []" "hd (join CHR '','' (soft_fields r)) \<noteq> NL"
    by (simp_all add: soft_fields_def)
  have "fmt_llu (sr_end r) \<noteq> []" by (simp add: fmt_llu_def)
  moreover from this have "last (fmt_llu (sr_end r)) \<noteq> NL" by (metis last_in_set number_chars(12))
  ultimately show "last (join CHR '','' (soft_fields r)) \<noteq> NL" by (simp add: soft_fields_def)
qed

lemma soft_member_head [simp]:
  "soft_member ''comm'' v e = Some e" "soft_member ''pid'' v e = Some e" "soft_member ''irqs_off'' v e = Some e"
  "soft_member ''need_resched'' v e = Some e" "soft_member ''ctx'' v e = Some e"
  "soft_member ''preempt_depth'' v e = Some e" "soft_member ''timestamp'' v e = Some e"
  "soft_member ''prev_comm'' v e = Some e"
  "soft_member ''cpu'' v e = map_option (\<lambda>x. e\<lparr>sf_cpu := x\<rparr>) (store_int v (sf_cpu e))"
  "soft_member ''begin_time'' v e = map_option (\<lambda>x. e\<lparr>sf_stime := x\<rparr>) (store_quoted parse_uint v (sf_stime e))"
  "soft_member ''end_time'' v e = map_option (\<lambda>x. e\<lparr>sf_etime := x\<rparr>) (store_quoted parse_uint v (sf_etime e))"
  by (simp_all add: soft_member_def is_field_def to_lower_def)

lemma soft_dict:
  assumes "head_members digits d"
  shows "foldl (\<lambda>d kv. dict_set (fst kv) (JStr (snd kv)) d) d (soft_items r) =
    d @ map (\<lambda>kv. (fst kv, JStr (snd kv))) (soft_items r)"
proof (rule dict_fold)
  show "distinct (map fst (soft_items r))" by (simp add: soft_items_def)
  show "set (map fst (soft_items r)) \<inter> set (map fst d) = {}"
    unfolding head_members_keys [OF assms] by (simp add: soft_items_def head_keys_def)
qed

lemma soft_store:
  assumes "head_members (sr_digits r) d" and "read_nat (sr_digits r) < 2 ^ 63"
  shows "store_members soft_member (d @ map (\<lambda>kv. (fst kv, JStr (snd kv))) (soft_items r))
    \<lparr>sf_cpu = 0, sf_stime = 0, sf_etime = 0\<rparr> = Some (soft_of r)"
  using assms by (auto simp: head_members_def store_int_def parse_show_int soft_items_def soft_of_def)

lemma soft_line_read:
  assumes "soft_line r line" and "passes (cstr (sr_comm r))" and "json_law dumps parse line"
  shows "\<exists>s. (case encode_line line of None \<Rightarrow> None | Some d \<Rightarrow> dumps d) = Some s \<and> NL \<notin> set s \<and>
    unmarshal parse soft_member s \<lparr>sf_cpu = 0, sf_stime = 0, sf_etime = 0\<rparr> = Some (soft_of r)"
proof -
  obtain head event where l: "ftrace_head (sr_digits r) head" "read_nat (sr_digits r) < 2 ^ 63"
    "\<not> contains event '': ''" "line = ftrace_line head event (join CHR '','' (soft_fields r))"
    using assms(1) by (auto simp: soft_line_def print_soft_fields)
  from encode_line_ftrace [OF l(1,3) soft_print_clean [OF assms(2)]] obtain d where
    d: "encode_line line = data_fields (py_split CHR '','' (join CHR '','' (soft_fields r))) d"
    "head_members (sr_digits r) d" unfolding l(4) by blast
  have "encode_line line = Some (d @ map (\<lambda>kv. (fst kv, JStr (snd kv))) (soft_items r))"
    using data_fields_items [OF soft_fields_split [OF assms(2)], of d] soft_dict [OF d(2), of r] d(1) by simp
  moreover from this assms(3) obtain s where "dumps (d @ map (\<lambda>kv. (fst kv, JStr (snd kv))) (soft_items r)) = Some s"
    "NL \<notin> set s" "parse s = Some (JObj (d @ map (\<lambda>kv. (fst kv, JStr (snd kv))) (soft_items r)))"
    by (auto simp: json_law_def)
  ultimately show ?thesis using soft_store [OF d(2) l(2)] by (auto simp: unmarshal_def)
qed

section \<open>Whole files\<close>

lemma load_soft_lines:
  assumes "list_all2 (\<lambda>l r. soft_line r l \<and> json_law dumps parse l) lines recs"
    and "\<forall>r \<in> set recs. passes (cstr (sr_comm r))"
  shows "load_soft parse (Some (encode_output (encode dumps lines))) = Inr (map soft_of recs)"
proof -
  have "(\<forall>s \<in> set (encode dumps lines). NL \<notin> set s) \<and>
      List.map_filter (\<lambda>l. unmarshal parse soft_member l \<lparr>sf_cpu = 0, sf_stime = 0, sf_etime = 0\<rparr>)
        (encode dumps lines) = map soft_of recs"
    using assms
  proof (induction lines recs rule: list_all2_induct)
    case Nil
    then show ?case by (simp add: encode_def map_filter_simps)
  next
    case (Cons l ls r rs)
    then have "soft_line r l" "passes (cstr (sr_comm r))" "json_law dumps parse l" by auto
    from soft_line_read [OF this] Cons show ?case by (auto simp: encode_def map_filter_simps)
  qed
  with split_output [of "encode dumps lines"] show ?thesis by (simp add: load_soft_def)
qed

text \<open>A text of whole lines is read as these lines.\<close>

definition on_one_line :: "string \<Rightarrow> bool" where
  "on_one_line l \<longleftrightarrow> NL \<notin> set (butlast l)"

lemma ftrace_line_ends: "ftrace_line head event data = (head @ '': '' @ event @ '': '' @ data) @ [NL]"
  by (simp add: ftrace_line_def)

lemma load_encode_lines:
  assumes "\<forall>l \<in> set lines. on_one_line l \<and> (\<exists>b. l = b @ [NL])"
  shows "load_encode dumps (concat lines) = encode_output (encode dumps lines)"
  using assms py_readlines_concat [of lines] by (force simp: load_encode_def on_one_line_def)

lemma soft_line_ends: "soft_line r l \<Longrightarrow> \<exists>b. l = b @ [NL]"
  unfolding soft_line_def ftrace_line_ends by blast

lemma record_line_ends: "record_line digits e l \<Longrightarrow> \<exists>b. l = b @ [NL]"
  unfolding record_line_def ftrace_line_ends by blast

lemma load_soft_file:
  assumes "list_all2 (\<lambda>l r. soft_line r l \<and> json_law dumps parse l) lines recs"
    and "\<forall>r \<in> set recs. passes (cstr (sr_comm r))" and "\<forall>l \<in> set lines. on_one_line l"
  shows "load_soft parse (Some (load_encode dumps (concat lines))) = Inr (map soft_of recs)"
proof -
  have "\<forall>l \<in> set lines. on_one_line l \<and> (\<exists>b. l = b @ [NL])"
    using assms(1,3) soft_line_ends by (fastforce simp: list_all2_conv_all_nth in_set_conv_nth)
  then show ?thesis by (simp add: load_encode_lines load_soft_lines [OF assms(1,2)])
qed

section \<open>An interval for the witnesses\<close>

definition ex_soft :: soft_rec where
  "ex_soft = \<lparr>sr_digits = ''003'', sr_comm = ''sshd'' @ [NUL], sr_begin = 14, sr_end = 17\<rparr>"

definition ex_soft_line :: string where
  "ex_soft_line = ftrace_line ex_head ''__do_softirq_ret'' (print_do_softirq_ret (''sshd'' @ [NUL]) 14 17)"

lemma ex_soft_line_ok: "soft_line ex_soft ex_soft_line" "on_one_line ex_soft_line" "passes (cstr (sr_comm ex_soft))"
proof -
  have "read_nat ''003'' < 2 ^ 63" by (simp add: read_nat_def digit_val_def)
  moreover have "\<not> contains ''__do_softirq_ret'' '': ''" by simp
  ultimately show "soft_line ex_soft ex_soft_line"
    using ex_head_ok unfolding soft_line_def ex_soft_line_def
    by (intro exI [of _ ex_head] exI [of _ "''__do_softirq_ret''"]) (simp add: ex_soft_def)
  show "on_one_line ex_soft_line" by code_simp
  show "passes (cstr (sr_comm ex_soft))" by code_simp
qed

end
