(* ===== verification/LineFate.thy ===== *)
theory LineFate
  imports TraceFiles
begin

text \<open>
  What becomes of each line of a trace file, whatever the tasks are called: ftrace prints the name of the running task raw in front
  of an event, the module prints names into the fields, and scripts/encorder.py drops a line it cannot cut.
\<close>

section \<open>What ftrace prints in front of an event\<close>

text \<open>
  The name of the task, padded on the left, a hyphen and its number, padded on the right, the CPU in brackets, the flags, and the time. Nothing
  is known of the name.
\<close>

record head_rec =
  h_pad :: nat
  h_comm :: string
  h_pid :: string
  h_gap :: nat
  h_digits :: string
  h_flags :: string
  h_wide :: nat
  h_ts :: string

definition blanks :: "nat \<Rightarrow> string" where
  "blanks n = replicate n CHR '' ''"

definition head_text :: "head_rec \<Rightarrow> string" where
  "head_text h = (blanks (h_pad h) @ h_comm h @ CHR ''-'' # h_pid h) @ CHR '' '' # (blanks (h_gap h) @ CHR ''['' # h_digits h @ '']'') @
     CHR '' '' # h_flags h @ CHR '' '' # blanks (h_wide h) @ h_ts h"

definition solid :: "string \<Rightarrow> bool" where
  "solid w \<longleftrightarrow> w \<noteq> [] \<and> (\<forall>c \<in> set w. \<not> py_space c)"

definition head_ok :: "head_rec \<Rightarrow> bool" where
  "head_ok h \<longleftrightarrow> all_digits (h_pid h) \<and> all_digits (h_digits h) \<and> read_nat (h_digits h) < 2 ^ 63 \<and>
     4 \<le> length (h_flags h) \<and> solid (h_flags h) \<and> solid (h_ts h)"

text \<open>A name that is one word with the hyphen that follows: no white space but in front.\<close>

definition one_word :: "string \<Rightarrow> bool" where
  "one_word s \<longleftrightarrow> (\<forall>c \<in> set (dropWhile py_space s). \<not> py_space c)"

section \<open>Words\<close>

lemma py_words_Nil [simp]: "py_words [] = []"
  by (simp add: py_words.simps)

lemma py_words_space: "py_space c \<Longrightarrow> py_words (c # s) = py_words s"
  by (simp add: py_words.simps [of "c # s"] py_words.simps [of s])

lemma py_words_word:
  assumes "solid w" and "t = [] \<or> py_space (hd t)"
  shows "py_words (w @ t) = w # py_words t"
proof -
  obtain c u where w: "w = c # u" using assms(1) by (cases w) (auto simp: solid_def)
  have "takeWhile (\<lambda>x. \<not> py_space x) (u @ t) = u" "dropWhile (\<lambda>x. \<not> py_space x) (u @ t) = t"
    using assms w by (cases t; auto simp: solid_def)+
  with assms(1) show ?thesis by (simp add: w py_words.simps [of "c # u @ t"] solid_def)
qed

lemma py_words_one: "solid w \<Longrightarrow> py_words w = [w]"
  using py_words_word [of w "[]"] by simp

text \<open>White space ends a word.\<close>

lemma py_words_append: "py_space c \<Longrightarrow> py_words (s @ c # t) = py_words s @ py_words t"
proof (induction s rule: measure_induct_rule [of length])
  case (less s)
  show ?case
  proof (cases s)
    case Nil
    with less.prems show ?thesis by (simp add: py_words_space)
  next
    case (Cons d u)
    show ?thesis
    proof (cases "py_space d")
      case True
      with less.IH [of u] less.prems Cons show ?thesis by (simp add: py_words_space)
    next
      case False
      let ?w = "takeWhile (\<lambda>x. \<not> py_space x) s" and ?r = "dropWhile (\<lambda>x. \<not> py_space x) s"
      have w: "solid ?w" using False Cons by (auto simp: solid_def dest: set_takeWhileD)
      have r: "?r = [] \<or> py_space (hd ?r)" using hd_dropWhile [of "\<lambda>x. \<not> py_space x" s] by blast
      then have "?r @ c # t = [] \<or> py_space (hd (?r @ c # t))" using less.prems
        by (auto simp: hd_append simp del: dropWhile_eq_Nil_conv)
      from py_words_word [OF w this] have "py_words (s @ c # t) = ?w # py_words (?r @ c # t)"
        by (simp flip: append_assoc)
      moreover have "py_words s = ?w # py_words ?r" using py_words_word [OF w r] by simp
      moreover have "length ?r < length s" using False Cons length_dropWhile_le [of "\<lambda>x. \<not> py_space x" u] by simp
      ultimately show ?thesis using less.IH [of ?r] less.prems by simp
    qed
  qed
qed

lemma py_words_some: "c \<in> set s \<Longrightarrow> \<not> py_space c \<Longrightarrow> py_words s \<noteq> []"
proof -
  assume "c \<in> set s" "\<not> py_space c"
  then have "dropWhile py_space s \<noteq> []" by (simp add: dropWhile_eq_Nil_conv) blast
  then show ?thesis by (auto simp: py_words.simps [of s] split: list.splits)
qed

lemma py_words_strip: "py_words (dropWhile py_space s) = py_words s"
  by (induction s) (auto simp: py_words_space)

lemma py_words_blanks: "py_words (blanks n @ s) = py_words s"
  by (induction n) (simp_all add: blanks_def py_words_space py_space_def)

lemma digit_solid: "all_digits s \<Longrightarrow> solid s"
  by (auto simp: all_digits_def solid_def list_all_iff is_digit_def py_space_def)

text \<open>The words of a head: those of the task, then three.\<close>

lemma head_words:
  assumes "head_ok h"
  shows "py_words (head_text h) = py_words (h_comm h @ CHR ''-'' # h_pid h) @ [''['' @ h_digits h @ '']'', h_flags h, h_ts h]"
proof -
  have sp: "py_space CHR '' ''" by (simp add: py_space_def)
  have "solid (CHR ''['' # h_digits h @ '']'')" "solid (h_flags h)" "solid (h_ts h)"
    using assms digit_solid [of "h_digits h"] by (auto simp: head_ok_def solid_def py_space_def)
  then show ?thesis
    unfolding head_text_def py_words_append [OF sp] py_words_blanks by (simp add: py_words_one)
qed

lemma task_word:
  assumes "all_digits pid"
  shows "one_word comm \<Longrightarrow> py_words (comm @ CHR ''-'' # pid) = [dropWhile py_space comm @ CHR ''-'' # pid]"
    and "\<not> one_word comm \<Longrightarrow> 2 \<le> length (py_words (comm @ CHR ''-'' # pid))"
proof -
  have pid: "solid pid" "\<not> py_space CHR ''-''" using digit_solid [OF assms] by (simp_all add: py_space_def)
  have strip: "dropWhile py_space (comm @ CHR ''-'' # pid) = dropWhile py_space comm @ CHR ''-'' # pid"
    using pid(2) by (induction comm) auto
  show "py_words (comm @ CHR ''-'' # pid) = [dropWhile py_space comm @ CHR ''-'' # pid]" if "one_word comm"
  proof -
    have "solid (dropWhile py_space comm @ CHR ''-'' # pid)" using that pid by (auto simp: one_word_def solid_def)
    from py_words_one [OF this] py_words_strip [of "comm @ CHR ''-'' # pid", unfolded strip] show ?thesis by simp
  qed
  assume "\<not> one_word comm"
  then obtain c where "c \<in> set (dropWhile py_space comm)" "py_space c" by (auto simp: one_word_def)
  then obtain a b where ab: "dropWhile py_space comm = a @ c # b" by (auto simp: in_set_conv_decomp)
  then have "dropWhile py_space comm \<noteq> []" by simp
  from hd_dropWhile [OF this] ab \<open>py_space c\<close> have "a \<noteq> []" "\<not> py_space (hd a)" by (cases a; simp)+
  then have "py_words a \<noteq> []" using py_words_some [of "hd a" a] by simp
  moreover have "py_words (b @ CHR ''-'' # pid) \<noteq> []" using py_words_some [of "CHR ''-''"] pid(2) by simp
  moreover have "py_words (comm @ CHR ''-'' # pid) = py_words a @ py_words (b @ CHR ''-'' # pid)"
    using py_words_strip [of "comm @ CHR ''-'' # pid"] py_words_append [OF \<open>py_space c\<close>, of a "b @ CHR ''-'' # pid"]
    unfolding strip ab by simp
  ultimately show "2 \<le> length (py_words (comm @ CHR ''-'' # pid))"
    by (cases "py_words a"; cases "py_words (b @ CHR ''-'' # pid)") simp_all
qed

lemma head_one_word:
  assumes "head_ok h" and "one_word (h_comm h)"
  shows "ftrace_head (h_digits h) (head_text h)"
proof -
  have "CHR ''-'' \<notin> set (h_pid h)" using assms(1) by (auto simp: head_ok_def all_digits_def list_all_iff is_digit_def)
  with assms head_words [OF assms(1)] task_word(1) [of "h_pid h" "h_comm h"] show ?thesis
    unfolding ftrace_head_def head_ok_def by auto
qed

text \<open>More words than four: the tuple of four is not unpacked.\<close>

lemma encode_head_words:
  assumes "5 \<le> length (py_words s)"
  shows "encode_head s = None"
proof -
  have "\<forall>w \<in> set (py_words s). CHR '' '' \<notin> set w" using py_words_spaceless by (fastforce simp: py_space_def)
  then have "py_split CHR '' '' (join CHR '' '' (py_words s)) = py_words s"
    unfolding py_split_def using assms by (intro tokens_join) auto
  with assms show ?thesis unfolding encode_head_def by (auto split: list.splits)
qed

section \<open>Lines that are dropped\<close>

lemma contains2_cut: "contains s [x, y] \<Longrightarrow> \<exists>a b. cut_last [x, y] s = Some (a, b) \<and> s = a @ x # y # b"
proof (induction s)
  case (Cons c s)
  show ?case
  proof (cases "cut_last [x, y] s")
    case None
    with Cons have "take 2 (c # s) = [x, y]" by (auto simp: numeral_2_eq_2)
    then obtain t where "c # s = x # y # t" by (cases s) auto
    with None show ?thesis by auto
  next
    case (Some ab)
    then have "contains s [x, y]" using cut_last_None by fastforce
    with Cons.IH Some show ?thesis by auto
  qed
qed simp

text \<open>An event has a name that is a C identifier.\<close>

lemma solid_no_cut: "solid event \<Longrightarrow> \<not> contains event '': ''"
proof
  assume "solid event" and "contains event '': ''"
  then obtain a b where "event = a @ CHR '':'' # CHR '' '' # b" using contains2_cut by blast
  with \<open>solid event\<close> show False by (simp add: solid_def py_space_def)
qed

text \<open>The last cut of a text that goes on behind a cut is not before that cut.\<close>

lemma cut_last_behind: "x \<noteq> y \<Longrightarrow> \<exists>r b. cut_last [x, y] (p @ x # y # s) = Some (p @ r, b)"
proof -
  have base: "x \<noteq> y \<Longrightarrow> \<exists>a b. cut_last [x, y] (x # y # s) = Some (a, b)"
    using contains2_cut [of "x # y # s" x y] by fastforce
  assume "x \<noteq> y"
  with base show ?thesis by (induction p) (auto split: option.splits)
qed

lemma dropped_cut:
  assumes "5 \<le> length (py_words (head @ '': '' @ event))" and "solid event" and "contains data '': ''"
  shows "encode_line (ftrace_line head event data) = None"
proof -
  have "contains (data @ [NL]) '': ''" using assms(3) by (simp add: contains2_append)
  then obtain d1 d2 where d: "cut_last '': '' (data @ [NL]) = Some (d1, d2)" "data @ [NL] = d1 @ '': '' @ d2"
    using contains2_cut by fastforce
  let ?front = "head @ '': '' @ event @ '': ''"
  have app: "cut_last sep (p @ s) = (case cut_last sep s of Some (a, b) \<Rightarrow> Some (p @ a, b) | None \<Rightarrow> cut_last sep (p @ s))" for sep p s
    by (induction p) (auto split: option.splits)
  have c1: "cut_last '': '' (ftrace_line head event data) = Some (?front @ d1, d2)"
    using app [of "'': ''" ?front "data @ [NL]"] d(1) by (simp add: ftrace_line_def)
  obtain r b where c2: "cut_last '': '' ((head @ '': '' @ event) @ '': '' @ d1) = Some ((head @ '': '' @ event) @ r, b)"
    using cut_last_behind [of "CHR '':''" "CHR '' ''" "head @ '': '' @ event" d1] by auto
  have "5 \<le> length (py_words ((head @ '': '' @ event) @ r))"
  proof -
    have sp: "py_space CHR '' ''" by (simp add: py_space_def)
    obtain c t where "event = c # t" "\<not> py_space c" using assms(2) by (cases event) (auto simp: solid_def)
    then have "py_words (event @ r) \<noteq> []" using py_words_some [of c] by simp
    moreover have "py_words event = [event]" using py_words_one [OF assms(2)] .
    moreover have "py_words ((head @ '':'') @ CHR '' '' # event @ r) = py_words (head @ '':'') @ py_words (event @ r)"
      "py_words ((head @ '':'') @ CHR '' '' # event) = py_words (head @ '':'') @ py_words event"
      by (rule py_words_append [OF sp])+
    ultimately show ?thesis using assms(1) by (cases "py_words (event @ r)") auto
  qed
  then have "encode_head ((head @ '': '' @ event) @ r) = None" by (rule encode_head_words)
  with c1 c2 show ?thesis by (simp add: encode_line_def py_rsplit2_def)
qed

lemma front_words:
  assumes "head_ok h" and "solid event"
  shows "5 \<le> length (py_words (head_text h @ '': '' @ event))"
proof -
  have sp: "py_space CHR '' ''" by (simp add: py_space_def)
  have "head_ok (h\<lparr>h_ts := h_ts h @ '':''\<rparr>)" using assms(1) by (auto simp: head_ok_def solid_def py_space_def)
  from head_words [OF this] have "py_words (head_text h @ '':'') =
      py_words (h_comm h @ CHR ''-'' # h_pid h) @ [''['' @ h_digits h @ '']'', h_flags h, h_ts h @ '':'']"
    by (simp add: head_text_def)
  moreover have "1 \<le> length (py_words (h_comm h @ CHR ''-'' # h_pid h))"
    using assms(1) task_word [of "h_pid h" "h_comm h"] by (cases "one_word (h_comm h)") (auto simp: head_ok_def)
  moreover have "py_words ((head_text h @ '':'') @ CHR '' '' # event) = py_words (head_text h @ '':'') @ [event]"
    unfolding py_words_append [OF sp] py_words_one [OF assms(2)] ..
  ultimately show ?thesis by simp
qed

text \<open>The fields at the commas, when names have commas too.\<close>

lemma tokens_append: "tokens c (Some (s @ c # t)) = tokens c (Some s) @ tokens c (Some t)"
proof (induction s rule: measure_induct_rule [of length])
  case (less s)
  show ?case
  proof (cases "c \<in> set s")
    case True
    then obtain a b where ab: "s = a @ c # b" "c \<notin> set a" by (meson split_list_first)
    with less.IH [of b] tokens_cons [of c a "b @ c # t"] tokens_cons [of c a b] show ?thesis by simp
  qed (simp add: tokens_cons tokens_last)
qed

lemma tokens_some: "tokens c (Some s) \<noteq> []"
  by (simp add: tokens.simps strsep_def)

lemma tokens_of_join: "f \<in> set fs \<Longrightarrow> set (tokens c (Some f)) \<subseteq> set (tokens c (Some (join c fs)))"
  by (induction c fs rule: join.induct) (auto simp: tokens_append)

lemma join_has: "f \<in> set fs \<Longrightarrow> \<exists>a b. join c fs = a @ f @ b"
proof (induction c fs rule: join.induct)
  case (3 c s s' ss)
  show ?case
  proof (cases "f = s")
    case False
    with 3 obtain a b where "join c (s' # ss) = a @ f @ b" by auto
    then have "join c (s # s' # ss) = (s @ c # a) @ f @ b" by simp
    then show ?thesis by blast
  qed (auto intro: exI [of _ "[]"])
qed (auto intro: exI [of _ "[]"])

lemma data_fields_bad:
  "f \<in> set fs \<Longrightarrow> length (py_split CHR ''='' (py_remove CHR '' '' f)) \<noteq> 2 \<Longrightarrow> data_fields fs d = None"
  by (induction fs d rule: data_fields.induct) (auto split: list.splits)

text \<open>A name with a comma or an equals sign, but not both, makes a field that is not a key and a value.\<close>

definition tame :: "string \<Rightarrow> bool" where
  "tame n \<longleftrightarrow> CHR '','' \<notin> set n \<or> CHR ''='' \<notin> set n"

lemma bad_field:
  assumes "tame n" and "CHR '','' \<in> set n \<or> CHR ''='' \<in> set n" and "CHR '','' \<notin> set k"
  shows "\<exists>f \<in> set (tokens CHR '','' (Some (k @ CHR ''='' # n))). length (py_split CHR ''='' (py_remove CHR '' '' f)) \<noteq> 2"
proof (cases "CHR '','' \<in> set n")
  case True
  then obtain a b where ab: "n = a @ CHR '','' # b" "CHR '','' \<notin> set b" by (meson split_list_last)
  have "tokens CHR '','' (Some ((k @ CHR ''='' # a) @ CHR '','' # b)) = tokens CHR '','' (Some (k @ CHR ''='' # a)) @ [b]"
    unfolding tokens_append tokens_last [OF ab(2)] ..
  then have "b \<in> set (tokens CHR '','' (Some (k @ CHR ''='' # n)))" by (simp add: ab(1))
  moreover have "CHR ''='' \<notin> set (py_remove CHR '' '' b)" using True assms(1) ab(1) by (auto simp: tame_def)
  ultimately show ?thesis by (auto simp: py_split_def tokens_last intro!: bexI [of _ b])
next
  case False
  with assms(2) obtain a b where ab: "n = a @ CHR ''='' # b" by (meson split_list)
  have one: "1 \<le> length (tokens CHR ''='' (Some s))" for s using tokens_some [of "CHR ''=''" s] by (cases "tokens CHR ''='' (Some s)") auto
  have "length (py_split CHR ''='' (py_remove CHR '' '' (k @ CHR ''='' # n))) =
      length (tokens CHR ''='' (Some (py_remove CHR '' '' k))) + (length (tokens CHR ''='' (Some (py_remove CHR '' '' a))) +
        length (tokens CHR ''='' (Some (py_remove CHR '' '' b))))"
    by (simp add: ab py_split_def tokens_append)
  with one [of "py_remove CHR '' '' k"] one [of "py_remove CHR '' '' a"] one [of "py_remove CHR '' '' b"]
  have "length (py_split CHR ''='' (py_remove CHR '' '' (k @ CHR ''='' # n))) \<noteq> 2" by simp
  moreover have "tokens CHR '','' (Some (k @ CHR ''='' # n)) = [k @ CHR ''='' # n]"
    using False assms(3) by (intro tokens_last) simp
  ultimately show ?thesis by simp
qed

lemma line_dropped:
  assumes "head_ok h" and "solid event" and "data = join CHR '','' fs" and "data \<noteq> [] \<and> hd data \<noteq> NL \<and> last data \<noteq> NL"
    and "\<not> one_word (h_comm h) \<or> (\<exists>k n. k @ CHR ''='' # n \<in> set fs \<and> CHR '','' \<notin> set k \<and> tame n \<and> \<not> passes n)"
  shows "encode_line (ftrace_line (head_text h) event data) = None"
proof (cases "contains data '': ''")
  case True
  with dropped_cut [OF front_words [OF assms(1,2)] assms(2)] show ?thesis .
next
  case False
  then have "\<not> contains (data @ [NL]) '': ''" by (simp add: contains2_append)
  from cut_last2 [OF this, of "head_text h @ '': '' @ event"] cut_last2 [OF solid_no_cut [OF assms(2)], of "head_text h"]
  have cut: "py_rsplit2 '': '' (ftrace_line (head_text h) event data) = Some (head_text h, event, data @ [NL])"
    by (simp add: py_rsplit2_def ftrace_line_def)
  have strip: "py_strip NL (data @ [NL]) = data" using assms(4) by (simp add: py_strip_snoc py_strip_same)
  show ?thesis
  proof (cases "one_word (h_comm h)")
    case True
    with assms(5) obtain k n where kn: "k @ CHR ''='' # n \<in> set fs" "CHR '','' \<notin> set k" "tame n" "\<not> passes n" by blast
    from join_has [OF kn(1), of "CHR '',''"] False assms(3) have "\<not> contains n '': ''"
      by (auto simp: contains2_append)
    with kn(4) have "CHR '','' \<in> set n \<or> CHR ''='' \<in> set n" by (auto simp: passes_def)
    from bad_field [OF kn(3) this kn(2)] tokens_of_join [OF kn(1), of "CHR '',''"] obtain f where
      "f \<in> set (py_split CHR '','' data)" "length (py_split CHR ''='' (py_remove CHR '' '' f)) \<noteq> 2"
      unfolding assms(3) py_split_def by blast
    then have "data_fields (py_split CHR '','' data) d = None" for d by (rule data_fields_bad)
    then show ?thesis by (simp add: encode_line_def cut strip split: option.split)
  next
    case False
    have "5 \<le> length (py_words (head_text h))"
      using False assms(1) task_word(2) [of "h_pid h" "h_comm h"] head_words [OF assms(1)] by (simp add: head_ok_def)
    from encode_head_words [OF this] show ?thesis by (simp add: encode_line_def cut)
  qed
qed

section \<open>Lines of scheduling records\<close>

text \<open>A line of the file that shows the record \<open>e\<close> behind this head.\<close>

definition shows_record :: "head_rec \<Rightarrow> sched_entry \<Rightarrow> string \<Rightarrow> bool" where
  "shows_record h e line \<longleftrightarrow> head_ok h \<and>
     (\<exists>event data. solid event \<and> data \<in> sched_line e \<and> line = ftrace_line (head_text h) event data)"

definition tame_record :: "sched_entry \<Rightarrow> bool" where
  "tame_record e \<longleftrightarrow> tame (cstr (e_prev_comm e)) \<and> tame (cstr (e_next_comm e))"

definition ints_fit :: "sched_entry \<Rightarrow> bool" where
  "ints_fit e \<longleftrightarrow> int64 (e_type e) \<and> int64 (e_prev_pid e) \<and> int64 (e_next_pid e) \<and> int64 (e_ctx e)"

text \<open>Which of these lines the analyzer gets.\<close>

definition arrives :: "head_rec \<times> sched_entry \<Rightarrow> bool" where
  "arrives r \<longleftrightarrow> one_word (h_comm (fst r)) \<and> names_pass (snd r) \<and>
     0 \<le> sint (e_prev_state (snd r)) \<and> 0 \<le> sint (e_next_state (snd r))"

definition cpu_of :: "head_rec \<Rightarrow> int" where
  "cpu_of h = int (read_nat (h_digits h))"

lemma sched_line_join:
  assumes "data \<in> sched_line e"
  obtains fs where "data = join CHR '','' fs" "'' prev_comm'' @ CHR ''='' # cstr (e_prev_comm e) \<in> set fs"
    "'' next_comm'' @ CHR ''='' # cstr (e_next_comm e) \<in> set fs" "data \<noteq> [] \<and> hd data \<noteq> NL \<and> last data \<noteq> NL"
proof -
  note p = print_switch_to_def print_try_to_wake_up_def print_wake_up_new_task_def print_do_exit_def
  have ends: "data \<noteq> [] \<and> hd data \<noteq> NL \<and> last data \<noteq> NL"
    using assms by (auto simp: sched_line_def p sched_fields_def numeral_eq_Suc last_show_int)
  from assms consider "data = join CHR '','' (sched_fields e)" | "data = join CHR '','' (take 4 (sched_fields e) @
      [''  prev_pid='' @ show_int (e_prev_pid e)] @ drop 5 (sched_fields e))"
    by (auto simp: sched_line_def p)
  then show thesis
  proof cases
    case 1
    then show thesis by (rule that) (use ends in \<open>simp_all add: sched_fields_def\<close>)
  next
    case 2
    then show thesis by (rule that) (use ends in \<open>simp_all add: sched_fields_def numeral_eq_Suc\<close>)
  qed
qed

lemma record_dropped:
  assumes "shows_record h e line" and "tame_record e" and "\<not> (one_word (h_comm h) \<and> names_pass e)"
  shows "encode_line line = None"
proof -
  obtain event data where l: "head_ok h" "solid event" "data \<in> sched_line e" "line = ftrace_line (head_text h) event data"
    using assms(1) by (auto simp: shows_record_def)
  from l(3) obtain fs where fs: "data = join CHR '','' fs" "'' prev_comm'' @ CHR ''='' # cstr (e_prev_comm e) \<in> set fs"
    "'' next_comm'' @ CHR ''='' # cstr (e_next_comm e) \<in> set fs" "data \<noteq> [] \<and> hd data \<noteq> NL \<and> last data \<noteq> NL"
    by (rule sched_line_join)
  have "\<exists>k n. k @ CHR ''='' # n \<in> set fs \<and> CHR '','' \<notin> set k \<and> tame n \<and> \<not> passes n" if "\<not> names_pass e"
  proof -
    have "CHR '','' \<notin> set '' prev_comm''" "CHR '','' \<notin> set '' next_comm''" by simp_all
    with that assms(2) fs(2,3) show ?thesis unfolding names_pass_def tame_record_def by blast
  qed
  with assms(3) line_dropped [OF l(1,2) fs(1,4)] l(4) show ?thesis by blast
qed

lemma record_kept:
  assumes "shows_record h e line" and "one_word (h_comm h)"
  shows "record_line (h_digits h) e line"
proof -
  obtain event data where l: "head_ok h" "solid event" "data \<in> sched_line e" "line = ftrace_line (head_text h) event data"
    using assms(1) by (auto simp: shows_record_def)
  with head_one_word [OF l(1) assms(2)] solid_no_cut [OF l(2)] show ?thesis
    unfolding record_line_def head_ok_def by blast
qed

lemma record_fate:
  assumes "shows_record h e line" and "tame_record e" and "ints_fit e" and "json_law dumps parse line"
  shows "(if one_word (h_comm h) \<and> names_pass e
    then \<exists>s. (case encode_line line of None \<Rightarrow> None | Some d \<Rightarrow> dumps d) = Some s \<and> NL \<notin> set s \<and>
      unmarshal parse switch_member s zero_switch = (if arrives (h, e) then Some (switch_of (cpu_of h) e) else None)
    else encode_line line = None \<and> \<not> arrives (h, e))"
proof (cases "one_word (h_comm h) \<and> names_pass e")
  case True
  with record_line_read [OF record_kept [OF assms(1)] _ assms(4)] obtain s where
    s: "(case encode_line line of None \<Rightarrow> None | Some d \<Rightarrow> dumps d) = Some s" "NL \<notin> set s"
    "unmarshal parse switch_member s zero_switch = store_members switch_member
      (map (\<lambda>kv. (fst kv, JStr (snd kv))) (sched_items e)) (zero_switch\<lparr>sw_cpu := cpu_of h\<rparr>)"
    by (auto simp: cpu_of_def)
  moreover have "store_members switch_member (map (\<lambda>kv. (fst kv, JStr (snd kv))) (sched_items e)) (zero_switch\<lparr>sw_cpu := cpu_of h\<rparr>) =
      (if arrives (h, e) then Some (switch_of (cpu_of h) e) else None)"
    using True assms(3) sched_items_store [of e "cpu_of h"] sched_items_negative [of e "cpu_of h"]
    by (auto simp: arrives_def ints_fit_def numbers_fit_def not_le)
  ultimately show ?thesis using True by auto
next
  case False
  with record_dropped [OF assms(1,2) False] show ?thesis by (auto simp: arrives_def)
qed

lemma shows_record_ends: "shows_record h e l \<Longrightarrow> \<exists>b. l = b @ [NL]"
  unfolding shows_record_def ftrace_line_ends by blast

text \<open>
  C7: What the analyzer gets of a file of scheduling records, whatever the tasks are called: exactly the records, sorted by time, with
  their CPU, time, type, processes, states and context and the two names without their blanks, whose line is not dropped; and a
  line is dropped just when the name of the task that ftrace prints in front has white space inside or at its end, when one of the
  two names has a comma, an equals sign or a colon before a blank, or when a state is negative as the
  module prints it. Two things are taken for granted: no name has both a comma and an equals sign (such a name can write fields of its
  own), and none has a newline, so that each record is on its line.
\<close>

theorem trace_reads_back:
  assumes "list_all2 (\<lambda>l r. shows_record (fst r) (snd r) l \<and> json_law dumps parse l) lines recs"
    and "\<forall>r \<in> set recs. tame_record (snd r) \<and> ints_fit (snd r)" and "\<forall>l \<in> set lines. on_one_line l" and "sorts_by_time srt"
  shows "\<exists>swl. load_switch parse srt (Some (load_encode dumps (concat lines))) = Inr swl \<and>
    mset swl = mset (map (\<lambda>r. switch_of (cpu_of (fst r)) (snd r)) (filter arrives recs)) \<and> sorted (map sw_time swl)"
proof -
  have "(\<forall>s \<in> set (encode dumps lines). NL \<notin> set s) \<and>
      List.map_filter (\<lambda>l. unmarshal parse switch_member (trim_suffix l [NL]) zero_switch) (encode dumps lines) =
      map (\<lambda>r. switch_of (cpu_of (fst r)) (snd r)) (filter arrives recs)"
    using assms(1,2)
  proof (induction lines recs rule: list_all2_induct)
    case Nil
    then show ?case by (simp add: encode_def map_filter_simps)
  next
    case (Cons l ls r rs)
    then have "shows_record (fst r) (snd r) l" "tame_record (snd r)" "ints_fit (snd r)" "json_law dumps parse l" by auto
    from record_fate [OF this] Cons show ?case
      by (cases "one_word (h_comm (fst r)) \<and> names_pass (snd r)") (auto simp: encode_def map_filter_simps)
  qed
  moreover have "\<forall>l \<in> set lines. on_one_line l \<and> (\<exists>b. l = b @ [NL])"
    using assms(1,3) shows_record_ends by (fastforce simp: list_all2_conv_all_nth in_set_conv_nth)
  ultimately show ?thesis using split_output [of "encode dumps lines"] assms(4)
    by (simp add: load_encode_lines load_switch_def sorts_by_time_def)
qed

section \<open>Lines of softirq intervals\<close>

definition shows_soft :: "head_rec \<Rightarrow> soft_rec \<Rightarrow> string \<Rightarrow> bool" where
  "shows_soft h r line \<longleftrightarrow> head_ok h \<and> h_digits h = sr_digits r \<and>
     (\<exists>event. solid event \<and> line = ftrace_line (head_text h) event (print_do_softirq_ret (sr_comm r) (sr_begin r) (sr_end r)))"

definition soft_arrives :: "head_rec \<times> soft_rec \<Rightarrow> bool" where
  "soft_arrives r \<longleftrightarrow> one_word (h_comm (fst r)) \<and> passes (cstr (sr_comm (snd r)))"

lemma soft_dropped:
  assumes "shows_soft h r line" and "tame (cstr (sr_comm r))" and "\<not> soft_arrives (h, r)"
  shows "encode_line line = None"
proof -
  obtain event where l: "head_ok h" "solid event" "line = ftrace_line (head_text h) event (join CHR '','' (soft_fields r))"
    using assms(1) by (auto simp: shows_soft_def print_soft_fields)
  have ne: "fmt_llu (sr_end r) \<noteq> []" by (simp add: fmt_llu_def)
  then have "last (fmt_llu (sr_end r)) \<noteq> NL" by (metis last_in_set number_chars(12))
  with ne have ends: "join CHR '','' (soft_fields r) \<noteq> [] \<and> hd (join CHR '','' (soft_fields r)) \<noteq> NL \<and> last (join CHR '','' (soft_fields r)) \<noteq> NL"
    by (simp add: soft_fields_def)
  have "''prev_comm'' @ CHR ''='' # cstr (sr_comm r) \<in> set (soft_fields r)" "CHR '','' \<notin> set ''prev_comm''"
    by (simp_all add: soft_fields_def)
  with assms(2,3) have "\<not> one_word (h_comm h) \<or>
      (\<exists>k n. k @ CHR ''='' # n \<in> set (soft_fields r) \<and> CHR '','' \<notin> set k \<and> tame n \<and> \<not> passes n)"
    unfolding soft_arrives_def fst_conv snd_conv by blast
  from line_dropped [OF l(1,2) refl ends this] show ?thesis by (simp add: l(3))
qed

lemma soft_kept:
  assumes "shows_soft h r line" and "one_word (h_comm h)"
  shows "soft_line r line"
proof -
  obtain event where l: "head_ok h" "h_digits h = sr_digits r" "solid event"
    "line = ftrace_line (head_text h) event (print_do_softirq_ret (sr_comm r) (sr_begin r) (sr_end r))"
    using assms(1) by (auto simp: shows_soft_def)
  with head_one_word [OF l(1) assms(2)] solid_no_cut [OF l(3)] show ?thesis
    unfolding soft_line_def head_ok_def by metis
qed

lemma shows_soft_ends: "shows_soft h r l \<Longrightarrow> \<exists>b. l = b @ [NL]"
  unfolding shows_soft_def ftrace_line_ends by blast

text \<open>
  C16: What the analyzer gets of a file of softirq intervals, whatever the interrupted tasks are called: exactly the intervals, with their CPU
  and times, in the order of the file, whose line is not dropped; and a line is dropped just when the name of the task in
  front of it has white space inside or at its end, or the name in it has a comma, an equals sign or a colon before a blank. As in C7, no name has both a
  comma and an equals sign, and none a newline.
\<close>

theorem softirqs_read_back:
  assumes "list_all2 (\<lambda>l r. shows_soft (fst r) (snd r) l \<and> json_law dumps parse l) lines recs"
    and "\<forall>r \<in> set recs. tame (cstr (sr_comm (snd r)))" and "\<forall>l \<in> set lines. on_one_line l"
  shows "load_soft parse (Some (load_encode dumps (concat lines))) = Inr (map (\<lambda>r. soft_of (snd r)) (filter soft_arrives recs))"
proof -
  have "(\<forall>s \<in> set (encode dumps lines). NL \<notin> set s) \<and>
      List.map_filter (\<lambda>l. unmarshal parse soft_member l \<lparr>sf_cpu = 0, sf_stime = 0, sf_etime = 0\<rparr>)
        (encode dumps lines) = map (\<lambda>r. soft_of (snd r)) (filter soft_arrives recs)"
    using assms(1,2)
  proof (induction lines recs rule: list_all2_induct)
    case Nil
    then show ?case by (simp add: encode_def map_filter_simps)
  next
    case (Cons l ls r rs)
    then have l: "shows_soft (fst r) (snd r) l" "tame (cstr (sr_comm (snd r)))" "json_law dumps parse l" by auto
    show ?case
    proof (cases "soft_arrives r")
      case True
      then have "soft_line (snd r) l" "passes (cstr (sr_comm (snd r)))" using soft_kept [OF l(1)] by (auto simp: soft_arrives_def)
      from soft_line_read [OF this l(3)] obtain s where "(case encode_line l of None \<Rightarrow> None | Some d \<Rightarrow> dumps d) = Some s" "NL \<notin> set s"
        "unmarshal parse soft_member s \<lparr>sf_cpu = 0, sf_stime = 0, sf_etime = 0\<rparr> = Some (soft_of (snd r))" by blast
      with True Cons show ?thesis by (simp add: encode_def map_filter_simps)
    next
      case False
      with soft_dropped [OF l(1,2)] Cons show ?thesis by (simp add: encode_def map_filter_simps)
    qed
  qed
  moreover have "\<forall>l \<in> set lines. on_one_line l \<and> (\<exists>b. l = b @ [NL])"
    using assms(1,3) shows_soft_ends by (fastforce simp: list_all2_conv_all_nth in_set_conv_nth)
  ultimately show ?thesis using split_output [of "encode dumps lines"] by (simp add: load_encode_lines load_soft_def)
qed

section \<open>A name that writes fields\<close>

text \<open>A task called \<open>a,tsc=7\<close> switched in: the analyzer's record has the time 7 and the name \<open>a\<close>.\<close>

theorem name_overwrites_time:
  "case encode_line (ftrace_line ex_head ''__switch_to'' (print_switch_to (ref_slot\<lparr>e_next_comm := ''a,tsc=7'' @ [NUL]\<rparr>))) of
    None \<Rightarrow> False
  | Some d \<Rightarrow> (''tsc'', JStr ''7'') \<in> set d \<and> (''next_comm'', JStr ''a'') \<in> set d \<and> length d = 17"
  by code_simp

section \<open>Witnesses\<close>

text \<open>The idle task and one whose name has a blank.\<close>

definition ex_head_rec :: head_rec where
  "ex_head_rec = \<lparr>h_pad = 2, h_comm = ''swapper/3'', h_pid = ''0'', h_gap = 4, h_digits = ''003'', h_flags = ''d..3'', h_wide = 0,
     h_ts = ''12.5''\<rparr>"

definition ex_blank_rec :: head_rec where
  "ex_blank_rec = ex_head_rec\<lparr>h_comm := ''web server'', h_pid := ''81''\<rparr>"

lemma ex_heads_ok: "head_ok ex_head_rec" "head_ok ex_blank_rec" "one_word (h_comm ex_head_rec)" "\<not> one_word (h_comm ex_blank_rec)"
proof -
  show "head_ok ex_head_rec" "head_ok ex_blank_rec"
    by (simp_all add: ex_blank_rec_def ex_head_rec_def head_ok_def all_digits_def is_digit_def read_nat_def digit_val_def
        solid_def py_space_def)
  show "one_word (h_comm ex_head_rec)" "\<not> one_word (h_comm ex_blank_rec)" by code_simp+
qed

text \<open>The law of JSON for a file of which one line is encoded.\<close>

lemma json_law_two:
  "encode_line l' = None \<or> l' = l \<Longrightarrow> json_law (\<lambda>d. Some ''x'') (\<lambda>s. map_option JObj (encode_line l)) l'"
  by (auto simp: json_law_def)

lemma ref_slot_passes: "names_pass ref_slot" "tame_record ref_slot" "ints_fit ref_slot"
    "0 \<le> sint (e_prev_state ref_slot)" "0 \<le> sint (e_next_state ref_slot)"
  by (simp_all add: names_pass_def passes_def tame_record_def tame_def ints_fit_def int64_def ref_slot_def cstr_def)

definition ex_switch_line :: "head_rec \<Rightarrow> string" where
  "ex_switch_line h = ftrace_line (head_text h) ''__switch_to'' (print_switch_to ref_slot)"

lemma ex_switch_shown: "head_ok h \<Longrightarrow> shows_record h ref_slot (ex_switch_line h)"
proof -
  have "solid ''__switch_to''" by code_simp
  then show "head_ok h \<Longrightarrow> shows_record h ref_slot (ex_switch_line h)"
    unfolding shows_record_def ex_switch_line_def sched_line_def by blast
qed

lemma ex_switch_one_line: "on_one_line (ex_switch_line ex_head_rec)" "on_one_line (ex_switch_line ex_blank_rec)"
  by code_simp+

theorem trace_reads_back_witness:
  "\<exists>swl. load_switch (\<lambda>s. map_option JObj (encode_line (ex_switch_line ex_head_rec))) (sort_key sw_time)
      (Some (load_encode (\<lambda>d. Some ''x'') (concat [ex_switch_line ex_blank_rec, ex_switch_line ex_head_rec]))) = Inr swl \<and>
     swl = [switch_of 3 ref_slot]"
proof -
  let ?l = "ex_switch_line ex_head_rec" and ?l' = "ex_switch_line ex_blank_rec"
  have none: "encode_line ?l' = None"
    using record_dropped [OF ex_switch_shown [OF ex_heads_ok(2)] ref_slot_passes(2)] ex_heads_ok(4) by blast
  let ?recs = "[(ex_blank_rec, ref_slot), (ex_head_rec, ref_slot)]"
  have "list_all2 (\<lambda>l r. shows_record (fst r) (snd r) l \<and>
      json_law (\<lambda>d. Some ''x'') (\<lambda>s. map_option JObj (encode_line ?l)) l) [?l', ?l] ?recs"
    using ex_switch_shown ex_heads_ok(1,2) json_law_two none by simp
  moreover have "\<forall>r \<in> set ?recs. tame_record (snd r) \<and> ints_fit (snd r)" using ref_slot_passes by simp
  moreover have "\<forall>l \<in> set [?l', ?l]. on_one_line l" using ex_switch_one_line by simp
  ultimately obtain swl where "load_switch (\<lambda>s. map_option JObj (encode_line ?l)) (sort_key sw_time)
       (Some (load_encode (\<lambda>d. Some ''x'') (concat [?l', ?l]))) = Inr swl"
    "mset swl = mset (map (\<lambda>r. switch_of (cpu_of (fst r)) (snd r)) (filter arrives ?recs))"
    using trace_reads_back [OF _ _ _ sorts_by_time_sort_key] by blast
  moreover have "filter arrives ?recs = [(ex_head_rec, ref_slot)]" using ex_heads_ok(3,4) ref_slot_passes by (simp add: arrives_def)
  moreover have "cpu_of ex_head_rec = 3" by (simp add: cpu_of_def ex_head_rec_def read_nat_def digit_val_def)
  ultimately show ?thesis by simp
qed

definition ex_interval :: "head_rec \<Rightarrow> string" where
  "ex_interval h = ftrace_line (head_text h) ''__do_softirq_ret'' (print_do_softirq_ret (sr_comm ex_soft) (sr_begin ex_soft) (sr_end ex_soft))"

lemma ex_interval_shown: "head_ok h \<Longrightarrow> h_digits h = ''003'' \<Longrightarrow> shows_soft h ex_soft (ex_interval h)"
proof -
  have "solid ''__do_softirq_ret''" by code_simp
  then show "head_ok h \<Longrightarrow> h_digits h = ''003'' \<Longrightarrow> shows_soft h ex_soft (ex_interval h)"
    unfolding shows_soft_def ex_interval_def by (simp add: ex_soft_def) blast
qed

lemma ex_interval_one_line: "on_one_line (ex_interval ex_head_rec)" "on_one_line (ex_interval ex_blank_rec)"
  by code_simp+

theorem softirqs_read_back_witness:
  "load_soft (\<lambda>s. map_option JObj (encode_line (ex_interval ex_head_rec)))
     (Some (load_encode (\<lambda>d. Some ''x'') (concat [ex_interval ex_head_rec, ex_interval ex_blank_rec]))) =
     Inr [\<lparr>sf_cpu = 3, sf_stime = 14, sf_etime = 17\<rparr>]"
proof -
  let ?l = "ex_interval ex_head_rec" and ?l' = "ex_interval ex_blank_rec"
  have dig: "h_digits ex_head_rec = ''003''" "h_digits ex_blank_rec = ''003''" by (simp_all add: ex_blank_rec_def ex_head_rec_def)
  note shown = ex_interval_shown [OF ex_heads_ok(1) dig(1)] ex_interval_shown [OF ex_heads_ok(2) dig(2)]
  have pass: "passes (cstr (sr_comm ex_soft))" by (rule ex_soft_line_ok(3))
  then have tame: "tame (cstr (sr_comm ex_soft))" by (simp add: passes_def tame_def)
  have arr: "soft_arrives (ex_head_rec, ex_soft)" "\<not> soft_arrives (ex_blank_rec, ex_soft)"
    using pass ex_heads_ok(3,4) by (simp_all add: soft_arrives_def)
  have none: "encode_line ?l' = None" by (rule soft_dropped [OF shown(2) tame arr(2)])
  let ?recs = "[(ex_head_rec, ex_soft), (ex_blank_rec, ex_soft)]"
  have "list_all2 (\<lambda>l r. shows_soft (fst r) (snd r) l \<and>
      json_law (\<lambda>d. Some ''x'') (\<lambda>s. map_option JObj (encode_line ?l)) l) [?l, ?l'] ?recs"
    using shown json_law_two none by simp
  moreover have "\<forall>r \<in> set ?recs. tame (cstr (sr_comm (snd r)))" "\<forall>l \<in> set [?l, ?l']. on_one_line l"
    using tame ex_interval_one_line by simp_all
  ultimately have "load_soft (\<lambda>s. map_option JObj (encode_line ?l)) (Some (load_encode (\<lambda>d. Some ''x'') (concat [?l, ?l']))) =
      Inr (map (\<lambda>r. soft_of (snd r)) (filter soft_arrives ?recs))"
    by (rule softirqs_read_back)
  moreover have "read_nat ''003'' = 3" by (simp add: read_nat_def digit_val_def)
  ultimately show ?thesis using arr by (simp add: soft_of_def ex_soft_def)
qed

end
