(* ===== verification/RecScript.thy ===== *)
theory RecScript
  imports RecConfig GoProcess Encorder "HOL-Library.Sublist"
begin

text \<open>
  scripts/recorder.py: the lists of processes it writes for the analyzer, the filter it builds, and the
  command line it starts the recorder with. What a command prints is the argument \<open>run\<close>: for each command
  its output and its error output.
\<close>

section \<open>The script\<close>

text \<open>\<open>exit(n)\<close> and an exception that nothing catches.\<close>

datatype py_stop = Py_exit int | Py_error

type_synonym 'a py = "py_stop + 'a"

type_synonym commands = "string list \<Rightarrow> string \<times> string"

definition pgrep_list :: "commands \<Rightarrow> string \<Rightarrow> string list py" where
  "pgrep_list run name = (case run [''pgrep'', name] of (out, err) \<Rightarrow>
     if err \<noteq> [] then Inl (Py_exit 1) else Inr (butlast (tokens NL (Some out))))"

definition getKsoftirqdList :: "commands \<Rightarrow> string list py" where
  "getKsoftirqdList run = pgrep_list run ''ksoftirqd''"

definition getKworkerList :: "commands \<Rightarrow> string list py" where
  "getKworkerList run = pgrep_list run ''kworker''"

definition buildFilter :: "string \<Rightarrow> string" where
  "buildFilter tnamelist = foldl (\<lambda>f name. f @ '' || prev_comm ~ '' @ name)
     ''prev_comm ~ ksoftirqd* || prev_comm ~ kworker*'' (tokens CHR '','' (Some tnamelist))"

text \<open>\<open>output\<close>: the content of the file; the last element of an empty list is an exception.\<close>

definition output_list :: "string list \<Rightarrow> string py" where
  "output_list pids = (if pids = [] then Inl Py_error
     else Inr (concat (map (\<lambda>p. p @ '','') (butlast pids)) @ last pids @ [NL]))"

text \<open>
  \<open>record_pids\<close>: an error of \<open>ps\<close> is reported and otherwise ignored; the first word it prints is the
  title of the column.
\<close>

definition ps_command :: "string \<Rightarrow> string" where
  "ps_command pid = ''ps -T -p '' @ pid @ '' | awk '' @
     CHR 0x27 # ''{printf'' @ CHR 0x22 # ''%s,'' @ CHR 0x22 # '',$2}'' @ [CHR 0x27]"

definition record_pids :: "commands \<Rightarrow> string \<Rightarrow> string list \<Rightarrow> string list \<Rightarrow> string py" where
  "record_pids run pid ksoftirqd kworker =
     (let tidlist = tokens CHR '','' (Some (fst (run [ps_command pid]))) in
      output_list (ksoftirqd @ kworker @ butlast (tl tidlist)))"

text \<open>The arguments of the recorder; an option that is not given, or empty, is left out.\<close>

definition given :: "string option \<Rightarrow> string option" where
  "given a = (case a of None \<Rightarrow> None | Some s \<Rightarrow> if s = [] then None else Some s)"

definition record_events_args :: "string \<Rightarrow> string option \<Rightarrow> string option \<Rightarrow> string \<Rightarrow> string \<Rightarrow> string list" where
  "record_events_args flt disklist niclist output period =
     [''./recorder'', ''-f'', flt]
     @ (case given disklist of None \<Rightarrow> [] | Some d \<Rightarrow> [''-d'', d])
     @ (case given niclist of None \<Rightarrow> [] | Some n \<Rightarrow> [''-n'', n])
     @ [''-o'', output, ''-P'', period]"

text \<open>\<open>record_cpufreq\<close>: what \<open>lscpu\<close> says in front of its last GHz, without the newlines around it.\<close>

definition cpufreq_command :: string where
  "cpufreq_command = ''lscpu | grep '' @ CHR 0x22 # ''GHz'' @ CHR 0x22 # '' | awk '' @
     CHR 0x27 # ''{print $NF}'' @ CHR 0x27 # '' | sed '' @ CHR 0x27 # ''s/GHz//'' @ [CHR 0x27]"

definition record_cpufreq :: "commands \<Rightarrow> string py" where
  "record_cpufreq run = (case run [cpufreq_command] of (out, err) \<Rightarrow>
     if err \<noteq> [] then Inl (Py_exit 1) else output_list [py_strip NL out])"

section \<open>The whole script\<close>

text \<open>
  What the script does to the system, in order; it ends with this log or stops with what it had done. A file
  whose list is empty has been opened, and so emptied, when the exception comes.
\<close>

datatype action = Run_cmd "string list" | Write_file string string

type_synonym 'a script = "(py_stop \<times> action list) + 'a"

definition acted :: "action list \<Rightarrow> 'a py \<Rightarrow> ('a \<times> action list) script" where
  "acted log r = (case r of Inl e \<Rightarrow> Inl (e, log) | Inr x \<Rightarrow> Inr (x, log))"

definition write_out :: "string \<Rightarrow> string py \<Rightarrow> action list \<Rightarrow> action list script" where
  "write_out fname content log = (case content of
     Inl e \<Rightarrow> Inl (e, log @ [Write_file fname []]) | Inr c \<Rightarrow> Inr (log @ [Write_file fname c]))"

text \<open>A command of which any output to the error stream ends the script.\<close>

definition must_run :: "commands \<Rightarrow> string list \<Rightarrow> action list \<Rightarrow> action list script" where
  "must_run run cmd log =
     (if snd (run cmd) \<noteq> [] then Inl (Py_exit 1, log @ [Run_cmd cmd]) else Inr (log @ [Run_cmd cmd]))"

definition reset :: "commands \<Rightarrow> string \<Rightarrow> action list \<Rightarrow> action list script" where
  "reset run output log = res_bind (must_run run [''rm'', ''-rf'', output] log) (must_run run [''mkdir'', output])"

record script_args =
  sa_pid :: "string option"
  sa_tnamelist :: "string option"
  sa_period :: string
  sa_disklist :: "string option"
  sa_niclist :: "string option"
  sa_output :: string

definition recorder_script :: "commands \<Rightarrow> script_args \<Rightarrow> action list script" where
  "recorder_script run A = (case (given (sa_pid A), given (sa_tnamelist A)) of
     (Some pid, Some names) \<Rightarrow>
       res_bind (acted [Run_cmd [''pgrep'', ''ksoftirqd'']] (getKsoftirqdList run)) (\<lambda>(ks, l1).
       res_bind (acted (l1 @ [Run_cmd [''pgrep'', ''kworker'']]) (getKworkerList run)) (\<lambda>(kw, l2).
       res_bind (reset run (sa_output A) l2) (\<lambda>l3.
       res_bind (write_out (sa_output A @ ''ksoftirqd'') (output_list ks) l3) (\<lambda>l4.
       res_bind (write_out (sa_output A @ ''kworker'') (output_list kw) l4) (\<lambda>l5.
       res_bind (write_out (sa_output A @ ''pidlist'') (record_pids run pid ks kw) (l5 @ [Run_cmd [ps_command pid]])) (\<lambda>l6.
       res_bind (acted (l6 @ [Run_cmd [cpufreq_command]]) (record_cpufreq run)) (\<lambda>(freq, l7).
       must_run run (record_events_args (buildFilter names) (sa_disklist A) (sa_niclist A) (sa_output A) (sa_period A))
         (l7 @ [Write_file (sa_output A @ ''cpufreq'') freq]))))))))
   | _ \<Rightarrow> Inl (Py_exit 1, []))"

section \<open>Lists of numbers\<close>

lemma output_list_join: "pids \<noteq> [] \<Longrightarrow> output_list pids = Inr (join CHR '','' pids @ [NL])"
proof -
  assume "pids \<noteq> []"
  then have "concat (map (\<lambda>p. p @ '','') (butlast pids)) @ last pids @ [NL] = join CHR '','' pids @ [NL]"
    using concat_pieces [of pids "CHR '',''" "[NL]"] by (simp add: pieces_def)
  with \<open>pids \<noteq> []\<close> show ?thesis by (simp add: output_list_def)
qed

lemma tokens_join_end:
  "pids \<noteq> [] \<Longrightarrow> \<forall>p \<in> set pids. d \<notin> set p \<Longrightarrow> e \<noteq> d \<Longrightarrow>
   tokens d (Some (join d pids @ [e])) = butlast pids @ [last pids @ [e]]"
  by (induction d pids rule: join.induct) (auto simp: tokens_last tokens_cons)

lemma tokens_lines:
  "\<forall>p \<in> set ps. d \<notin> set (f p) \<Longrightarrow> tokens d (Some (concat (map (\<lambda>p. f p @ [d]) ps))) = map f ps @ [[]]"
  by (induction ps) (auto simp: tokens_last tokens_cons)

lemma read_pids_butlast:
  "pids \<noteq> [] \<Longrightarrow> \<forall>p \<in> set pids. - (2 ^ 63) \<le> p \<and> p < 2 ^ 63 \<Longrightarrow>
   read_pids (map show_int (butlast pids) @ [show_int (last pids) @ [NL]]) = Inr pids"
proof (induction pids)
  case (Cons p pids)
  have "NL \<notin> set (show_int p)" by (simp add: show_int_notin)
  with Cons show ?case by (cases "pids = []") (simp_all add: parse_show_int)
qed simp

lemma pids_written_read:
  assumes "run [''pgrep'', ''ksoftirqd''] = (concat (map (\<lambda>p. show_int p @ [NL]) ks), [])"
    and "run [''pgrep'', ''kworker''] = (concat (map (\<lambda>p. show_int p @ [NL]) kw), [])"
    and "fst (run [ps_command pid]) = ''SPID,'' @ concat (map (\<lambda>p. show_int p @ '','') tids)"
    and "ks @ kw @ tids \<noteq> []" and "\<forall>p \<in> set (ks @ kw @ tids). - (2 ^ 63) \<le> p \<and> p < 2 ^ 63"
  shows "\<exists>file. getKsoftirqdList run = Inr (map show_int ks) \<and> getKworkerList run = Inr (map show_int kw) \<and>
    record_pids run pid (map show_int ks) (map show_int kw) = Inr file \<and>
    read_pid_file (Some file) a = Inr (ks @ kw @ tids, segment_map_init (ks @ kw @ tids) a)"
proof -
  have nl: "NL \<notin> set (show_int p)" and comma: "CHR '','' \<notin> set (show_int p)" for p
    by (simp_all add: show_int_notin)
  let ?pids = "ks @ kw @ tids"
  have lists: "getKsoftirqdList run = Inr (map show_int ks)" "getKworkerList run = Inr (map show_int kw)"
    using assms(1,2) nl tokens_lines [of _ NL show_int]
    by (simp_all add: getKsoftirqdList_def getKworkerList_def pgrep_list_def)
  have "tokens CHR '','' (Some (fst (run [ps_command pid]))) =
      ''SPID'' # tokens CHR '','' (Some (concat (map (\<lambda>p. show_int p @ '','') tids)))"
    using tokens_cons [of "CHR '',''" "''SPID''"] by (simp add: assms(3))
  also have "\<dots> = ''SPID'' # map show_int tids @ [[]]" using tokens_lines [of tids "CHR '',''" show_int] comma by simp
  finally have "tokens CHR '','' (Some (fst (run [ps_command pid]))) = ''SPID'' # map show_int tids @ [[]]" .
  then have "record_pids run pid (map show_int ks) (map show_int kw) = output_list (map show_int ?pids)"
    by (simp add: record_pids_def)
  then have written: "record_pids run pid (map show_int ks) (map show_int kw) = Inr (join CHR '','' (map show_int ?pids) @ [NL])"
    using assms(4) by (subst (asm) output_list_join) simp_all
  have "go_split CHR '','' (join CHR '','' (map show_int ?pids) @ [NL]) =
      map show_int (butlast ?pids) @ [show_int (last ?pids) @ [NL]]"
    using tokens_join_end [of "map show_int ?pids" "CHR '',''" NL] assms(4) comma
    by (simp add: go_split_def map_butlast last_map del: map_append)
  with read_pids_butlast [OF assms(4,5)] lists written show ?thesis
    by (simp add: read_pid_file_def)
qed

section \<open>The order of the script\<close>

text \<open>Its steps when nothing goes wrong, the contents of the files apart.\<close>

fun blank :: "action \<Rightarrow> action" where
  "blank (Run_cmd c) = Run_cmd c"
| "blank (Write_file f c) = Write_file f []"

definition script_steps :: "script_args \<Rightarrow> action list" where
  "script_steps A = (let out = sa_output A in
     [Run_cmd [''pgrep'', ''ksoftirqd''], Run_cmd [''pgrep'', ''kworker''],
      Run_cmd [''rm'', ''-rf'', out], Run_cmd [''mkdir'', out],
      Write_file (out @ ''ksoftirqd'') [], Write_file (out @ ''kworker'') [],
      Run_cmd [ps_command (the (sa_pid A))], Write_file (out @ ''pidlist'') [],
      Run_cmd [cpufreq_command], Write_file (out @ ''cpufreq'') [],
      Run_cmd (record_events_args (buildFilter (the (sa_tnamelist A))) (sa_disklist A) (sa_niclist A) out (sa_period A))])"

definition log_of :: "action list script \<Rightarrow> action list" where
  "log_of r = (case r of Inl (e, log) \<Rightarrow> log | Inr log \<Rightarrow> log)"

lemma log_of_simps [simp]: "log_of (Inl (e, log)) = log" "log_of (Inr log) = log"
  by (simp_all add: log_of_def)

lemma given_the: "given a = Some x \<Longrightarrow> the a = x"
  by (auto simp: given_def split: option.splits if_splits)

lemmas script_defs = acted_def write_out_def must_run_def reset_def res_bind_def script_steps_def Let_def

text \<open>The two files the analyzer reads, after a run that was not stopped.\<close>

lemma script_files:
  assumes "recorder_script run A = Inr log" and "sa_pid A = Some pid"
    and "getKsoftirqdList run = Inr ks" and "getKworkerList run = Inr kw" and "record_pids run pid ks kw = Inr f"
  shows "Write_file (sa_output A @ ''pidlist'') f \<in> set log \<and>
    Write_file (sa_output A @ ''cpufreq'') (py_strip NL (fst (run [cpufreq_command])) @ [NL]) \<in> set log"
  using assms
  by (auto simp: recorder_script_def acted_def write_out_def must_run_def reset_def res_bind_Inr_iff given_def
      record_cpufreq_def output_list_def split: option.splits if_splits sum.splits prod.splits)

lemma cpufreq_read:
  "NL \<notin> set s \<Longrightarrow> parse_float s = Some freq \<Longrightarrow> read_cpu_freq parse_float (Some (s @ [NL])) = Inr freq"
  by (simp add: read_cpu_freq_def go_split_def tokens_cons [of NL s "[]", simplified])

lemma script_opts:
  assumes "scan_u64 period = Some t"
  shows "parse_opts (init_config n) (record_events_args (buildFilter names) disklist niclist output period) =
    Inr ((init_config n)\<lparr>filter_expr := Some (buildFilter names), disk_list := given disklist,
      nic_list := given niclist, timeout := t, output_dir := output\<rparr>)"
  using assms
  by (cases "given disklist"; cases "given niclist")
    (simp_all add: record_events_args_def parse_opts_def opt_string_def init_config_def)

text \<open>The last step of a run that was not stopped is the recorder.\<close>

lemma script_runs_recorder:
  "recorder_script run A = Inr log \<Longrightarrow> \<exists>names. sa_tnamelist A = Some names \<and>
   last log = Run_cmd (record_events_args (buildFilter names) (sa_disklist A) (sa_niclist A) (sa_output A) (sa_period A))"
  by (auto simp: recorder_script_def must_run_def res_bind_Inr_iff given_def split: option.splits if_splits)

section \<open>Properties\<close>

text \<open>
  The script does its steps in one order, whatever the commands print and wherever it stops: the
  output directory is emptied before anything is written to it, the lists of processes and the
  frequency are written before the recorder is started, and a run that is not stopped does every step.
\<close>

theorem script_order:
  "prefix (map blank (log_of (recorder_script run A))) (script_steps A) \<and>
   (ok (recorder_script run A) \<longrightarrow> map blank (log_of (recorder_script run A)) = script_steps A)"
proof (cases "given (sa_pid A)"; cases "given (sa_tnamelist A)")
  fix pid names
  assume "given (sa_pid A) = Some pid" "given (sa_tnamelist A) = Some names"
  then show ?thesis
    by (auto simp: recorder_script_def script_defs given_the split: sum.splits prod.splits)
qed (simp_all add: recorder_script_def)

text \<open>
  The processes the script lists reach the analyzer: from what \<open>pgrep\<close> prints for the two kinds of
  kernel threads and \<open>ps\<close> for the threads of the target, a file is written that the analyzer reads as
  the three lists of numbers one after the other, with an empty container for each.
\<close>

theorem pids_reach_analyzer:
  assumes "run [''pgrep'', ''ksoftirqd''] = (concat (map (\<lambda>p. show_int p @ [NL]) ks), [])"
    and "run [''pgrep'', ''kworker''] = (concat (map (\<lambda>p. show_int p @ [NL]) kw), [])"
    and "fst (run [ps_command pid]) = ''SPID,'' @ concat (map (\<lambda>p. show_int p @ '','') tids)"
    and "ks @ kw @ tids \<noteq> []" and "\<forall>p \<in> set (ks @ kw @ tids). - (2 ^ 63) \<le> p \<and> p < 2 ^ 63"
  shows "\<exists>file. res_bind (getKsoftirqdList run) (\<lambda>k. res_bind (getKworkerList run) (record_pids run pid k)) = Inr file \<and>
    read_pid_file (Some file) a = Inr (ks @ kw @ tids, segment_map_init (ks @ kw @ tids) a)"
  using pids_written_read [OF assms] by simp

theorem pids_reach_analyzer_witness:
  "\<exists>run file. res_bind (getKsoftirqdList run) (\<lambda>k. res_bind (getKworkerList run) (record_pids run ''900'' k)) = Inr file \<and>
     read_pid_file (Some file) analysis_start = Inr ([3, 12, 900, 901], segment_map_init [3, 12, 900, 901] analysis_start)"
proof -
  let ?run = "\<lambda>c. if c = [''pgrep'', ''ksoftirqd''] then (concat (map (\<lambda>p. show_int p @ [NL]) [3 :: int]), [])
    else if c = [''pgrep'', ''kworker''] then (concat (map (\<lambda>p. show_int p @ [NL]) [12 :: int]), [])
    else (''SPID,'' @ concat (map (\<lambda>p. show_int p @ '','') [900, 901 :: int]), [] :: string)"
  from pids_reach_analyzer [of ?run "[3]" "[12]" "''900''" "[900, 901]" analysis_start] show ?thesis by auto
qed

text \<open>
  The recorder understands the command line the script starts it with: its configuration has the
  filter, the output directory, the period and just the device lists that were given.
\<close>

theorem script_configures_recorder:
  assumes "scan_u64 period = Some t"
  shows "parse_opts (init_config n) (record_events_args (buildFilter names) disklist niclist output period) =
    Inr ((init_config n)\<lparr>filter_expr := Some (buildFilter names), disk_list := given disklist,
      nic_list := given niclist, timeout := t, output_dir := output\<rparr>)"
  using assms by (rule script_opts)

theorem script_configures_recorder_witness:
  "parse_opts (init_config 2) (record_events_args (buildFilter ''mysqld,sshd'') (Some ''sda'') None ''/tmp/wperf/'' ''90000'') =
    Inr ((init_config 2)\<lparr>filter_expr := Some (buildFilter ''mysqld,sshd''), disk_list := Some ''sda'',
      timeout := 90000, output_dir := ''/tmp/wperf/''\<rparr>)"
proof -
  have "scan_u64 ''90000'' = Some 90000"
    by (simp add: scan_u64_def scan_digits_def c_space_def is_digit_def read_nat_def digit_val_def)
  from script_configures_recorder [OF this, of 2 "''mysqld,sshd''" "Some ''sda''" None "''/tmp/wperf/''"]
  show ?thesis by (simp add: given_def init_config_def)
qed

text \<open>Commands that answer and arguments, for the witness: one thread of each kind.\<close>

definition ex_run :: commands where
  "ex_run c = (if c = [''pgrep'', ''ksoftirqd''] then (concat (map (\<lambda>p. show_int p @ [NL]) [3 :: int]), [])
    else if c = [''pgrep'', ''kworker''] then (concat (map (\<lambda>p. show_int p @ [NL]) [12 :: int]), [])
    else if c = [ps_command ''7''] then (''SPID,'' @ concat (map (\<lambda>p. show_int p @ '','') [7, 8 :: int]), [])
    else if c = [cpufreq_command] then (''2.4'' @ [NL], []) else ([], []))"

definition ex_args :: script_args where
  "ex_args = \<lparr>sa_pid = Some ''7'', sa_tnamelist = Some ''sshd'', sa_period = ''90000'', sa_disklist = None,
     sa_niclist = None, sa_output = ''/tmp/wperf/''\<rparr>"

lemma ex_run_ok: "ok (recorder_script ex_run ex_args)"
proof -
  have "\<exists>f. getKsoftirqdList ex_run = Inr (map show_int [3]) \<and> getKworkerList ex_run = Inr (map show_int [12]) \<and>
      record_pids ex_run ''7'' (map show_int [3]) (map show_int [12]) = Inr f \<and>
      read_pid_file (Some f) analysis_start = Inr ([3] @ [12] @ [7, 8], segment_map_init ([3] @ [12] @ [7, 8]) analysis_start)"
    by (rule pids_written_read) (simp_all add: ex_run_def)
  then obtain f where f: "getKsoftirqdList ex_run = Inr [show_int 3]" "getKworkerList ex_run = Inr [show_int 12]"
    "record_pids ex_run ''7'' [show_int 3] [show_int 12] = Inr f" by auto
  have given: "given (sa_pid ex_args) = Some ''7''" "given (sa_tnamelist ex_args) = Some ''sshd''"
    by (simp_all add: ex_args_def given_def)
  have "snd (ex_run c) = []" for c by (simp add: ex_run_def)
  moreover from this have "\<exists>c. record_cpufreq ex_run = Inr c"
    by (auto simp: record_cpufreq_def output_list_def split: prod.split) (metis snd_conv)
  ultimately show ?thesis using given f
    by (auto simp: recorder_script_def acted_def write_out_def must_run_def reset_def output_list_def)
qed

theorem script_order_witness:
  "map blank (log_of (recorder_script ex_run ex_args)) = script_steps ex_args"
  using script_order [of ex_run ex_args] ex_run_ok by blast

end
