(* ===== verification/Spec2Isabelle.thy ===== *)
theory Spec2Isabelle
  imports TxSession LookupRace ResetRace RecRun LockCase GoOutcome LineFate RecScript
begin

text \<open>
  A verification library of wPerf, which records why threads wait: a kernel module that turns
  scheduler and softirq activity into trace events and keeps two statistics of its own, a recorder
  that switches the events and copies the trace, scripts that start the recorder and encode the trace, and an
  analyzer of what was recorded. Modelled are the kernel module (src/module), the recorder
  (src/recorder), the two sample programs (src/cases), which are all the C code of the repository, the
  analyzer in Go (src/analyzer) with the ordered map it keeps its data in, and the two Python scripts
  (src/scripts).

  How the parts interact. The module places probes on kernel functions. Most handlers hand a record to a
  tracepoint of trace_wperf_events.h, whose text the recorder reads from the trace pipes of the two
  instances \<open>switch\<close> and \<open>softirq\<close>. Five handlers of the socket layer and one of the block layer
  only add to counters; these are switched and read through six files in debugfs. The recorder
  writes the filter and the switch of each trace event, copies the pipes to files until a timer
  or an interrupt, and starts \<open>iostat\<close> and \<open>ifstat\<close>. scripts/recorder.py lists the processes to look
  at and the CPU frequency and starts the recorder; scripts/encorder.py turns each line of a trace into a JSON object. The
  analyzer reads the list and the objects, breaks the life of each process into running, runnable and
  blocked segments, and sums the blocked time on the edges of a graph of who waits for whom.

  Theories, in the order of their imports:
  \<^item> WPrelude: machine words, results of operations that can go wrong, shared lemmas.
  \<^item> CLib: C strings; \<open>strncpy\<close>, \<open>strncmp\<close>, \<open>strsep\<close>, decimal output. A C string is the list of its
    characters before the NUL, a buffer the list of all its bytes.
  \<^item> TraceSeq: \<open>trace_seq_puts\<close> and \<open>trace_seq_nl\<close> of trace_wperf_events.c with their 32 and 64 bit
    arithmetic, the contract of a writer into a sequence (locale \<open>seq_writer\<close>), which the module's
    own writer satisfies, and what loops over a writer produce: whole strings from the front, all of
    them if they fit.
  \<^item> Kernel: the static data of the module as one record \<open>wperf\<close>, its enumerations, its tables of
    probes, the kernel functions it calls as a record of parameters \<open>kapi\<close> with one predicate for the
    documented behaviour of each, and the switching of probes as a locale \<open>probe_switch\<close>. KernelRef
    has one executable choice of the parameters for the witnesses.
  \<^item> TraceEvents: the records of trace_wperf_events.h, their text, and the handlers that emit them.
  \<^item> DiskUtils, TxStats: the two statistics, each with its probe handlers and the operations of its
    files \<open>enable\<close>, \<open>filter\<close> and \<open>output\<close>; a table of rows and counters read as an association list, a
    bitmap read as a set.
  \<^item> DebugFs: the generic file operations, the contract of an \<open>enable\<close> file (locale \<open>enable_file\<close>,
    interpreted for both directories at once), loading and unloading.
  \<^item> Machine: the loaded module as a transition system over all events and file operations as whole calls, the
    states careful users reach, the invariant that any sequence of such calls keeps until one leaves an array. Session, TxSession: whole measurements of disk
    activity and of transmissions.
  \<^item> RecPaths, RecConfig: path builders of recorder/defs.h, command line of recorder/main.c.
  \<^item> RecEvents, RecCopy: recorder/event.c, its synchronous half as computations that extend a log of
    system calls, its callbacks as a step relation driven by completions.
  \<^item> RecWorkers, RecLoop: recorder/ioworker.c; recorder/recorder.c and \<open>main\<close>. RecRun: the event loop as
    one system, in which the copies, the timer, the signal and the helper processes are called back in
    any order.
  \<^item> LockCase: src/cases, both programs as one step relation over program counters.
  \<^item> CounterRace: the addition to a disk counter as a load and a store, on several CPUs. FileRace, TxRace: the
    file operations of the two statistics as single accesses of several tasks; FileTasks: the contract both
    groups of files meet (locales \<open>switched_files\<close>, \<open>counting_files\<close>; \<open>two_groups\<close> joins two) and the
    invariant that follows. AllFiles: all six files with \<open>event_mutex\<close>, and handlers that are in flight between
    their look-up and their addition; an act that leaves an array is an outcome, not a run left out. FileBounds: which
    users keep all interleavings in the arrays. LookupRace: a look-up whose table changes between its comparisons. ResetRace:
    a write of 0 to \<open>enable\<close> with a handler in flight.
  \<^item> GoTree: trees/redblacktree of the vendored package gods, a node with parent pointers being a
    subtree and the path above it; the contract of an ordered map (locale \<open>ordered_map\<close>), which the tree
    satisfies. GoLib: the functions of the Go library the analyzer calls, decoding of JSON members into
    fields among them.
  \<^item> GoEvents: lib/events/switch.go and soft.go. GoProcess: lib/process/process.go and main.go, the package
    variables as one record \<open>analysis\<close>. GoSegments: what \<open>BreakIntoSegments\<close> does, against a reference
    function on lists. GoGraph: what \<open>Cascade\<close> does to the graph, and whole runs. GoReport: the report, a
    sum over segments that are computed from the events without any container, and that the analyzer
    computes it. GoOutcome: which traces stop the analyzer, and with which stop.
  \<^item> Encorder: scripts/encorder.py. Pipeline: a record from the module through the text and the
    script into the analyzer; TraceFiles: both trace files as wholes, of tasks whose names pass the script; LineFate: what
    becomes of each line whatever the tasks are called. RecScript: scripts/recorder.py from
    its arguments to its end, with the reader of the pid file and the command line of the recorder. The
    theorems behind this header join the scripts, the text of the module and the analyzer, and the
    script and the recorder.

  What the lemmas show. Handlers: every field of a record and its value in terms of the context
  (and the one field that is not assigned), independence of other CPUs, counters as a refinement of an
  abstract addition. Files: what each write accepts and changes on every path, which errors
  leave a probe off, that what is written reads back, what a page holds of a line. Machine: an invariant
  of all states that whole calls lead to, and that no call from a kernel and a careful user leaves an array; what
  a careless filter text does is shown apart, as are the error paths that leak or leave probes off.
  Recorder: the configuration of a command line, the order of the control writes at start and stop, that
  copies are exact unless a write is short, whatever else is called back, that the files are complete
  when the loop ends, that after the period nothing is left to wait for but what a second \<open>uv_spawn\<close> may leave, and that it does not end after an interrupt. Samples: the
  bounds of the counter, and that no wake-up is lost, and that neither program gets stuck. Tree: contents, order, balance,
  neighbours, iteration. Analyzer: segments are well typed and are those of the reference, runs end,
  and the weights of the graph are the sums of the direct waits of the report; the traces on which a run
  stops are characterised, and the cases in which an event is dropped or a wait is not counted stated. Scripts: what they write is what its readers
  get, which lines of a trace are dropped and why, in which order the script works, and that a measurement ends in the report of its events. Races:
  loads and stores of two CPUs can lose an addition but invent no time; both statistics are protected against
  everything but writes to \<open>enable\<close>, which are not made under the mutex: handlers in flight then count what
  they found, once, and the mutex is always given back. No act leaves an array, even with such writes, as long as the filters
  written name at most twenty disks and pids below the limit; with one name more the write itself does. A write to \<open>enable\<close> during
  another operation can leave the probe armed over a half written table or armed for good, from any such state, and a handler
  whose look-up or addition falls into a rewriting or a reset can miss its device or survive the reset.

  Bounds and termination. Only \<open>cascade\<close> has fuel; the 2 turns \<open>main\<close> is given are enough, since the
  search for further waits returns none (analysis_terminates). The searching loop of the analyzer and the
  loop over an iterator are partial functions shown to return. Other loops are structural or have a measure (the
  unread rest for \<open>strsep\<close>, the distance to \<open>didx\<close> or to the end of a file list for indices, the
  length of the arguments for \<open>getopt\<close>); the busy loop of a sample program ends by the rank \<open>c_rank\<close>.
  Event loops and threads are step relations; the callbacks after the end of the period are bounded, given a bound on the bytes
  of the pipes, by \<open>run_rank\<close>, a sum of what the requests, the pipes and the helper processes still have to give. Words keep their width: counters and jiffies 64 bits,
  lengths of sequences and the counter of the samples 32 bits; pids and dentries are plain numbers. Lines
  of disk counters fit a page of 1024 bytes, the smallest item of the other lines one of 64; kernels
  have pages of 4096 or more.

  Parameters. Kernel functions (\<open>kapi\<close>, \<open>loader\<close>), libuv (\<open>uvapi\<close>, results that may depend on
  the history; \<open>respawn\<close>, what it makes of the second \<open>uv_spawn\<close> on an active handle, which it does not document) and memory
  allocation are arguments, and so are, for the analyzer and the scripts, the text
  syntax of JSON, the sorting routine, reading and printing of floating point numbers and the output
  of commands; properties state what they rely on as hypotheses, and each has a witness at a
  concrete input.

  Not modelled: interleaving inside the operations of the module outside CounterRace, FileRace, TxRace and
  AllFiles, where each is one step; what a reader prints in AllFiles, where the look-up of a handler
  is one step and its addition another, each divided only in LookupRace and CounterRace; what goes on after an array has been
  left; what the second \<open>uv_spawn\<close> of a worker does beyond the exits called back and the activity of the loop; task names with both a comma and an equals
  sign, or with a newline, on their way to the analyzer (LineFate shows what one such name does); messages to the log or to stderr; characters beyond one
  byte; the parsing of flags in the analyzer and the scripts, a library's; removal, reverse iteration and
  serialisation of the vendored containers, which the analyzer does not call; makefiles.
\<close>

section \<open>From the scripts and the module to the graph\<close>

lemma no_exits:
  assumes "mset swl = mset (map (\<lambda>r. switch_of (int (read_nat (fst r))) (snd r)) recs)"
    and "\<forall>r \<in> set recs. e_type (snd r) = EXIT \<longrightarrow> e_prev_pid (snd r) \<notin> set pids"
  shows "\<forall>p \<in> set pids. exits_of p swl = []"
proof -
  have "set swl = (\<lambda>r. switch_of (int (read_nat (fst r))) (snd r)) ` set recs"
    using assms(1) by (metis set_mset_mset set_map)
  with assms(2) show ?thesis by (auto simp: exits_of_def filter_empty_conv switch_of_def event_type_defs)
qed

text \<open>
  C1: A whole measurement: the script collects the processes and the frequency and runs the recorder without
  being stopped; the two trace files show scheduling records and softirq intervals of the module, of tasks whose names the
  script can read, and are encoded; no listed process exits. Then the analyzer, given the four files, ends without a stop, and its
  graph is the report of the recorded events for the listed processes.
\<close>

theorem measured_waits:
  assumes "recorder_script run A = Inr log" and "sa_pid A = Some pid"
    and "run [''pgrep'', ''ksoftirqd''] = (concat (map (\<lambda>p. show_int p @ [NL]) ks), [])"
    and "run [''pgrep'', ''kworker''] = (concat (map (\<lambda>p. show_int p @ [NL]) kw), [])"
    and "fst (run [ps_command pid]) = ''SPID,'' @ concat (map (\<lambda>p. show_int p @ '','') tids)"
    and "ks @ kw @ tids \<noteq> []" and "\<forall>p \<in> set (ks @ kw @ tids). - (2 ^ 63) \<le> p \<and> p < 2 ^ 63"
    and "distinct (ks @ kw @ tids)"
    and "NL \<notin> set (py_strip NL (fst (run [cpufreq_command])))"
    and "parse_float (py_strip NL (fst (run [cpufreq_command]))) = Some freq"
    and "list_all2 (\<lambda>l r. record_line (fst r) (snd r) l \<and> json_law dumps parse l) lines recs"
    and "\<forall>r \<in> set recs. names_pass (snd r) \<and> numbers_fit (snd r)" and "\<forall>l \<in> set lines. on_one_line l"
    and "recs \<noteq> []" and "\<forall>r \<in> set recs. e_type (snd r) = EXIT \<longrightarrow> e_prev_pid (snd r) \<notin> set (ks @ kw @ tids)"
    and "list_all2 (\<lambda>l r. soft_line r l \<and> json_law dumps parse l) slines srecs"
    and "\<forall>r \<in> set srecs. passes (cstr (sr_comm r))" and "\<forall>l \<in> set slines. on_one_line l"
    and "sorts_by_time srt"
  shows "\<exists>pf cf swl sm a. Write_file (sa_output A @ ''pidlist'') pf \<in> set log \<and>
    Write_file (sa_output A @ ''cpufreq'') cf \<in> set log \<and>
    mset swl = mset (map (\<lambda>r. switch_of (int (read_nat (fst r))) (snd r)) recs) \<and> sorted (map sw_time swl) \<and>
    init_soft_container (map soft_of srecs) = Inr sm \<and>
    analyze parse_float parse srt (Some cf) (Some pf) (Some (load_encode dumps (concat lines)))
      (Some (load_encode dumps (concat slines))) = Some (Inr (freq, a)) \<and>
    waitForGraph a = report sm swl (ks @ kw @ tids)"
proof -
  from pids_written_read [where run = run and pid = pid and a = analysis_start, OF assms(3-7)] obtain pf where
    pf: "getKsoftirqdList run = Inr (map show_int ks)" "getKworkerList run = Inr (map show_int kw)"
    "record_pids run pid (map show_int ks) (map show_int kw) = Inr pf"
    "read_pid_file (Some pf) analysis_start = Inr (ks @ kw @ tids, segment_map_init (ks @ kw @ tids) analysis_start)"
    by blast
  note files = script_files [OF assms(1,2) pf(1-3)] and freq = cpufreq_read [where parse_float = parse_float, OF assms(9,10)]
  have "\<forall>l \<in> set lines. on_one_line l \<and> (\<exists>b. l = b @ [NL])"
    using assms(11,13) record_line_ends by (fastforce simp: list_all2_conv_all_nth in_set_conv_nth)
  with load_switch_lines [OF assms(11,12,19)] obtain swl where
    swl: "load_switch parse srt (Some (load_encode dumps (concat lines))) = Inr swl"
    "mset swl = mset (map (\<lambda>r. switch_of (int (read_nat (fst r))) (snd r)) recs)" "sorted (map sw_time swl)"
    by (auto simp: load_encode_lines)
  have sl: "load_soft parse (Some (load_encode dumps (concat slines))) = Inr (map soft_of srecs)"
    by (rule load_soft_file [OF assms(16-18)])
  obtain sm where sm: "init_soft_container (map soft_of srecs) = Inr sm" using init_soft_container_ok by blast
  note reports = analyze_reports [OF freq pf(4) assms(19) swl(1) sl sm assms(8)]
  have "swl \<noteq> []" using swl(2) assms(14) by (cases recs) auto
  with reports(2) no_exits [OF swl(2) assms(15)] obtain a where
    a: "analyze parse_float parse srt (Some (py_strip NL (fst (run [cpufreq_command])) @ [NL])) (Some pf)
      (Some (load_encode dumps (concat lines))) (Some (load_encode dumps (concat slines))) = Some (Inr (freq, a))"
    by blast
  with reports(1) files swl(2,3) sm show ?thesis by blast
qed

text \<open>
  The witness: CPU 3 switches process 7 out unrunnable at 5, process 8 wakes it at 9; any list of lines has
  a JSON syntax that satisfies the law, here the position of a line with an object.
\<close>

definition ex_out :: sched_entry where
  "ex_out = \<lparr>e_type = 0, e_tsc = 5, e_prev_comm = ''p7'' @ [NUL], e_next_comm = ''p0'' @ [NUL], e_prev_pid = 7,
     e_next_pid = 0, e_prev_state = 1, e_next_state = 0, e_ctx = 12\<rparr>"

definition ex_wake :: sched_entry where
  "ex_wake = \<lparr>e_type = 1, e_tsc = 9, e_prev_comm = ''p8'' @ [NUL], e_next_comm = ''p7'' @ [NUL], e_prev_pid = 8,
     e_next_pid = 7, e_prev_state = 0, e_next_state = 1, e_ctx = 12\<rparr>"

definition ex_lines :: "string list" where
  "ex_lines = [ftrace_line ex_head ''__switch_to'' (print_switch_to ex_out),
     ftrace_line ex_head ''__switch_to'' (print_switch_to ex_wake)]"

definition ex_dumps :: "string list \<Rightarrow> members \<Rightarrow> string option" where
  "ex_dumps ls d = Some (replicate (length (takeWhile (\<lambda>l. encode_line l \<noteq> Some d) ls)) CHR ''x'')"

definition ex_parse_lines :: "string list \<Rightarrow> string \<Rightarrow> jval option" where
  "ex_parse_lines ls s = map_option JObj (encode_line (ls ! length s))"

lemma ex_json_law:
  assumes "l \<in> set ls"
  shows "json_law (ex_dumps ls) (ex_parse_lines ls) l"
  unfolding json_law_def
proof (intro allI impI)
  fix d assume d: "encode_line l = Some d"
  let ?n = "length (takeWhile (\<lambda>l. encode_line l \<noteq> Some d) ls)"
  have "?n < length ls"
  proof (rule ccontr)
    assume "\<not> ?n < length ls"
    then have "takeWhile (\<lambda>l. encode_line l \<noteq> Some d) ls = ls"
      by (metis length_takeWhile_le not_less order_antisym takeWhile_eq_take take_all_iff)
    with assms d show False by (metis set_takeWhileD)
  qed
  then have "encode_line (ls ! ?n) = Some d" using nth_length_takeWhile by fastforce
  then show "\<exists>s. ex_dumps ls d = Some s \<and> NL \<notin> set s \<and> ex_parse_lines ls s = Some (JObj d)"
    by (simp add: ex_dumps_def ex_parse_lines_def)
qed

lemma ex_lines_ok: "\<forall>l \<in> set ex_lines. on_one_line l" "names_pass ex_out" "names_pass ex_wake"
  by code_simp+

lemma ex_numbers_fit: "numbers_fit ex_out" "numbers_fit ex_wake"
  by (simp_all add: numbers_fit_def int64_def ex_out_def ex_wake_def)

lemma ex_report: "case init_soft_container [soft_of ex_soft] of
    Inr sm \<Rightarrow> report sm [switch_of 3 ex_out, switch_of 3 ex_wake] [3, 12, 7, 8] ''p7,p8,'' = Some 4 | Inl e \<Rightarrow> False"
  by code_simp

lemma two_sorted:
  fixes f :: "'a \<Rightarrow> 'b::linorder"
  assumes "mset xs = {#a, b#}" and "sorted (map f xs)" and "f a < f b"
  shows "xs = [a, b]"
proof -
  from assms(1) have "length xs = 2" by (metis size_mset size_add_mset size_empty numeral_2_eq_2)
  then obtain x y where xs: "xs = [x, y]" by (auto simp: numeral_2_eq_2 length_Suc_conv)
  with assms(1) have "x = a \<and> y = b \<or> x = b \<and> y = a" by (auto simp: add_eq_conv_ex)
  with assms(2,3) xs show ?thesis by auto
qed

theorem measured_waits_witness:
  "\<exists>log pf cf a. recorder_script ex_run ex_args = Inr log \<and> Write_file ''/tmp/wperf/pidlist'' pf \<in> set log \<and>
    Write_file ''/tmp/wperf/cpufreq'' cf \<in> set log \<and>
    analyze (\<lambda>s. Some s) (ex_parse_lines (ex_lines @ [ex_soft_line])) (sort_key sw_time) (Some cf) (Some pf)
      (Some (load_encode (ex_dumps (ex_lines @ [ex_soft_line])) (concat ex_lines)))
      (Some (load_encode (ex_dumps (ex_lines @ [ex_soft_line])) ex_soft_line)) = Some (Inr (''2.4'', a)) \<and>
    waitForGraph a ''p7,p8,'' = Some 4"
proof -
  let ?ls = "ex_lines @ [ex_soft_line]"
  obtain log where log: "recorder_script ex_run ex_args = Inr log" using ex_run_ok by (auto simp: ok_def)
  have freq: "py_strip NL (fst (ex_run [cpufreq_command])) = ''2.4''" by code_simp
  have three: "read_nat ''003'' = 3" by (simp add: read_nat_def digit_val_def)
  have recs: "list_all2 (\<lambda>l r. record_line (fst r) (snd r) l \<and> json_law (ex_dumps ?ls) (ex_parse_lines ?ls) l)
      ex_lines [(''003'', ex_out), (''003'', ex_wake)]"
    using ex_json_law [of _ ?ls] by (simp add: ex_lines_def ex_record_line)
  have soft: "list_all2 (\<lambda>l r. soft_line r l \<and> json_law (ex_dumps ?ls) (ex_parse_lines ?ls) l) [ex_soft_line] [ex_soft]"
    using ex_json_law [of _ ?ls] ex_soft_line_ok(1) by simp
  have "sa_pid ex_args = Some ''7''" "sa_output ex_args = ''/tmp/wperf/''" by (simp_all add: ex_args_def)
  with measured_waits [OF log this(1), of "[3]" "[12]" "[7, 8]" "\<lambda>s. Some s" "''2.4''" "ex_dumps ?ls" "ex_parse_lines ?ls"
      ex_lines "[(''003'', ex_out), (''003'', ex_wake)]" "[ex_soft_line]" "[ex_soft]" "sort_key sw_time"]
    recs soft freq ex_lines_ok ex_numbers_fit ex_soft_line_ok(2,3) sorts_by_time_sort_key
  obtain pf cf swl sm a where r: "Write_file ''/tmp/wperf/pidlist'' pf \<in> set log" "Write_file ''/tmp/wperf/cpufreq'' cf \<in> set log"
    "mset swl = {#switch_of 3 ex_out, switch_of 3 ex_wake#}" "sorted (map sw_time swl)"
    "init_soft_container [soft_of ex_soft] = Inr sm"
    "analyze (\<lambda>s. Some s) (ex_parse_lines ?ls) (sort_key sw_time) (Some cf) (Some pf)
      (Some (load_encode (ex_dumps ?ls) (concat ex_lines))) (Some (load_encode (ex_dumps ?ls) ex_soft_line)) = Some (Inr (''2.4'', a))"
    "waitForGraph a = report sm swl [3, 12, 7, 8]"
    by (auto simp: three ex_run_def event_type_defs ex_out_def [of] ex_wake_def [of])
  have "swl = [switch_of 3 ex_out, switch_of 3 ex_wake]"
    by (rule two_sorted [OF r(3,4)]) (simp add: switch_of_def ex_out_def ex_wake_def)
  with ex_report r(5,7) have "waitForGraph a ''p7,p8,'' = Some 4" by simp
  with log r show ?thesis by blast
qed

section \<open>From the script to the trace events\<close>

text \<open>
  C32: What the script asks for is what the kernel is told: when the script ran to its end, the command it ran last
  starts a recorder which, if it reaches its event loop, has written the default buffer size of each instance, then the
  filter of the script's thread names to all five events, then 1 to the \<open>enable\<close> of all five, and only then asked for the two
  pipes; at the end it set its timer to the period of the script.
\<close>

theorem script_starts_tracing:
  assumes "recorder_script run A = Inr log" and "last log = Run_cmd args" and "scan_u64 (sa_period A) = Some t"
    and "recorder_main V mem bufs args = Inr (rec, rlog)"
  shows "\<exists>names l1 l2. sa_tnamelist A = Some names \<and> rlog = l1 @ l2 \<and>
    ctl_writes l1 = [(get_instance_bufsize basedir i, iov_of ''4096''). i \<leftarrow> instances]
      @ [(f, iov_of (buildFilter names)). f \<leftarrow> event_files get_instance_filter]
      @ [(f, iov_of ''1''). f \<leftarrow> event_files get_instance_enable] \<and> pipes l1 = [] \<and>
    ctl_writes l2 = [] \<and> pipes l2 = map (get_instance_input basedir) instances \<and> last rlog = Timer_start t"
proof -
  obtain names where n: "sa_tnamelist A = Some names"
    "args = record_events_args (buildFilter names) (sa_disklist A) (sa_niclist A) (sa_output A) (sa_period A)"
    using script_runs_recorder [OF assms(1)] assms(2) by auto
  let ?cf = "(init_config event_instances)\<lparr>filter_expr := Some (buildFilter names), disk_list := given (sa_disklist A),
      nic_list := given (sa_niclist A), timeout := t, output_dir := sa_output A\<rparr>"
  have run: "recorder_run V mem bufs ?cf = Inr (None, rec, rlog)"
    using assms(4) script_opts [OF assms(3)] by (auto simp: recorder_main_def n(2) res_bind_Inr_iff split: if_splits)
  have "instances_num ?cf = 2" by (simp add: init_config_def event_instances_def)
  from started_log [OF run this] obtain l1 where
    "adds [] l1 ([(get_instance_bufsize basedir i, iov_of (bufsize_kb ?cf)). i \<leftarrow> instances]
      @ [(f, iov_of (buildFilter names)). f \<leftarrow> event_files get_instance_filter]
      @ [(f, iov_of ''1''). f \<leftarrow> event_files get_instance_enable]) []"
    "adds l1 rlog [] (map (get_instance_input basedir) instances)" by auto
  moreover have "bufsize_kb ?cf = ''4096''" by (simp add: init_config_def)
  ultimately show ?thesis using n(1) started_timer [OF run] by (auto simp: adds_def)
qed

lemma ex_main_run:
  "case recorder_run ref_uvapi True ref_bufs ((init_config event_instances)\<lparr>filter_expr := Some (buildFilter ''sshd''), disk_list := None,
      nic_list := None, timeout := 90000, output_dir := ''/tmp/wperf/''\<rparr>) of Inr (None, rec, rlog) \<Rightarrow> True | _ \<Rightarrow> False"
  by code_simp

theorem script_starts_tracing_witness:
  "\<exists>log args rec rlog. recorder_script ex_run ex_args = Inr log \<and> last log = Run_cmd args \<and>
    recorder_main ref_uvapi True ref_bufs args = Inr (rec, rlog) \<and> last rlog = Timer_start 90000"
proof -
  obtain log where log: "recorder_script ex_run ex_args = Inr log" using ex_run_ok by (auto simp: ok_def)
  let ?args = "record_events_args (buildFilter ''sshd'') None None ''/tmp/wperf/'' ''90000''"
  have last: "last log = Run_cmd ?args" using script_runs_recorder [OF log] by (auto simp: ex_args_def)
  have period: "scan_u64 (sa_period ex_args) = Some 90000"
    by (simp add: ex_args_def scan_u64_def scan_digits_def c_space_def is_digit_def read_nat_def digit_val_def)
  obtain rec rlog where "recorder_run ref_uvapi True ref_bufs ((init_config event_instances)\<lparr>filter_expr := Some (buildFilter ''sshd''),
      disk_list := None, nic_list := None, timeout := 90000, output_dir := ''/tmp/wperf/''\<rparr>) = Inr (None, rec, rlog)"
    using ex_main_run by (auto split: sum.splits option.splits)
  then have main: "recorder_main ref_uvapi True ref_bufs ?args = Inr (rec, rlog)"
    using script_opts [OF period, of event_instances "''sshd''" None None "''/tmp/wperf/''"]
    by (simp add: recorder_main_def given_def ex_args_def)
  from script_starts_tracing [OF log last period main] have "last rlog = Timer_start 90000" by blast
  with log last main show ?thesis by blast
qed

end
